(* ===== verification/Prelude.thy ===== *)
theory Prelude
  imports Main "HOL-Library.Word"
begin

text \<open>
  Shared material of the development: the names of the machine integer types, the model of
  \<^verbatim>\<open>std::map\<close> as an association list sorted by key, and the generic lemmas that the
  component theories use.

  A failed \<^verbatim>\<open>assert\<close> or \<^verbatim>\<open>ceph_abort()\<close> ends the process. Operations that
  contain one return an \<open>option\<close>, and \<open>None\<close> stands for the abort.
\<close>

section \<open>Machine integers\<close>

type_synonym u8 = "8 word"
type_synonym u16 = "16 word"
type_synonym u32 = "32 word"
type_synonym u64 = "64 word"

text \<open>
  Where a component computes with integers, the reduction to the width of the type is written out:
  \<^verbatim>\<open>uint64_t\<close> arithmetic wraps at \<open>2 ^ 64\<close>, \<^verbatim>\<open>int64_t\<close> keeps the two's complement reading.
\<close>

definition wrap_u64 :: "int \<Rightarrow> int" where
  "wrap_u64 x = x mod 2 ^ 64"

definition wrap_s64 :: "int \<Rightarrow> int" where
  "wrap_s64 x = (x + 2 ^ 63) mod 2 ^ 64 - 2 ^ 63"

lemma wrap_u64_id: "0 \<le> x \<Longrightarrow> x < 2 ^ 64 \<Longrightarrow> wrap_u64 x = x"
  by (simp add: wrap_u64_def)

lemma wrap_s64_id: "- (2 ^ 63) \<le> x \<Longrightarrow> x < 2 ^ 63 \<Longrightarrow> wrap_s64 x = x"
  by (simp add: wrap_s64_def)

section \<open>Ordered maps\<close>

text \<open>
  A \<^verbatim>\<open>std::map<K,V>\<close> is an association list in strictly ascending key order, the order in
  which its iterators visit it. An iterator is a position in that list, and the length of the
  list is \<^verbatim>\<open>end()\<close>.
\<close>

type_synonym ('k, 'v) omap = "('k \<times> 'v) list"

definition omap_wf :: "('k::linorder, 'v) omap \<Rightarrow> bool" where
  "omap_wf m \<longleftrightarrow> sorted_wrt (<) (map fst m)"

text \<open>\<^verbatim>\<open>lower_bound(k)\<close>: the first entry whose key is not below \<open>k\<close>.\<close>

definition omap_lower_bound :: "('k::linorder, 'v) omap \<Rightarrow> 'k \<Rightarrow> nat" where
  "omap_lower_bound m k = length (takeWhile (\<lambda>e. fst e < k) m)"

text \<open>\<^verbatim>\<open>m[k] = v\<close>\<close>

fun omap_put :: "'k::linorder \<Rightarrow> 'v \<Rightarrow> ('k, 'v) omap \<Rightarrow> ('k, 'v) omap" where
  "omap_put k v [] = [(k, v)]"
| "omap_put k v ((k', v') # m) =
     (if k < k' then (k, v) # (k', v') # m
      else if k = k' then (k, v) # m
      else (k', v') # omap_put k v m)"

text \<open>\<^verbatim>\<open>m.erase(iterator)\<close>\<close>

definition omap_erase_at :: "nat \<Rightarrow> ('k, 'v) omap \<Rightarrow> ('k, 'v) omap" where
  "omap_erase_at i m = take i m @ drop (Suc i) m"

text \<open>\<^verbatim>\<open>m.erase(key)\<close>\<close>

definition omap_del :: "'k \<Rightarrow> ('k, 'v) omap \<Rightarrow> ('k, 'v) omap" where
  "omap_del k m = filter (\<lambda>e. fst e \<noteq> k) m"

named_theorems omap_simps

lemma omap_wf_Nil [simp]: "omap_wf []"
  by (simp add: omap_wf_def)

lemma omap_wf_Cons [simp]:
  "omap_wf ((k, v) # m) \<longleftrightarrow> (\<forall>e \<in> set m. k < fst e) \<and> omap_wf m"
  by (auto simp: omap_wf_def)

lemma omap_wf_append:
  "omap_wf (xs @ ys) \<longleftrightarrow>
     omap_wf xs \<and> omap_wf ys \<and> (\<forall>x \<in> set xs. \<forall>y \<in> set ys. fst x < fst y)"
  by (auto simp: omap_wf_def sorted_wrt_append)

lemma omap_put_between [omap_simps]:
  assumes "\<forall>e \<in> set xs. fst e < k" and "\<forall>e \<in> set ys. k < fst e"
  shows "omap_put k v (xs @ ys) = xs @ (k, v) # ys"
  using assms(1)
proof (induction xs)
  case Nil
  show ?case using assms(2) by (cases ys) (auto simp: split_beta)
next
  case (Cons x xs)
  then show ?case by (cases x) auto
qed

lemma set_omap_put: "set (map fst (omap_put k v m)) = insert k (set (map fst m))"
  by (induction k v m rule: omap_put.induct) auto

lemma omap_wf_put [simp]: "omap_wf m \<Longrightarrow> omap_wf (omap_put k v m)"
proof (induction k v m rule: omap_put.induct)
  case (2 k v k' v' m)
  have "\<forall>e \<in> set (omap_put k v m). fst e = k \<or> fst e \<in> fst ` set m"
    using set_omap_put [of k v m] by force
  with 2 show ?case by force
qed simp

lemma map_of_omap_put [simp]: "map_of (omap_put k v m) = (map_of m)(k \<mapsto> v)"
  by (induction k v m rule: omap_put.induct) (auto simp: fun_eq_iff)

lemma map_of_omap_del [simp]: "map_of (omap_del k m) = (map_of m)(k := None)"
  by (induction m) (auto simp: omap_del_def fun_eq_iff)

lemma omap_wf_filter: "omap_wf m \<Longrightarrow> omap_wf (filter P m)"
  by (induction m) (auto simp: omap_wf_def)

lemma omap_wf_del [simp]: "omap_wf m \<Longrightarrow> omap_wf (omap_del k m)"
  by (simp add: omap_del_def omap_wf_filter)

lemma omap_erase_at_append [simp]: "omap_erase_at (length xs) (xs @ y # ys) = xs @ ys"
  by (simp add: omap_erase_at_def)

lemma list_update_append_length [simp]: "(xs @ y # ys)[length xs := z] = xs @ z # ys"
  by simp

section \<open>Loops that may abort\<close>

text \<open>An assertion: \<open>None\<close> stands for the abort.\<close>

definition check :: "bool \<Rightarrow> unit option" where
  "check b = (if b then Some () else None)"

lemma check_simps [simp]: "check b = Some u \<longleftrightarrow> b" "check b = None \<longleftrightarrow> \<not> b"
  by (auto simp: check_def)

lemma bind_check [simp]: "Option.bind (check b) f = (if b then f () else None)"
  by (simp add: check_def)

text \<open>A loop over a container whose body may abort.\<close>

fun fold_opt :: "('s \<Rightarrow> 'a \<Rightarrow> 's option) \<Rightarrow> 's \<Rightarrow> 'a list \<Rightarrow> 's option" where
  "fold_opt f s [] = Some s"
| "fold_opt f s (x # xs) = Option.bind (f s x) (\<lambda>s'. fold_opt f s' xs)"

lemma fold_opt_append: "fold_opt f s (xs @ ys) = Option.bind (fold_opt f s xs) (\<lambda>s'. fold_opt f s' ys)"
  by (induction xs arbitrary: s) (auto simp: Option.bind_eq_Some_conv split: Option.bind_splits)

lemma fold_opt_invariant:
  assumes "fold_opt f s xs = Some s'" "P s"
    and "\<And>s x s'. x \<in> set xs \<Longrightarrow> P s \<Longrightarrow> f s x = Some s' \<Longrightarrow> P s'"
  shows "P s'"
  using assms by (induction xs arbitrary: s) (auto simp: Option.bind_eq_Some_conv)

lemma fold_opt_total:
  assumes "P s" and "\<And>s x. x \<in> set xs \<Longrightarrow> P s \<Longrightarrow> \<exists>s'. f s x = Some s' \<and> P s'"
  shows "\<exists>s'. fold_opt f s xs = Some s' \<and> P s'"
  using assms
proof (induction xs arbitrary: s)
  case (Cons x xs)
  then obtain s' where "f s x = Some s'" "P s'" by fastforce
  with Cons show ?case by simp
qed simp

end
