(* ===== verification/IntervalSet.thy ===== *)
theory IntervalSet
  imports Prelude
begin

text \<open>
  \<^verbatim>\<open>include/interval_set.h\<close>: a set of integers kept as a map from interval start to
  interval length, and the number of its elements. The template parameter \<^verbatim>\<open>T\<close> is
  \<^verbatim>\<open>uint64_t\<close>, as for offsets, inode numbers and snapshot ids: its arithmetic wraps at \<open>2 ^ 64\<close>.
  The counter \<^verbatim>\<open>_size\<close> is an \<^verbatim>\<open>int64_t\<close>.

  The lemmas are about sets within \<open>{0 ..< 2 ^ 63 - 1}\<close>, where neither the end of an interval nor the
  counter leaves its type. What the code does beyond that is shown at the end of the theory.
\<close>

section \<open>Definitions\<close>

type_synonym ivmap = "(int, int) omap"

record interval_set =
  iv_size :: int
  iv_m :: ivmap

definition iv_new :: interval_set where
  "iv_new = \<lparr>iv_size = 0, iv_m = []\<rparr>"

text \<open>The constructor from a map, and what decoding does with the map it read.\<close>

definition iv_of_map :: "ivmap \<Rightarrow> interval_set" where
  "iv_of_map other = \<lparr>iv_size = foldl (\<lambda>s i. wrap_s64 (s + snd i)) 0 other, iv_m = other\<rparr>"

definition num_intervals :: "interval_set \<Rightarrow> nat" where
  "num_intervals s = length (iv_m s)"

text \<open>\<^verbatim>\<open>p->first + p->second\<close>\<close>

definition iv_end :: "int \<times> int \<Rightarrow> int" where
  "iv_end e = wrap_u64 (fst e + snd e)"

definition find_inc :: "ivmap \<Rightarrow> int \<Rightarrow> nat" where
  "find_inc m start =
     (let p = omap_lower_bound m start in
      if p \<noteq> 0 \<and> (p = length m \<or> fst (m ! p) > start)
      then (let p' = p - 1 in
            if iv_end (m ! p') \<le> start then p' + 1 else p')
      else p)"

definition find_adj :: "ivmap \<Rightarrow> int \<Rightarrow> nat" where
  "find_adj m start =
     (let p = omap_lower_bound m start in
      if p \<noteq> 0 \<and> (p = length m \<or> fst (m ! p) > start)
      then (let p' = p - 1 in
            if iv_end (m ! p') < start then p' + 1 else p')
      else p)"

definition iv_equal :: "interval_set \<Rightarrow> interval_set \<Rightarrow> bool" where
  "iv_equal a b \<longleftrightarrow> iv_size a = iv_size b \<and> iv_m a = iv_m b"

definition iv_clear :: "interval_set \<Rightarrow> interval_set" where
  "iv_clear s = s\<lparr>iv_m := [], iv_size := 0\<rparr>"

text \<open>
  \<^verbatim>\<open>contains(i, &pstart, &plen)\<close>: the interval found, or \<open>None\<close> for
  \<^verbatim>\<open>false\<close>.
\<close>

definition iv_contains_at :: "interval_set \<Rightarrow> int \<Rightarrow> (int \<times> int) option" where
  "iv_contains_at s i =
     (let m = iv_m s; p = find_inc m i in
      if p = length m then None
      else if fst (m ! p) > i then None
      else if iv_end (m ! p) \<le> i then None
      else Some (m ! p))"

definition iv_contains :: "interval_set \<Rightarrow> int \<Rightarrow> bool" where
  "iv_contains s i = (iv_contains_at s i \<noteq> None)"

definition iv_contains_range :: "interval_set \<Rightarrow> int \<Rightarrow> int \<Rightarrow> bool" where
  "iv_contains_range s start len =
     (let m = iv_m s; p = find_inc m start in
      if p = length m then False
      else if fst (m ! p) > start then False
      else if iv_end (m ! p) \<le> start then False
      else if iv_end (m ! p) < wrap_u64 (start + len) then False
      else True)"

definition iv_empty :: "interval_set \<Rightarrow> bool" where
  "iv_empty s = (iv_m s = [])"

definition range_start :: "interval_set \<Rightarrow> int option" where
  "range_start s = (if iv_empty s then None else Some (fst (iv_m s ! 0)))"

definition range_end :: "interval_set \<Rightarrow> int option" where
  "range_end s =
     (if iv_empty s then None
      else (let p = length (iv_m s) - 1 in Some (iv_end (iv_m s ! p))))"

definition starts_after :: "interval_set \<Rightarrow> int \<Rightarrow> bool option" where
  "starts_after s i =
     (if iv_contains s i then None else Some (find_inc (iv_m s) i \<noteq> length (iv_m s)))"

text \<open>
  \<^verbatim>\<open>start_after\<close> reads through the iterator without a check, so it is defined only where
  \<^verbatim>\<open>starts_after\<close> holds.
\<close>

definition start_after :: "interval_set \<Rightarrow> int \<Rightarrow> int option" where
  "start_after s i =
     (if iv_contains s i then None
      else (let p = find_inc (iv_m s) i in
            if p = length (iv_m s) then None else Some (fst (iv_m s ! p))))"

definition end_after :: "interval_set \<Rightarrow> int \<Rightarrow> int option" where
  "end_after s start =
     (if iv_contains s start
      then (let p = find_inc (iv_m s) start in Some (iv_end (iv_m s ! p)))
      else None)"

text \<open>
  \<^verbatim>\<open>insert(start, len, &pstart, &plen)\<close>: the new set and the interval that now holds the
  inserted one.
\<close>

definition iv_insert_at ::
  "interval_set \<Rightarrow> int \<Rightarrow> int \<Rightarrow> (interval_set \<times> int \<times> int) option" where
  "iv_insert_at s start len =
     (if \<not> len > 0 then None
      else
        (let s = s\<lparr>iv_size := wrap_s64 (iv_size s + len)\<rparr>; m = iv_m s; p = find_adj m start in
         if p = length m
         then Some (s\<lparr>iv_m := omap_put start len m\<rparr>, start, len)
         else
           (let (pf, ps) = m ! p in
            if pf < start
            then
              (if iv_end (pf, ps) \<noteq> start then None
               else
                 (let l = wrap_u64 (ps + len); n = p + 1 in
                  if n \<noteq> length m \<and> wrap_u64 (start + len) = fst (m ! n)
                  then (let l = wrap_u64 (l + snd (m ! n)) in
                        Some (s\<lparr>iv_m := omap_erase_at n (m[p := (pf, l)])\<rparr>, pf, l))
                  else Some (s\<lparr>iv_m := m[p := (pf, l)]\<rparr>, pf, l)))
            else
              (if wrap_u64 (start + len) = pf
               then (let l = wrap_u64 (len + ps) in
                     Some (s\<lparr>iv_m := omap_del pf (omap_put start l m)\<rparr>, start, l))
               else if \<not> pf > wrap_u64 (start + len) then None
               else Some (s\<lparr>iv_m := omap_put start len m\<rparr>, start, len)))))"

definition iv_insert :: "interval_set \<Rightarrow> int \<Rightarrow> int \<Rightarrow> interval_set option" where
  "iv_insert s start len = map_option fst (iv_insert_at s start len)"

definition iv_erase :: "interval_set \<Rightarrow> int \<Rightarrow> int \<Rightarrow> interval_set option" where
  "iv_erase s start len =
     (let m = iv_m s; p = find_inc m start; size = wrap_s64 (iv_size s - len) in
      if \<not> size \<ge> 0 then None
      else if p = length m then None
      else
        (let (pf, ps) = m ! p in
         if \<not> pf \<le> start then None
         else
           (let before = wrap_u64 (start - pf) in
            if \<not> ps \<ge> wrap_u64 (before + len) then None
            else
              (let after = wrap_u64 (ps - before - len);
                   m1 = (if before \<noteq> 0 then m[p := (pf, before)] else omap_erase_at p m);
                   m2 = (if after \<noteq> 0 then omap_put (wrap_u64 (start + len)) after m1 else m1)
               in Some (s\<lparr>iv_size := size, iv_m := m2\<rparr>)))))"

text \<open>\<^verbatim>\<open>erase(iterator)\<close>\<close>

definition iv_erase_at :: "interval_set \<Rightarrow> nat \<Rightarrow> interval_set option" where
  "iv_erase_at s i =
     (let size = wrap_s64 (iv_size s - snd (iv_m s ! i)) in
      if \<not> size \<ge> 0 then None
      else Some (s\<lparr>iv_size := size, iv_m := omap_erase_at i (iv_m s)\<rparr>))"

fun erase_all :: "interval_set \<Rightarrow> ivmap \<Rightarrow> interval_set option" where
  "erase_all s [] = Some s"
| "erase_all s ((f, l) # p) = Option.bind (iv_erase s f l) (\<lambda>s'. erase_all s' p)"

definition subtract :: "interval_set \<Rightarrow> interval_set \<Rightarrow> interval_set option" where
  "subtract s a = erase_all s (iv_m a)"

fun insert_all :: "interval_set \<Rightarrow> ivmap \<Rightarrow> interval_set option" where
  "insert_all s [] = Some s"
| "insert_all s ((f, l) # p) = Option.bind (iv_insert s f l) (\<lambda>s'. insert_all s' p)"

definition insert_set :: "interval_set \<Rightarrow> interval_set \<Rightarrow> interval_set option" where
  "insert_set s a = insert_all s (iv_m a)"

text \<open>The loop of \<^verbatim>\<open>intersection_of\<close>: the arguments are what the two iterators have left.\<close>

fun intersection_loop :: "interval_set \<Rightarrow> ivmap \<Rightarrow> ivmap \<Rightarrow> interval_set option" where
  "intersection_loop s ((af, al) # pa) ((bf, bl) # pb) =
     (if iv_end (af, al) \<le> bf then intersection_loop s pa ((bf, bl) # pb)
      else if iv_end (bf, bl) \<le> af then intersection_loop s ((af, al) # pa) pb
      else
        (let start = max af bf; en = min (iv_end (af, al)) (iv_end (bf, bl)) in
         if \<not> en > start then None
         else
           Option.bind (iv_insert s start (wrap_u64 (en - start))) (\<lambda>s'.
             if iv_end (af, al) > iv_end (bf, bl) then intersection_loop s' ((af, al) # pa) pb
             else intersection_loop s' pa ((bf, bl) # pb))))"
| "intersection_loop s _ _ = Some s"

definition intersection_of :: "interval_set \<Rightarrow> interval_set \<Rightarrow> interval_set option" where
  "intersection_of a b = intersection_loop (iv_clear iv_new) (iv_m a) (iv_m b)"

definition union_of :: "interval_set \<Rightarrow> interval_set \<Rightarrow> interval_set option" where
  "union_of a b =
     Option.bind (intersection_of a b) (\<lambda>ab.
       Option.bind (subtract a ab) (\<lambda>s. insert_set s b))"

definition union_insert :: "interval_set \<Rightarrow> int \<Rightarrow> int \<Rightarrow> interval_set option" where
  "union_insert s off len =
     Option.bind (iv_insert iv_new off len) (\<lambda>a. union_of s a)"

definition intersects :: "interval_set \<Rightarrow> int \<Rightarrow> int \<Rightarrow> bool option" where
  "intersects s start len =
     Option.bind (iv_insert iv_new start len) (\<lambda>a.
       Option.bind (intersection_of s a) (\<lambda>i. Some (\<not> iv_empty i)))"

fun subset_loop :: "ivmap \<Rightarrow> interval_set \<Rightarrow> bool" where
  "subset_loop [] big = True"
| "subset_loop ((f, l) # i) big =
     (if \<not> iv_contains_range big f l then False else subset_loop i big)"

definition subset_of :: "interval_set \<Rightarrow> interval_set \<Rightarrow> bool" where
  "subset_of s big = subset_loop (iv_m s) big"

text \<open>The loop at the end of \<^verbatim>\<open>span_of\<close>.\<close>

fun span_loop :: "interval_set \<Rightarrow> ivmap \<Rightarrow> int \<Rightarrow> interval_set option" where
  "span_loop s [] len = Some s"
| "span_loop s ((f, l) # p) len =
     (if len > 0
      then (if l < len
            then Option.bind (iv_insert s f l) (\<lambda>s'. span_loop s' p (wrap_u64 (len - l)))
            else iv_insert s f len)
      else Some s)"

definition span_of :: "interval_set \<Rightarrow> int \<Rightarrow> int \<Rightarrow> interval_set option" where
  "span_of other start len =
     (let s = iv_clear iv_new; m = iv_m other; p = find_inc m start in
      if p = length m then Some s
      else
        (let (pf, ps) = m ! p in
         if pf < start
         then
           (if iv_end (pf, ps) < start then Some s
            else if iv_end (pf, ps) < wrap_u64 (start + len)
            then (let howmuch = wrap_u64 (ps - (start - pf)) in
                  Option.bind (iv_insert s start howmuch)
                    (\<lambda>s'. span_loop s' (drop (p + 1) m) (wrap_u64 (len - howmuch))))
            else iv_insert s start len)
         else span_loop s (drop p m) len))"


section \<open>Invariant and abstraction\<close>

text \<open>
  The intervals are non-empty, ascending, and never touch (the code merges neighbours); the
  stored size is the sum of the lengths. The meaning is a set of integers. All of them lie in
  \<open>iv_space\<close>, so that the end of an interval and the size are below \<open>2 ^ 63\<close>.
\<close>

abbreviation iv_space :: "int set" where
  "iv_space \<equiv> {0 ..< 2 ^ 63 - 1}"

definition iv_fits :: "int \<times> int \<Rightarrow> bool" where
  "iv_fits e \<longleftrightarrow> 0 < snd e \<and> 0 \<le> fst e \<and> fst e + snd e < 2 ^ 63"

definition iv_before :: "int \<times> int \<Rightarrow> int \<times> int \<Rightarrow> bool" where
  "iv_before x y \<longleftrightarrow> fst x + snd x < fst y"

definition iv_wf_m :: "ivmap \<Rightarrow> bool" where
  "iv_wf_m m \<longleftrightarrow> sorted_wrt iv_before m \<and> (\<forall>e \<in> set m. iv_fits e)"

definition iv_wf :: "interval_set \<Rightarrow> bool" where
  "iv_wf s \<longleftrightarrow> iv_wf_m (iv_m s) \<and> iv_size s = sum_list (map snd (iv_m s))"

definition iv_set_m :: "ivmap \<Rightarrow> int set" where
  "iv_set_m m = (\<Union>e \<in> set m. {fst e ..< fst e + snd e})"

definition iv_set :: "interval_set \<Rightarrow> int set" where
  "iv_set s = iv_set_m (iv_m s)"

lemma iv_wf_m_Nil [simp]: "iv_wf_m []"
  by (simp add: iv_wf_m_def)

lemma iv_wf_m_Cons:
  "iv_wf_m (e # m) \<longleftrightarrow> 0 < snd e \<and> 0 \<le> fst e \<and> fst e + snd e < 2 ^ 63 \<and>
     (\<forall>x \<in> set m. iv_before e x) \<and> iv_wf_m m"
  by (auto simp: iv_wf_m_def iv_fits_def)

lemma iv_wf_m_fits:
  assumes "iv_wf_m m" "e \<in> set m"
  shows "0 < snd e" "0 \<le> fst e" "fst e + snd e < 2 ^ 63" "iv_end e = fst e + snd e"
  using assms by (auto simp: iv_wf_m_def iv_fits_def iv_end_def wrap_u64_id)

lemma iv_wf_m_append:
  "iv_wf_m (xs @ ys) \<longleftrightarrow>
     iv_wf_m xs \<and> iv_wf_m ys \<and> (\<forall>x \<in> set xs. \<forall>y \<in> set ys. iv_before x y)"
  by (auto simp: iv_wf_m_def sorted_wrt_append)

lemma iv_set_m_Nil [simp]: "iv_set_m [] = {}"
  by (simp add: iv_set_m_def)

lemma iv_set_m_Cons [simp]: "iv_set_m (e # m) = {fst e ..< fst e + snd e} \<union> iv_set_m m"
  by (simp add: iv_set_m_def)

lemma iv_set_m_append [simp]: "iv_set_m (xs @ ys) = iv_set_m xs \<union> iv_set_m ys"
  by (simp add: iv_set_m_def)

lemma mem_iv_set_m: "i \<in> iv_set_m m \<longleftrightarrow> (\<exists>e \<in> set m. fst e \<le> i \<and> i < fst e + snd e)"
  by (auto simp: iv_set_m_def)

lemma iv_wf_new [simp]: "iv_wf iv_new" and iv_set_new [simp]: "iv_set iv_new = {}"
  by (simp_all add: iv_wf_def iv_set_def iv_new_def)

lemma iv_clear_new [simp]: "iv_clear s = iv_new"
  by (simp add: iv_clear_def iv_new_def)

lemma iv_wf_omap_wf: "iv_wf_m m \<Longrightarrow> omap_wf m"
proof (induction m)
  case (Cons e m)
  then show ?case by (cases e) (force simp: iv_wf_m_Cons iv_before_def)
qed simp

section \<open>The two searches\<close>

text \<open>
  Both searches cut the list of intervals in two: those that end before the position (or touch
  it), and the rest.
\<close>

lemma find_cut:
  assumes wf: "iv_wf_m m"
    and high: "\<And>e. e \<in> set m \<Longrightarrow> st \<le> fst e \<Longrightarrow> \<not> c e"
    and low: "\<And>e. e \<in> set m \<Longrightarrow> fst e + snd e < st \<Longrightarrow> c e"
    and f: "f = (let p = omap_lower_bound m st in
              if p \<noteq> 0 \<and> (p = length m \<or> fst (m ! p) > st)
              then (let p' = p - 1 in if c (m ! p') then p' + 1 else p') else p)"
  obtains xs ys where "m = xs @ ys" "f = length xs" "\<forall>e \<in> set xs. c e" "\<forall>e \<in> set ys. \<not> c e"
proof -
  define tw where "tw = takeWhile (\<lambda>e. fst e < st) m"
  define dw where "dw = dropWhile (\<lambda>e. fst e < st) m"
  have m: "m = tw @ dw" by (simp add: tw_def dw_def)
  have om: "omap_wf m" using wf by (rule iv_wf_omap_wf)
  have lb: "omap_lower_bound m st = length tw" by (simp add: omap_lower_bound_def tw_def)
  have dw: "st \<le> fst e" if "e \<in> set dw" for e
  proof (cases dw)
    case (Cons d ds)
    then have "\<not> fst d < st" by (metis dw_def dropWhile_eq_Cons_conv)
    moreover have "fst d \<le> fst e"
      using that om m Cons by (cases d) (auto simp: omap_wf_append intro: less_imp_le)
    ultimately show ?thesis by simp
  qed (use that in simp)
  have dw_c: "\<forall>e \<in> set dw. \<not> c e" using dw high m by auto
  show thesis
  proof (cases tw rule: rev_cases)
    case Nil
    then have "f = 0" using f lb by simp
    then show thesis using that [of "[]" m] m Nil dw_c by simp
  next
    case (snoc us e)
    have ends: "fst x + snd x < fst e" "0 < snd e" if "x \<in> set us" for x
      using that wf m snoc by (auto simp: iv_wf_m_append iv_wf_m_Cons iv_before_def)
    have e_lt: "fst e < st"
      using snoc by (metis in_set_conv_decomp set_takeWhileD tw_def)
    have us: "\<forall>x \<in> set us. c x" using ends e_lt low m snoc by fastforce
    show thesis
    proof (cases "length tw = length m \<or> fst (m ! length tw) > st")
      case True
      then have fe: "f = (if c e then length tw else length us)"
        using f lb snoc m by (simp add: nth_append)
      show thesis
      proof (cases "c e")
        case True
        then show thesis using that [of tw dw] m fe us snoc dw_c by simp
      next
        case False
        then show thesis using that [of us "e # dw"] m fe us snoc dw_c by simp
      qed
    next
      case False
      then obtain d ds where d: "dw = d # ds" using m by (cases dw) auto
      with False have "fst d \<le> st" using m by (simp add: nth_append)
      then have "fst e + snd e < st"
        using wf m snoc d dw by (force simp: iv_wf_m_append iv_wf_m_Cons iv_before_def)
      then have "c e" using low m snoc by simp
      moreover have "f = length tw" using f lb False by auto
      ultimately show thesis using that [of tw dw] m us snoc dw_c by simp
    qed
  qed
qed

lemma find_inc_cut:
  assumes wf: "iv_wf_m m"
  obtains (found) xs ys where "m = xs @ ys" "find_inc m st = length xs"
    "\<forall>e \<in> set xs. fst e + snd e \<le> st" "\<forall>e \<in> set ys. st < fst e + snd e"
proof (rule find_cut [OF wf, where st = st and c = "\<lambda>e. iv_end e \<le> st"])
  fix e assume e: "e \<in> set m"
  note f = iv_wf_m_fits [OF wf e]
  show "\<not> iv_end e \<le> st" if "st \<le> fst e" using that f by simp
  show "iv_end e \<le> st" if "fst e + snd e < st" using that f by simp
next
  show "find_inc m st =
      (let p = omap_lower_bound m st in
       if p \<noteq> 0 \<and> (p = length m \<or> st < fst (m ! p))
       then let p' = p - 1 in if iv_end (m ! p') \<le> st then p' + 1 else p' else p)"
    by (simp only: find_inc_def)
  show thesis if "m = xs @ ys" "find_inc m st = length xs" "\<forall>e \<in> set xs. iv_end e \<le> st"
    "\<forall>e \<in> set ys. \<not> iv_end e \<le> st" for xs ys
    using found [OF that(1,2)] that iv_wf_m_fits(4) [OF wf] by (simp add: not_le)
qed

lemma find_adj_cut:
  assumes wf: "iv_wf_m m"
  obtains (found) xs ys where "m = xs @ ys" "find_adj m st = length xs"
    "\<forall>e \<in> set xs. fst e + snd e < st" "\<forall>e \<in> set ys. st \<le> fst e + snd e"
proof (rule find_cut [OF wf, where st = st and c = "\<lambda>e. iv_end e < st"])
  fix e assume e: "e \<in> set m"
  note f = iv_wf_m_fits [OF wf e]
  show "\<not> iv_end e < st" if "st \<le> fst e" using that f by simp
  show "iv_end e < st" if "fst e + snd e < st" using that f by simp
next
  show "find_adj m st =
      (let p = omap_lower_bound m st in
       if p \<noteq> 0 \<and> (p = length m \<or> st < fst (m ! p))
       then let p' = p - 1 in if iv_end (m ! p') < st then p' + 1 else p' else p)"
    by (simp only: find_adj_def)
  show thesis if "m = xs @ ys" "find_adj m st = length xs" "\<forall>e \<in> set xs. iv_end e < st"
    "\<forall>e \<in> set ys. \<not> iv_end e < st" for xs ys
    using found [OF that(1,2)] that iv_wf_m_fits(4) [OF wf] by (simp add: not_less)
qed


section \<open>Queries\<close>

lemma iv_contains_at_iff:
  assumes wf: "iv_wf s"
  shows "iv_contains_at s i = Some e \<longleftrightarrow> e \<in> set (iv_m s) \<and> fst e \<le> i \<and> i < fst e + snd e"
proof -
  obtain xs ys where c: "iv_m s = xs @ ys" "find_inc (iv_m s) i = length xs"
    "\<forall>e \<in> set xs. fst e + snd e \<le> i" "\<forall>e \<in> set ys. i < fst e + snd e"
    using find_inc_cut wf unfolding iv_wf_def by metis
  show ?thesis
  proof (cases ys)
    case Nil
    with c show ?thesis by (auto simp: iv_contains_at_def)
  next
    case (Cons y ys')
    have "iv_wf_m (xs @ y # ys')" using wf c Cons by (simp add: iv_wf_def)
    then have "\<forall>e \<in> set ys'. fst y + snd y < fst e" and "0 < snd y"
      by (auto simp: iv_wf_m_append iv_wf_m_Cons iv_before_def)
    then have no: "\<not> fst e \<le> i" if "e \<in> set ys'" "i < fst y + snd y" for e
      using that by fastforce
    have y: "i < fst y + snd y" using c Cons by simp
    have "iv_end y = fst y + snd y" using wf c(1) Cons iv_wf_m_fits(4) [of "iv_m s" y] by (simp add: iv_wf_def)
    then have "iv_contains_at s i = (if i < fst y then None else Some y)"
      using c Cons y by (simp add: iv_contains_at_def)
    moreover have "e \<in> set (iv_m s) \<and> fst e \<le> i \<and> i < fst e + snd e \<longleftrightarrow> e = y \<and> fst y \<le> i"
      using c Cons y no [of e] by fastforce
    ultimately show ?thesis by auto
  qed
qed

lemma iv_contains_iff: "iv_wf s \<Longrightarrow> iv_contains s i \<longleftrightarrow> i \<in> iv_set s"
  using iv_contains_at_iff [of s i]
  by (fastforce simp: iv_contains_def iv_set_def mem_iv_set_m)

lemma iv_wf_m_unique:
  assumes "iv_wf_m m" "e \<in> set m" "d \<in> set m"
    and "fst e \<le> i" "i \<le> fst e + snd e" "fst d \<le> i" "i < fst d + snd d"
  shows "e = d"
  using assms
proof (induction m)
  case (Cons x m)
  then show ?case by (fastforce simp: iv_wf_m_Cons iv_before_def)
qed simp

lemma iv_interval_subset:
  assumes wf: "iv_wf_m m" and e: "e \<in> set m" "fst e \<le> st" "st < fst e + snd e"
  shows "{st ..< st + len} \<subseteq> iv_set_m m \<longleftrightarrow> st + len \<le> fst e + snd e"
proof
  show "st + len \<le> fst e + snd e" if sub: "{st ..< st + len} \<subseteq> iv_set_m m"
  proof (rule ccontr)
    assume "\<not> st + len \<le> fst e + snd e"
    then have "fst e + snd e \<in> iv_set_m m" using sub e by auto
    then obtain d where d: "d \<in> set m" "fst d \<le> fst e + snd e" "fst e + snd e < fst d + snd d"
      by (auto simp: mem_iv_set_m)
    have "0 < snd e" using wf e by (simp add: iv_wf_m_fits)
    then have "e = d"
      using iv_wf_m_unique [OF wf e(1) d(1), of "fst e + snd e"] d by auto
    with d show False by simp
  qed
  show "{st ..< st + len} \<subseteq> iv_set_m m" if "st + len \<le> fst e + snd e"
    using that e by (force simp: mem_iv_set_m)
qed

lemma iv_contains_range_eq:
  "iv_contains_range s st len \<longleftrightarrow>
     (case iv_contains_at s st of None \<Rightarrow> False | Some e \<Rightarrow> wrap_u64 (st + len) \<le> iv_end e)"
  by (auto simp: iv_contains_range_def iv_contains_at_def Let_def)

lemma iv_contains_range_iff:
  assumes wf: "iv_wf s" and len: "0 < len" "len \<le> 2 ^ 63"
  shows "iv_contains_range s st len \<longleftrightarrow> {st ..< st + len} \<subseteq> iv_set s"
proof (cases "iv_contains_at s st")
  case None
  then have "st \<notin> iv_set s" using iv_contains_iff [OF wf, of st] by (simp add: iv_contains_def)
  moreover have "st \<in> {st ..< st + len}" using len by simp
  ultimately have "\<not> {st ..< st + len} \<subseteq> iv_set s" by blast
  then show ?thesis using None by (simp add: iv_contains_range_eq)
next
  case (Some e)
  then have e: "e \<in> set (iv_m s)" "fst e \<le> st" "st < fst e + snd e"
    using iv_contains_at_iff [OF wf] by auto
  note f = iv_wf_m_fits [OF wf [unfolded iv_wf_def, THEN conjunct1] e(1)]
  have "wrap_u64 (st + len) = st + len" using e f len by (intro wrap_u64_id) auto
  then show ?thesis
    using Some iv_interval_subset [of "iv_m s" e st len] wf e f(4)
    by (simp add: iv_contains_range_eq iv_set_def iv_wf_def)
qed

lemma subset_loop_iff:
  assumes "iv_wf big" and "\<forall>e \<in> set m. 0 < snd e \<and> snd e \<le> 2 ^ 63"
  shows "subset_loop m big \<longleftrightarrow> iv_set_m m \<subseteq> iv_set big"
  using assms(2)
proof (induction m)
  case (Cons e m)
  then show ?case using iv_contains_range_iff [OF assms(1)] by (cases e) auto
qed simp

lemma subset_of_iff: "iv_wf s \<Longrightarrow> iv_wf big \<Longrightarrow> subset_of s big \<longleftrightarrow> iv_set s \<subseteq> iv_set big"
  using subset_loop_iff [of big "iv_m s"] iv_wf_m_fits [of "iv_m s"]
  by (fastforce simp: subset_of_def iv_set_def iv_wf_def)

lemma iv_set_m_ge:
  assumes "iv_wf_m (e # m)" "i \<in> iv_set_m (e # m)"
  shows "fst e \<le> i"
  using assms by (fastforce simp: iv_wf_m_Cons iv_before_def mem_iv_set_m)

lemma range_start_least:
  assumes "iv_wf s" "range_start s = Some a"
  shows "a \<in> iv_set s \<and> (\<forall>i \<in> iv_set s. a \<le> i)"
proof (cases "iv_m s")
  case Nil
  with assms show ?thesis by (simp add: range_start_def iv_empty_def)
next
  case (Cons e m)
  with assms have "a = fst e" "iv_wf_m (e # m)" by (auto simp: range_start_def iv_empty_def iv_wf_def)
  with Cons show ?thesis using iv_set_m_ge [of e m] by (auto simp: iv_set_def iv_wf_m_Cons)
qed

text \<open>Equal sets have equal representations, so the map comparison decides set equality.\<close>

lemma iv_wf_m_canonical: "iv_wf_m a \<Longrightarrow> iv_wf_m b \<Longrightarrow> iv_set_m a = iv_set_m b \<Longrightarrow> a = b"
proof (induction a arbitrary: b)
  case Nil
  then show ?case by (cases b) (auto simp: iv_wf_m_Cons)
next
  case (Cons e a)
  then obtain d b' where b: "b = d # b'" by (cases b) (auto simp: iv_wf_m_Cons)
  have hd: "fst e \<in> iv_set_m (e # a)" "fst d \<in> iv_set_m (d # b')"
    using Cons.prems b by (auto simp: iv_wf_m_Cons)
  with Cons.prems b have f: "fst e = fst d"
    using iv_set_m_ge [of e a "fst d"] iv_set_m_ge [of d b' "fst e"] by fastforce
  have "{fst e ..< fst e + snd d} \<subseteq> iv_set_m (e # a)" "{fst d ..< fst d + snd e} \<subseteq> iv_set_m (d # b')"
    using Cons.prems(3) b f by auto
  then have l: "snd e = snd d"
    using iv_interval_subset [of "e # a" e "fst e" "snd d"] Cons.prems b f
      iv_interval_subset [of "d # b'" d "fst d" "snd e"]
    by (fastforce simp: iv_wf_m_Cons)
  have "iv_set_m a = iv_set_m (e # a) - {fst e ..< fst e + snd e}"
    using Cons.prems(1) by (fastforce simp: iv_wf_m_Cons iv_before_def mem_iv_set_m)
  moreover have "iv_set_m b' = iv_set_m (d # b') - {fst d ..< fst d + snd d}"
    using Cons.prems(2) b by (fastforce simp: iv_wf_m_Cons iv_before_def mem_iv_set_m)
  ultimately have "iv_set_m a = iv_set_m b'" using Cons.prems(3) b f l by simp
  with Cons.IH [of b'] Cons.prems b f l show ?case by (simp add: iv_wf_m_Cons prod_eq_iff)
qed

lemma iv_equal_iff: "iv_wf a \<Longrightarrow> iv_wf b \<Longrightarrow> iv_equal a b \<longleftrightarrow> iv_set a = iv_set b"
  using iv_wf_m_canonical [of "iv_m a" "iv_m b"] by (auto simp: iv_equal_def iv_set_def iv_wf_def)


section \<open>Insertion and removal of one interval\<close>

lemma iv_wf_m_pos: "iv_wf_m m \<Longrightarrow> e \<in> set m \<Longrightarrow> 0 < snd e"
  by (rule iv_wf_m_fits)

text \<open>What an insertion does to the intervals from the found position on.\<close>

fun iv_join :: "int \<Rightarrow> int \<Rightarrow> ivmap \<Rightarrow> ivmap option" where
  "iv_join st len [] = Some [(st, len)]"
| "iv_join st len ((pf, ps) # zs) =
     (if pf < st
      then (if pf + ps \<noteq> st then None
            else if zs \<noteq> [] \<and> st + len = fst (hd zs)
            then Some ((pf, ps + len + snd (hd zs)) # tl zs)
            else Some ((pf, ps + len) # zs))
      else if st + len = pf then Some ((st, len + ps) # zs)
      else if pf > st + len then Some ((st, len) # (pf, ps) # zs)
      else None)"

lemma iv_insert_eq_join:
  assumes wf: "iv_wf_m (xs @ ys)" and m: "iv_m s = xs @ ys" and len: "0 < len"
    and room: "0 \<le> st" "st + len < 2 ^ 63"
    and adj: "find_adj (xs @ ys) st = length xs" and xs: "\<forall>e \<in> set xs. fst e < st"
  shows "iv_insert s st len =
    map_option (\<lambda>ys'. \<lparr>iv_size = wrap_s64 (iv_size s + len), iv_m = xs @ ys'\<rparr>) (iv_join st len ys)"
proof (cases ys)
  case Nil
  then show ?thesis
    using m len adj omap_put_between [OF xs, of "[]"] by (simp add: iv_insert_def iv_insert_at_def)
next
  case (Cons y zs)
  obtain pf ps where y: "y = (pf, ps)" by (cases y)
  have zs: "\<forall>e \<in> set zs. pf < fst e" and xsy: "\<forall>e \<in> set xs. fst e < pf"
    using iv_wf_omap_wf [OF wf] Cons y by (auto simp: omap_wf_append)
  have put: "omap_put st l (xs @ y # zs) = xs @ (st, l) # y # zs" if "st < pf" for l
    using omap_put_between [OF xs, of "y # zs" l] that y zs by fastforce
  have del: "omap_del pf (xs @ (st, l) # y # zs) = xs @ (st, l) # zs" if "st < pf" for l
  proof -
    have "filter (\<lambda>e. fst e \<noteq> pf) xs = xs" "filter (\<lambda>e. fst e \<noteq> pf) zs = zs"
      using xsy zs by (force simp: filter_id_conv)+
    then show ?thesis using that y by (simp add: omap_del_def)
  qed
  note fy = iv_wf_m_fits [OF wf, of y]
  have w: "wrap_u64 (st + len) = st + len" "iv_end (pf, ps) = pf + ps"
    using room len fy Cons y by (auto intro: wrap_u64_id)
  have j1: "wrap_u64 (ps + len) = ps + len" if "pf + ps = st"
    using that room len fy Cons y by (intro wrap_u64_id) auto
  have j2: "wrap_u64 (ps + len + snd z) = ps + len + snd z" if "pf + ps = st" "z \<in> set zs" "st + len = fst z" for z
    using that room len fy Cons y iv_wf_m_fits [OF wf, of z] by (intro wrap_u64_id) auto
  have j3: "wrap_u64 (len + ps) = len + ps" if "st + len = pf"
    using that room len fy Cons y by (intro wrap_u64_id) auto
  show ?thesis
    using m len adj Cons y put del w j1 j2 j3
    by (cases zs) (auto simp: iv_insert_def iv_insert_at_def nth_append omap_erase_at_def Let_def)
qed

lemma iv_join_ok:
  assumes wf: "iv_wf_m ys" and len: "0 < len" and ys: "\<forall>e \<in> set ys. st \<le> fst e + snd e"
    and room: "0 \<le> st" "st + len < 2 ^ 63" and disj: "{st ..< st + len} \<inter> iv_set_m ys = {}"
  obtains ys' where "iv_join st len ys = Some ys'" "iv_wf_m ys'"
    "iv_set_m ys' = iv_set_m ys \<union> {st ..< st + len}"
    "sum_list (map snd ys') = sum_list (map snd ys) + len"
    "fst ` set ys' \<subseteq> insert st (fst ` set ys)"
proof (cases ys)
  case Nil
  then show thesis using that len room by (simp add: iv_wf_m_Cons)
next
  case (Cons y zs)
  obtain pf ps where y: "y = (pf, ps)" by (cases y)
  have out: "\<not> (st < fst e + snd e \<and> fst e < st + len)" if "e \<in> set ys" for e
  proof
    assume "st < fst e + snd e \<and> fst e < st + len"
    then have "max st (fst e) \<in> {st ..< st + len} \<inter> iv_set_m ys"
      using len that iv_wf_m_pos [OF wf that] by (force simp: mem_iv_set_m max_def)
    with disj show False by simp
  qed
  have y_end: "pf < st \<Longrightarrow> pf + ps = st" using out [of y] ys Cons y len by auto
  have front_le: "pf \<ge> st \<Longrightarrow> st + len \<le> pf" using out [of y] y Cons iv_wf_m_pos [OF wf, of y] by auto
  have next_after: "st + len < fst n" if "zs = n # ws" "pf < st" "st + len \<noteq> fst n" for n ws
    using out [of n] that Cons wf y y_end by (auto simp: iv_wf_m_Cons iv_before_def)
  note w = wf [unfolded Cons y iv_wf_m_Cons iv_before_def, simplified]
  consider (join2) n ws where "pf < st" "zs = n # ws" "st + len = fst n"
    | (join1) "pf < st" "zs = [] \<or> st + len \<noteq> fst (hd zs)"
    | (front) "st \<le> pf" "st + len = pf" | (alone) "st \<le> pf" "st + len < pf"
    using front_le by (metis list.exhaust list.sel(1) not_less le_less)
  then show thesis
  proof cases
    case join2
    then show thesis
      using Cons y w len room y_end
      by (intro that [of "(pf, ps + len + snd n) # ws"]) (auto simp: iv_wf_m_Cons iv_before_def)
  next
    case join1
    have "\<forall>d \<in> set zs. st + len < fst d"
      using join1 next_after w by (cases zs) (fastforce simp: iv_wf_m_Cons iv_before_def)+
    with join1 show thesis
      using Cons y w len room y_end
      by (intro that [of "(pf, ps + len) # zs"]) (auto simp: iv_wf_m_Cons iv_before_def add.assoc [symmetric])
  next
    case front
    then show thesis
      using Cons y w len room
      by (intro that [of "(st, len + ps) # zs"]) (auto simp: iv_wf_m_Cons iv_before_def)
  next
    case alone
    then show thesis
      using Cons y w len room
      by (intro that [of "(st, len) # (pf, ps) # zs"]) (auto simp: iv_wf_m_Cons iv_before_def)
  qed
qed

text \<open>The lengths add up to no more than the last end, so the counter does not wrap either.\<close>

lemma iv_wf_m_sum:
  assumes "iv_wf_m m" "\<forall>e \<in> set m. a \<le> fst e" "0 \<le> a" "a < 2 ^ 63"
  shows "0 \<le> sum_list (map snd m) \<and> a + sum_list (map snd m) < 2 ^ 63"
  using assms
proof (induction m arbitrary: a)
  case (Cons e m)
  have "0 \<le> sum_list (map snd m) \<and> (fst e + snd e) + sum_list (map snd m) < 2 ^ 63"
    using Cons.prems by (intro Cons.IH) (auto simp: iv_wf_m_Cons iv_before_def)
  then show ?case using Cons.prems by (auto simp: iv_wf_m_Cons)
qed simp

lemma iv_wf_m_size: "iv_wf_m m \<Longrightarrow> wrap_s64 (sum_list (map snd m)) = sum_list (map snd m)"
  using iv_wf_m_sum [of m 0] iv_wf_m_fits(2) [of m] by (intro wrap_s64_id) force+

lemma iv_insert_ok:
  assumes wf: "iv_wf s" and len: "0 < len" and room: "0 \<le> st" "st + len < 2 ^ 63" and disj: "{st ..< st + len} \<inter> iv_set s = {}"
  obtains s' where "iv_insert s st len = Some s'" "iv_wf s'" "iv_set s' = iv_set s \<union> {st ..< st + len}"
proof -
  obtain xs ys where c: "iv_m s = xs @ ys" "find_adj (iv_m s) st = length xs"
    "\<forall>e \<in> set xs. fst e + snd e < st" "\<forall>e \<in> set ys. st \<le> fst e + snd e"
    using find_adj_cut wf unfolding iv_wf_def by metis
  have w: "iv_wf_m (xs @ ys)" and sz: "iv_size s = sum_list (map snd (xs @ ys))"
    using wf c by (auto simp: iv_wf_def)
  have xs: "\<forall>e \<in> set xs. fst e < st" using iv_wf_m_pos [OF w] c(3) by fastforce
  obtain ys' where j: "iv_join st len ys = Some ys'" "iv_wf_m ys'"
    "iv_set_m ys' = iv_set_m ys \<union> {st ..< st + len}"
    "sum_list (map snd ys') = sum_list (map snd ys) + len"
    "fst ` set ys' \<subseteq> insert st (fst ` set ys)"
  proof (rule iv_join_ok)
    show "{st ..< st + len} \<inter> iv_set_m ys = {}" using disj c(1) by (auto simp: iv_set_def)
  qed (use w len room c(4) in \<open>auto simp: iv_wf_m_append\<close>)
  have "\<forall>x \<in> set xs. \<forall>y \<in> set ys'. iv_before x y"
    using j(5) w c(3) by (fastforce simp: iv_wf_m_append iv_before_def)
  then have w': "iv_wf_m (xs @ ys')" using w j(2) by (simp add: iv_wf_m_append)
  have "iv_size s + len = sum_list (map snd (xs @ ys'))" using sz j(4) by simp
  with j w' c(1) iv_insert_eq_join [OF w c(1) len room _ xs] c(2) iv_wf_m_size [OF w'] show thesis
    by (intro that) (auto simp: iv_wf_def iv_set_def)
qed


text \<open>Removal, again from the found position on.\<close>

fun iv_cut :: "int \<Rightarrow> int \<Rightarrow> ivmap \<Rightarrow> ivmap option" where
  "iv_cut st len [] = None"
| "iv_cut st len ((pf, ps) # zs) =
     (if pf \<le> st \<and> st - pf + len \<le> ps
      then Some ((if pf < st then [(pf, st - pf)] else []) @
                 (if st + len < pf + ps then [(st + len, pf + ps - (st + len))] else []) @ zs)
      else None)"

lemma iv_erase_eq_cut:
  assumes wf: "iv_wf s" and m: "iv_m s = xs @ ys" and len: "0 < len" "len \<le> 2 ^ 63"
    and inc: "find_inc (xs @ ys) st = length xs" and xs: "\<forall>e \<in> set xs. fst e + snd e \<le> st"
    and ys: "\<forall>e \<in> set ys. st < fst e + snd e"
  shows "iv_erase s st len =
    map_option (\<lambda>ys'. \<lparr>iv_size = iv_size s - len, iv_m = xs @ ys'\<rparr>) (iv_cut st len ys)"
proof (cases ys)
  case Nil
  then show ?thesis using m inc by (simp add: iv_erase_def Let_def)
next
  case (Cons y zs)
  obtain pf ps where y: "y = (pf, ps)" by (cases y)
  have w: "iv_wf_m (xs @ y # zs)" and sz: "iv_size s = sum_list (map snd (xs @ y # zs))"
    using wf m Cons by (auto simp: iv_wf_def)
  note fy = iv_wf_m_fits [OF w, of y]
  have "0 \<le> iv_size s \<and> iv_size s < 2 ^ 63"
    using iv_wf_m_sum [OF w, of 0] iv_wf_m_fits(2) [OF w] sz by simp
  then have ws: "wrap_s64 (iv_size s - len) = iv_size s - len" using len by (intro wrap_s64_id) auto
  have wb: "wrap_u64 (st - pf) = st - pf" "wrap_u64 (st - pf + len) = st - pf + len" "wrap_u64 (st + len) = st + len"
    if "pf \<le> st"
    using that len ys Cons fy y by (auto intro!: wrap_u64_id)
  have wa: "wrap_u64 (ps - (st - pf) - len) = ps - (st - pf) - len" if "pf \<le> st" "st - pf + len \<le> ps"
    using that len ys Cons fy y by (intro wrap_u64_id) auto
  show ?thesis
  proof (cases "pf \<le> st \<and> st - pf + len \<le> ps")
    case False
    then show ?thesis using m inc Cons y wb by (auto simp: iv_erase_def nth_append Let_def)
  next
    case True
    have "0 \<le> sum_list (map snd xs)" "0 \<le> sum_list (map snd zs)"
      using iv_wf_m_pos [OF w] by (fastforce intro!: sum_list_nonneg dest: less_imp_le)+
    then have size: "0 \<le> iv_size s - len" using sz True y by simp
    have zs: "\<forall>e \<in> set zs. st + len < fst e"
      using w y True by (fastforce simp: iv_wf_m_append iv_wf_m_Cons iv_before_def)
    have put: "omap_put (st + len) l (xs @ us @ zs) = xs @ us @ (st + len, l) # zs"
      if "us = [] \<or> us = [(pf, st - pf)]" for l us
    proof -
      have "\<forall>e \<in> set (xs @ us). fst e < st + len"
        using that True len xs iv_wf_m_pos [OF w] by fastforce
      with omap_put_between [OF this zs] show ?thesis by simp
    qed
    show ?thesis
      using m inc Cons y True size ws wa wb put [of "[]"] put [of "[(pf, st - pf)]"]
      by (auto simp: iv_erase_def nth_append Let_def)
  qed
qed

lemma iv_cut_ok:
  assumes wf: "iv_wf_m ys" and len: "0 < len" and ys: "\<forall>e \<in> set ys. st < fst e + snd e"
    and sub: "{st ..< st + len} \<subseteq> iv_set_m ys"
  obtains ys' where "iv_cut st len ys = Some ys'" "iv_wf_m ys'"
    "iv_set_m ys' = iv_set_m ys - {st ..< st + len}"
    "sum_list (map snd ys') = sum_list (map snd ys) - len"
    "\<forall>e' \<in> set ys'. \<exists>e \<in> set ys. fst e \<le> fst e'"
proof (cases ys)
  case Nil
  then show thesis using sub len by auto
next
  case (Cons y zs)
  obtain pf ps where y: "y = (pf, ps)" by (cases y)
  note w = wf [unfolded Cons y iv_wf_m_Cons iv_before_def, simplified]
  have "st \<in> iv_set_m ys" using sub len by auto
  then have pf: "pf \<le> st" using iv_set_m_ge [of y zs st] wf Cons y by simp
  have e: "st + len \<le> pf + ps"
    using iv_interval_subset [OF wf, of y st len] sub ys pf Cons y by auto
  have zs: "iv_set_m zs \<inter> {pf ..< pf + ps} = {}"
    using w by (fastforce simp: mem_iv_set_m)
  let ?c = "(if pf < st then [(pf, st - pf)] else []) @
      (if st + len < pf + ps then [(st + len, pf + ps - (st + len))] else []) @ zs"
  show thesis
  proof (rule that [of ?c])
    show "iv_wf_m ?c" using w pf e len by (auto simp: iv_wf_m_Cons iv_before_def)
  qed (use pf e len zs Cons y in \<open>auto split: if_splits\<close>)
qed


lemma iv_erase_cases:
  assumes wf: "iv_wf s" and len: "0 < len" "len \<le> 2 ^ 63"
  obtains (ok) s' where "iv_erase s st len = Some s'" "iv_wf s'" "{st ..< st + len} \<subseteq> iv_set s"
      "iv_set s' = iv_set s - {st ..< st + len}"
    | (abort) "iv_erase s st len = None" "\<not> {st ..< st + len} \<subseteq> iv_set s"
proof -
  obtain xs ys where c: "iv_m s = xs @ ys" "find_inc (iv_m s) st = length xs"
    "\<forall>e \<in> set xs. fst e + snd e \<le> st" "\<forall>e \<in> set ys. st < fst e + snd e"
    using find_inc_cut wf unfolding iv_wf_def by metis
  have w: "iv_wf_m (xs @ ys)" and sz: "iv_size s = sum_list (map snd (xs @ ys))"
    using wf c by (auto simp: iv_wf_def)
  have eq: "iv_erase s st len =
      map_option (\<lambda>ys'. \<lparr>iv_size = iv_size s - len, iv_m = xs @ ys'\<rparr>) (iv_cut st len ys)"
    using iv_erase_eq_cut [OF wf c(1) len _ c(3,4)] c(1,2) by simp
  have xs: "{st ..< st + len} \<inter> iv_set_m xs = {}" using c(3) by (fastforce simp: mem_iv_set_m)
  show thesis
  proof (cases "{st ..< st + len} \<subseteq> iv_set s")
    case True
    then have "{st ..< st + len} \<subseteq> iv_set_m ys" using xs c(1) by (auto simp: iv_set_def)
    then obtain ys' where j: "iv_cut st len ys = Some ys'" "iv_wf_m ys'"
      "iv_set_m ys' = iv_set_m ys - {st ..< st + len}"
      "sum_list (map snd ys') = sum_list (map snd ys) - len"
      "\<forall>e' \<in> set ys'. \<exists>e \<in> set ys. fst e \<le> fst e'"
      using iv_cut_ok [of ys len st] w len(1) c(4) by (metis iv_wf_m_append)
    have "\<forall>x \<in> set xs. \<forall>y \<in> set ys'. iv_before x y"
      using j(5) w by (fastforce simp: iv_wf_m_append iv_before_def)
    with j sz w xs c(1) eq True show thesis
      by (intro ok) (auto simp: iv_wf_def iv_set_def iv_wf_m_append)
  next
    case False
    have "iv_cut st len ys = None"
    proof (rule ccontr)
      assume "iv_cut st len ys \<noteq> None"
      then obtain pf ps zs where "ys = (pf, ps) # zs" "pf \<le> st" "st - pf + len \<le> ps"
        by (cases "(st, len, ys)" rule: iv_cut.cases) (auto split: if_splits)
      then have "{st ..< st + len} \<subseteq> iv_set s" using c(1) by (auto simp: iv_set_def)
      with False show False by simp
    qed
    with eq False show thesis by (intro abort) auto
  qed
qed

section \<open>The interface of an extent set\<close>

text \<open>
  What the users of the container rely on, over the sets of integers it stands for: insertion of
  a new extent and removal of a present one succeed and have the effect of the set operation, as
  long as the set stays within the space that the implementation can represent.
\<close>

definition extent :: "int \<times> int \<Rightarrow> int set" where
  "extent e = {fst e ..< fst e + snd e}"

lemma extent_one: "extent (i, 1) = {i}"
  by (auto simp: extent_def)

locale extent_set =
  fixes ins :: "'s \<Rightarrow> int \<Rightarrow> int \<Rightarrow> 's option"
    and del :: "'s \<Rightarrow> int \<Rightarrow> int \<Rightarrow> 's option"
    and mem :: "'s \<Rightarrow> int \<Rightarrow> bool"
    and invar :: "'s \<Rightarrow> bool"
    and elems :: "'s \<Rightarrow> int set"
    and space :: "int set"
  assumes ins_ok: "invar s \<Longrightarrow> 0 < l \<Longrightarrow> extent (f, l) \<subseteq> space \<Longrightarrow> extent (f, l) \<inter> elems s = {} \<Longrightarrow>
      \<exists>s'. ins s f l = Some s' \<and> invar s' \<and> elems s' = elems s \<union> extent (f, l)"
    and del_ok: "invar s \<Longrightarrow> 0 < l \<Longrightarrow> extent (f, l) \<subseteq> elems s \<Longrightarrow>
      \<exists>s'. del s f l = Some s' \<and> invar s' \<and> elems s' = elems s - extent (f, l)"
    and mem_iff: "invar s \<Longrightarrow> mem s i \<longleftrightarrow> i \<in> elems s"
    and elems_space: "invar s \<Longrightarrow> elems s \<subseteq> space"
begin

lemma ins_one: "invar s \<Longrightarrow> i \<in> space \<Longrightarrow> i \<notin> elems s \<Longrightarrow>
    \<exists>s'. ins s i 1 = Some s' \<and> invar s' \<and> elems s' = insert i (elems s)"
  using ins_ok [of s 1 i] by (simp add: extent_one)

lemma del_one: "invar s \<Longrightarrow> i \<in> elems s \<Longrightarrow>
    \<exists>s'. del s i 1 = Some s' \<and> invar s' \<and> elems s' = elems s - {i}"
  using del_ok [of s 1 i] by (simp add: extent_one)

text \<open>Loops over the extents of another set, in any order, as long as they do not overlap.\<close>

lemma ins_fold:
  assumes "invar s" "\<forall>e \<in> set es. 0 < snd e" "sorted_wrt (\<lambda>x y. extent x \<inter> extent y = {}) es"
    "(\<Union>e \<in> set es. extent e) \<subseteq> space" "(\<Union>e \<in> set es. extent e) \<inter> elems s = {}"
  shows "\<exists>s'. fold_opt (\<lambda>s e. ins s (fst e) (snd e)) s es = Some s' \<and> invar s' \<and>
      elems s' = elems s \<union> (\<Union>e \<in> set es. extent e)"
  using assms
proof (induction es arbitrary: s)
  case (Cons e es)
  then obtain s1 where s1: "ins s (fst e) (snd e) = Some s1" "invar s1" "elems s1 = elems s \<union> extent e"
    using ins_ok [of s "snd e" "fst e"] by auto
  have "\<forall>y \<in> set es. extent e \<inter> extent y = {}" using Cons.prems(3) by simp
  then have "(\<Union>e \<in> set es. extent e) \<inter> elems s1 = {}" using Cons.prems(5) s1(3) by auto
  then obtain s2 where "fold_opt (\<lambda>s e. ins s (fst e) (snd e)) s1 es = Some s2" "invar s2"
    "elems s2 = elems s1 \<union> (\<Union>e \<in> set es. extent e)"
    using Cons.IH [of s1] s1(2) Cons.prems(2-4) by auto
  with s1 show ?case by auto
qed simp

lemma del_fold:
  assumes "invar s" "\<forall>e \<in> set es. 0 < snd e" "sorted_wrt (\<lambda>x y. extent x \<inter> extent y = {}) es"
    "(\<Union>e \<in> set es. extent e) \<subseteq> elems s"
  shows "\<exists>s'. fold_opt (\<lambda>s e. del s (fst e) (snd e)) s es = Some s' \<and> invar s' \<and>
      elems s' = elems s - (\<Union>e \<in> set es. extent e)"
  using assms
proof (induction es arbitrary: s)
  case (Cons e es)
  then obtain s1 where s1: "del s (fst e) (snd e) = Some s1" "invar s1" "elems s1 = elems s - extent e"
    using del_ok [of s "snd e" "fst e"] by auto
  have "\<forall>y \<in> set es. extent e \<inter> extent y = {}" using Cons.prems(3) by simp
  then have "(\<Union>e \<in> set es. extent e) \<subseteq> elems s1" using Cons.prems(4) s1(3) by auto
  then obtain s2 where "fold_opt (\<lambda>s e. del s (fst e) (snd e)) s1 es = Some s2" "invar s2"
    "elems s2 = elems s1 - (\<Union>e \<in> set es. extent e)"
    using Cons.IH [of s1] s1(2) Cons.prems(2,3) by auto
  with s1 show ?case by auto
qed simp

end

lemma iv_set_m_space: "iv_wf_m m \<Longrightarrow> iv_set_m m \<subseteq> iv_space"
  using iv_wf_m_fits by (fastforce simp: mem_iv_set_m)

lemma iv_set_space: "iv_wf s \<Longrightarrow> iv_set s \<subseteq> iv_space"
  using iv_set_m_space by (simp add: iv_wf_def iv_set_def)

lemma extent_space: "0 < l \<Longrightarrow> extent (f, l) \<subseteq> iv_space \<longleftrightarrow> 0 \<le> f \<and> f + l < 2 ^ 63"
  by (auto simp: extent_def)

interpretation iv: extent_set iv_insert iv_erase iv_contains iv_wf iv_set iv_space
proof unfold_locales
  show "\<exists>s'. iv_insert s f l = Some s' \<and> iv_wf s' \<and> iv_set s' = iv_set s \<union> extent (f, l)"
    if "iv_wf s" "0 < l" "extent (f, l) \<subseteq> iv_space" "extent (f, l) \<inter> iv_set s = {}" for s f l
  proof -
    have room: "0 \<le> f" "f + l < 2 ^ 63" using extent_space [OF that(2)] that(3) by auto
    have "{f ..< f + l} \<inter> iv_set s = {}" using that(4) by (simp add: extent_def)
    from iv_insert_ok [OF that(1,2) room this] show ?thesis unfolding extent_def fst_conv snd_conv by metis
  qed
  show "\<exists>s'. iv_erase s f l = Some s' \<and> iv_wf s' \<and> iv_set s' = iv_set s - extent (f, l)"
    if "iv_wf s" "0 < l" "extent (f, l) \<subseteq> iv_set s" for s f l
  proof -
    have "extent (f, l) \<subseteq> iv_space" using that(3) iv_set_space [OF that(1)] by (rule order_trans)
    then have "l \<le> 2 ^ 63" using extent_space [OF that(2)] by simp
    from that(1,2) this show ?thesis
      by (rule iv_erase_cases [where st = f]) (use that in \<open>auto simp: extent_def\<close>)
  qed
qed (rule iv_contains_iff iv_set_space; assumption)+


section \<open>Set operations\<close>

lemma insert_all_fold: "insert_all s m = fold_opt (\<lambda>s e. iv_insert s (fst e) (snd e)) s m"
  by (induction m arbitrary: s) auto

lemma erase_all_fold: "erase_all s m = fold_opt (\<lambda>s e. iv_erase s (fst e) (snd e)) s m"
  by (induction m arbitrary: s) auto

lemma iv_wf_m_extents:
  assumes "iv_wf_m m"
  shows "\<forall>e \<in> set m. 0 < snd e" "sorted_wrt (\<lambda>x y. extent x \<inter> extent y = {}) m"
    "(\<Union>e \<in> set m. extent e) = iv_set_m m"
proof -
  show "\<forall>e \<in> set m. 0 < snd e" using assms by (simp add: iv_wf_m_fits)
  show "sorted_wrt (\<lambda>x y. extent x \<inter> extent y = {}) m"
    by (rule sorted_wrt_mono_rel [where P = iv_before])
       (use assms in \<open>auto simp: iv_wf_m_def iv_before_def extent_def\<close>)
  show "(\<Union>e \<in> set m. extent e) = iv_set_m m" by (simp add: iv_set_m_def extent_def)
qed

lemma insert_set_ok:
  assumes "iv_wf s" "iv_wf a" "iv_set a \<inter> iv_set s = {}"
  shows "\<exists>s'. insert_set s a = Some s' \<and> iv_wf s' \<and> iv_set s' = iv_set s \<union> iv_set a"
  using iv.ins_fold [of s "iv_m a"] iv_wf_m_extents [of "iv_m a"] iv_set_space [of a] assms
  by (simp add: insert_set_def insert_all_fold iv_set_def [of a] iv_wf_def [of a])

lemma subtract_ok:
  assumes "iv_wf s" "iv_wf a" "iv_set a \<subseteq> iv_set s"
  shows "\<exists>s'. subtract s a = Some s' \<and> iv_wf s' \<and> iv_set s' = iv_set s - iv_set a"
  using iv.del_fold [of s "iv_m a"] iv_wf_m_extents [of "iv_m a"] assms
  by (simp add: subtract_def erase_all_fold iv_set_def [of a] iv_wf_def [of a])

text \<open>
  The loop of \<^verbatim>\<open>intersection_of\<close> adds the common part of what is left of the two sets to a
  result that lies below both heads.
\<close>

lemma intersection_loop_ok:
  assumes "iv_wf s" "iv_wf_m pa" "iv_wf_m pb" "iv_set s \<inter> (iv_set_m pa \<inter> iv_set_m pb) = {}"
  shows "\<exists>s'. intersection_loop s pa pb = Some s' \<and> iv_wf s' \<and>
      iv_set s' = iv_set s \<union> (iv_set_m pa \<inter> iv_set_m pb)"
  using assms
proof (induction s pa pb rule: intersection_loop.induct)
  case (1 s af al pa bf bl pb)
  let ?A = "iv_set_m ((af, al) # pa)" and ?B = "iv_set_m ((bf, bl) # pb)"
  have w: "0 < al" "0 < bl" "iv_wf_m pa" "iv_wf_m pb"
    and a: "\<forall>i \<in> iv_set_m pa. af + al < i" and b: "\<forall>i \<in> iv_set_m pb. bf + bl < i"
    and b_ge: "\<forall>i \<in> ?B. bf \<le> i" and a_ge: "\<forall>i \<in> ?A. af \<le> i"
    using "1.prems"(2,3) iv_set_m_ge [of "(bf, bl)" pb] iv_set_m_ge [of "(af, al)" pa]
    by (fastforce simp: iv_wf_m_Cons iv_before_def mem_iv_set_m)+
  have e [simp]: "iv_end (af, al) = af + al" "iv_end (bf, bl) = bf + bl"
    and room: "0 \<le> af" "0 \<le> bf" "af + al < 2 ^ 63" "bf + bl < 2 ^ 63"
    using iv_wf_m_fits [OF "1.prems"(2), of "(af, al)"] iv_wf_m_fits [OF "1.prems"(3), of "(bf, bl)"] by auto
  consider (pass_a) "af + al \<le> bf" | (pass_b) "\<not> af + al \<le> bf" "bf + bl \<le> af"
    | (common) "bf < af + al" "af < bf + bl" by linarith
  then show ?case
  proof cases
    case pass_a
    then have "?A \<inter> ?B = iv_set_m pa \<inter> ?B" using b_ge by fastforce
    then show ?thesis using "1.IH"(1) "1.prems" pass_a w by auto
  next
    case pass_b
    then have "?A \<inter> ?B = ?A \<inter> iv_set_m pb" using a_ge by fastforce
    then show ?thesis using "1.IH"(2) "1.prems" pass_b w by auto
  next
    case common
    define st en where "st = max af bf" and "en = min (af + al) (bf + bl)"
    have len: "0 < en - st" using common w by (auto simp: st_def en_def)
    have ext: "extent (st, en - st) = {af ..< af + al} \<inter> {bf ..< bf + bl}"
      by (auto simp: extent_def st_def en_def)
    then have new: "extent (st, en - st) \<inter> iv_set s = {}" using "1.prems"(4) by auto
    have sp: "extent (st, en - st) \<subseteq> iv_space" using room by (auto simp: ext)
    have wr: "wrap_u64 (en - st) = en - st"
      using len room w by (intro wrap_u64_id) (auto simp: st_def en_def)
    obtain s1 where s1: "iv_insert s st (en - st) = Some s1" "iv_wf s1"
      "iv_set s1 = iv_set s \<union> extent (st, en - st)"
      using iv.ins_ok [OF "1.prems"(1) len sp new] by blast
    have disj: "iv_set s \<inter> (?A \<inter> ?B) = {}" by fact
    show ?thesis
    proof (cases "af + al > bf + bl")
      case True
      have eq: "?A \<inter> ?B = extent (st, en - st) \<union> (?A \<inter> iv_set_m pb)"
        using True a by (auto simp: ext)
      have "extent (st, en - st) \<inter> (?A \<inter> iv_set_m pb) = {}" using b by (auto simp: ext)
      then have "iv_set s1 \<inter> (?A \<inter> iv_set_m pb) = {}" using disj s1(3) eq by auto
      then show ?thesis
        using "1.IH"(3) [of st en s1] common w s1 wr len True "1.prems"(2) eq
        by (auto simp: st_def en_def Un_assoc Let_def)
    next
      case False
      have eq: "?A \<inter> ?B = extent (st, en - st) \<union> (iv_set_m pa \<inter> ?B)"
        using False b by (auto simp: ext)
      have "extent (st, en - st) \<inter> (iv_set_m pa \<inter> ?B) = {}" using a by (auto simp: ext)
      then have "iv_set s1 \<inter> (iv_set_m pa \<inter> ?B) = {}" using disj s1(3) eq by auto
      then show ?thesis
        using "1.IH"(4) [of st en s1] common w s1 wr len False "1.prems"(3) eq
        by (auto simp: st_def en_def Un_assoc Let_def)
    qed
  qed
qed auto

lemma intersection_of_ok:
  assumes "iv_wf a" "iv_wf b"
  shows "\<exists>s. intersection_of a b = Some s \<and> iv_wf s \<and> iv_set s = iv_set a \<inter> iv_set b"
  using intersection_loop_ok [of iv_new "iv_m a" "iv_m b"] assms
  by (simp add: intersection_of_def iv_set_def [of a] iv_set_def [of b] iv_wf_def [of a] iv_wf_def [of b])

lemma union_of_ok:
  assumes "iv_wf a" "iv_wf b"
  shows "\<exists>s. union_of a b = Some s \<and> iv_wf s \<and> iv_set s = iv_set a \<union> iv_set b"
proof -
  obtain ab where ab: "intersection_of a b = Some ab" "iv_wf ab" "iv_set ab = iv_set a \<inter> iv_set b"
    using intersection_of_ok assms by blast
  obtain d where d: "subtract a ab = Some d" "iv_wf d" "iv_set d = iv_set a - iv_set b"
    using subtract_ok [OF assms(1) ab(2)] ab(3) by auto
  obtain s where s: "insert_set d b = Some s" "iv_wf s" "iv_set s = iv_set d \<union> iv_set b"
    using insert_set_ok [OF d(2) assms(2)] d(3) by auto
  with ab d show ?thesis by (auto simp: union_of_def)
qed


lemma union_insert_ok:
  assumes "iv_wf s" "0 < len" "0 \<le> off" "off + len < 2 ^ 63"
  shows "\<exists>s'. union_insert s off len = Some s' \<and> iv_wf s' \<and> iv_set s' = iv_set s \<union> {off ..< off + len}"
proof -
  obtain a where a: "iv_insert iv_new off len = Some a" "iv_wf a" "iv_set a = {off ..< off + len}"
    using iv.ins_ok [of iv_new len off] extent_space [of len off] assms by (auto simp: extent_def)
  then show ?thesis using union_of_ok [OF assms(1) a(2)] by (simp add: union_insert_def)
qed

lemma iv_empty_iff: "iv_wf s \<Longrightarrow> iv_empty s \<longleftrightarrow> iv_set s = {}"
  by (cases "iv_m s") (auto simp: iv_empty_def iv_set_def iv_wf_def iv_wf_m_Cons)

lemma intersects_iff:
  assumes "iv_wf s" "0 < len" "0 \<le> st" "st + len < 2 ^ 63"
  shows "intersects s st len = Some (iv_set s \<inter> {st ..< st + len} \<noteq> {})"
proof -
  obtain a where a: "iv_insert iv_new st len = Some a" "iv_wf a" "iv_set a = {st ..< st + len}"
    using iv.ins_ok [of iv_new len st] extent_space [of len st] assms by (auto simp: extent_def)
  then obtain i where "intersection_of s a = Some i" "iv_wf i" "iv_set i = iv_set s \<inter> iv_set a"
    using intersection_of_ok assms by blast
  with a show ?thesis by (simp add: intersects_def iv_empty_iff)
qed

text \<open>The stored size is the number of elements.\<close>

lemma finite_iv_set_m [simp]: "finite (iv_set_m m)"
  by (simp add: iv_set_m_def)

lemma card_iv_set_m: "iv_wf_m m \<Longrightarrow> int (card (iv_set_m m)) = sum_list (map snd m)"
proof (induction m)
  case (Cons e m)
  have "{fst e ..< fst e + snd e} \<inter> iv_set_m m = {}"
    using Cons.prems by (fastforce simp: iv_wf_m_Cons iv_before_def mem_iv_set_m)
  then show ?case using Cons by (simp add: card_Un_disjoint iv_wf_m_Cons)
qed simp

lemma iv_size_card: "iv_wf s \<Longrightarrow> iv_size s = int (card (iv_set s))"
  by (simp add: iv_wf_def iv_set_def card_iv_set_m)

lemma foldl_size:
  assumes "iv_wf_m m" "\<forall>e \<in> set m. a \<le> fst e" "0 \<le> a" "a < 2 ^ 63"
  shows "foldl (\<lambda>s i. wrap_s64 (s + snd i)) a m = a + sum_list (map snd m)"
  using assms
proof (induction m arbitrary: a)
  case (Cons e m)
  then have e: "wrap_s64 (a + snd e) = a + snd e" by (intro wrap_s64_id) (auto simp: iv_wf_m_Cons)
  have "foldl (\<lambda>s i. wrap_s64 (s + snd i)) (a + snd e) m = a + snd e + sum_list (map snd m)"
    using Cons.prems by (intro Cons.IH) (auto simp: iv_wf_m_Cons iv_before_def)
  then show ?case by (simp add: e)
qed simp

lemma iv_of_map_wf: "iv_wf_m m \<Longrightarrow> iv_wf (iv_of_map m) \<and> iv_set (iv_of_map m) = iv_set_m m"
  using foldl_size [of m 0] iv_wf_m_fits(2) [of m] by (simp add: iv_wf_def iv_set_def iv_of_map_def)

section \<open>Spans\<close>

text \<open>
  \<^verbatim>\<open>span_of\<close> takes the first \<open>len\<close> elements at or after \<open>start\<close>: the result is an initial
  segment of those elements, and it has \<open>len\<close> elements unless there are fewer.
\<close>

definition initial_of :: "int set \<Rightarrow> int set \<Rightarrow> bool" where
  "initial_of P A \<longleftrightarrow> P \<subseteq> A \<and> (\<forall>i \<in> P. \<forall>j \<in> A. j \<le> i \<longrightarrow> j \<in> P)"

lemma initial_of_insert:
  assumes "initial_of P B" "e \<le> l" "\<forall>i \<in> B. f + l < i"
  shows "initial_of ({f ..< f + e} \<union> (if e = l then P else {})) ({f ..< f + l} \<union> B)"
  using assms by (fastforce simp: initial_of_def)

lemma span_loop_ok:
  assumes "iv_wf s" "iv_wf_m p" "\<forall>i \<in> iv_set s. \<forall>j \<in> iv_set_m p. i < j" "0 \<le> len" "len \<le> 2 ^ 63"
  shows "\<exists>s' P. span_loop s p len = Some s' \<and> iv_wf s' \<and> iv_set s' = iv_set s \<union> P \<and>
      initial_of P (iv_set_m p) \<and> int (card P) = min len (int (card (iv_set_m p)))"
  using assms
proof (induction s p len rule: span_loop.induct)
  case (1 s len)
  then show ?case by (auto simp: initial_of_def)
next
  case (2 s f l p len)
  let ?E = "{f ..< f + l}"
  have w: "0 < l" "iv_wf_m p" and p: "\<forall>i \<in> iv_set_m p. f + l < i"
    using "2.prems"(2) by (fastforce simp: iv_wf_m_Cons iv_before_def mem_iv_set_m)+
  have f: "0 \<le> f" "f + l < 2 ^ 63" using "2.prems"(2) by (auto simp: iv_wf_m_Cons)
  have card: "card (?E \<union> iv_set_m p) = nat l + card (iv_set_m p)"
    using p by (subst card_Un_disjoint) (auto simp: disjoint_iff)
  have below: "\<forall>i \<in> iv_set s. i < f" using "2.prems"(3) w by auto
  consider (stop) "len = 0" | (all) "0 < len" "l < len" | (part) "0 < len" "len \<le> l"
    using "2.prems"(4) by linarith
  then show ?case
  proof cases
    case stop
    then show ?thesis using "2.prems"(1) by (intro exI [of _ s] exI [of _ "{}"]) (auto simp: initial_of_def)
  next
    case all
    obtain s1 where s1: "iv_insert s f l = Some s1" "iv_wf s1" "iv_set s1 = iv_set s \<union> ?E"
      using iv.ins_ok [of s l f] extent_space [of l f] "2.prems"(1) w f below by (force simp: extent_def)
    have wr [simp]: "wrap_u64 (len - l) = len - l" using all w "2.prems"(5) by (intro wrap_u64_id) auto
    have "\<forall>i \<in> iv_set s1. \<forall>j \<in> iv_set_m p. i < j" using s1(3) p below w by fastforce
    then obtain s' P where IH: "span_loop s1 p (len - l) = Some s'" "iv_wf s'" "iv_set s' = iv_set s1 \<union> P"
      "initial_of P (iv_set_m p)" "int (card P) = min (len - l) (int (card (iv_set_m p)))"
      using "2.IH" [OF all s1(1)] s1(2) w all "2.prems"(5) by auto
    have fin: "finite P" using IH(4) by (meson finite_iv_set_m finite_subset initial_of_def)
    have "card (?E \<union> P) = nat l + card P"
      using p IH(4) fin by (subst card_Un_disjoint) (fastforce simp: initial_of_def)+
    then show ?thesis
      using all s1 IH card w initial_of_insert [OF IH(4) order.refl p]
      by (intro exI [of _ s'] exI [of _ "?E \<union> P"]) auto
  next
    case part
    obtain s1 where s1: "iv_insert s f len = Some s1" "iv_wf s1" "iv_set s1 = iv_set s \<union> {f ..< f + len}"
      using iv.ins_ok [of s len f] extent_space [of len f] "2.prems"(1) part f below by (force simp: extent_def)
    have "initial_of {f ..< f + len} (?E \<union> iv_set_m p)"
      using part p by (fastforce simp: initial_of_def)
    then show ?thesis
      using part s1 card by (intro exI [of _ s1] exI [of _ "{f ..< f + len}"]) auto
  qed
qed


lemma span_loop_rest:
  assumes s0: "iv_wf s0" "iv_wf_m zs" "\<forall>i \<in> iv_set s0. \<forall>j \<in> iv_set_m zs. i < j" "0 \<le> l0" "l0 \<le> 2 ^ 63"
    and R: "R = iv_set s0 \<union> iv_set_m zs"
  shows "\<exists>s. span_loop s0 zs l0 = Some s \<and> iv_wf s \<and> initial_of (iv_set s) R \<and>
      iv_size s = min (iv_size s0 + l0) (int (card R))"
proof -
  obtain s P where s: "span_loop s0 zs l0 = Some s" "iv_wf s" "iv_set s = iv_set s0 \<union> P"
    "initial_of P (iv_set_m zs)" "int (card P) = min l0 (int (card (iv_set_m zs)))"
    using span_loop_ok [OF s0] by blast
  have fin: "finite P" "finite (iv_set s0)" "P \<subseteq> iv_set_m zs"
    using s(4) by (auto simp: initial_of_def iv_set_def intro: finite_subset [OF _ finite_iv_set_m])
  have "iv_set s0 \<inter> iv_set_m zs = {}" using s0(3) by fastforce
  then have "card (iv_set s) = card (iv_set s0) + card P" "card R = card (iv_set s0) + card (iv_set_m zs)"
    using s(3) R fin by (auto intro!: card_Un_disjoint)
  moreover have "initial_of (iv_set s) R"
    using s(3,4) R s0(3) by (fastforce simp: initial_of_def)
  ultimately show ?thesis
    using s iv_size_card [of s] iv_size_card [of s0] s0(1) by auto
qed

lemma span_of_ok:
  assumes wf: "iv_wf other" and len: "0 < len" "len \<le> 2 ^ 63"
  shows "\<exists>s. span_of other start len = Some s \<and> iv_wf s \<and>
      initial_of (iv_set s) {i \<in> iv_set other. start \<le> i} \<and>
      iv_size s = min len (int (card {i \<in> iv_set other. start \<le> i}))"
proof -
  obtain xs ys where c: "iv_m other = xs @ ys" "find_inc (iv_m other) start = length xs"
    "\<forall>e \<in> set xs. fst e + snd e \<le> start" "\<forall>e \<in> set ys. start < fst e + snd e"
    using find_inc_cut wf unfolding iv_wf_def by metis
  have w: "iv_wf_m (xs @ ys)" using wf c by (simp add: iv_wf_def)
  have rest: "{i \<in> iv_set other. start \<le> i} = {i \<in> iv_set_m ys. start \<le> i}" (is "?R = _")
    using c(3) by (fastforce simp: iv_set_def c(1) mem_iv_set_m)
  show ?thesis
  proof (cases ys)
    case Nil
    then have R0: "?R = {}" "span_of other start len = Some iv_new"
      using rest c by (simp_all add: span_of_def)
    show ?thesis unfolding R0 using len by (simp add: initial_of_def) (simp add: iv_new_def)
  next
    case (Cons y zs)
    obtain pf ps where y: "y = (pf, ps)" by (cases y)
    have zs: "iv_wf_m zs" "\<forall>i \<in> iv_set_m zs. pf + ps < i" and ps: "0 < ps" "start < pf + ps"
      using w c(4) Cons y
      by (fastforce simp: iv_wf_m_append iv_wf_m_Cons iv_before_def mem_iv_set_m)+
    have R: "?R = {max pf start ..< pf + ps} \<union> iv_set_m zs"
      using rest Cons y zs(2) ps by fastforce
    define n where "n = min len (pf + ps - start)"
    have n: "0 < n" using len ps by (simp add: n_def)
    have f: "0 \<le> pf" "pf + ps < 2 ^ 63" "iv_end (pf, ps) = pf + ps"
      using iv_wf_m_fits [OF w, of y] Cons y by auto
    have ex: "\<exists>s1. iv_insert iv_new start n = Some s1 \<and> iv_wf s1 \<and> iv_set s1 = {start ..< start + n} \<and> iv_size s1 = n"
      and wl: "wrap_u64 (start + len) = start + len" if "pf < start"
    proof -
      have "extent (start, n) \<subseteq> iv_space" using that f extent_space [OF n, of start] by (auto simp: n_def)
      then obtain s1 where "iv_insert iv_new start n = Some s1" "iv_wf s1" "iv_set s1 = {start ..< start + n}"
        using iv.ins_ok [OF iv_wf_new n] by (auto simp: extent_def)
      then show "\<exists>s1. iv_insert iv_new start n = Some s1 \<and> iv_wf s1 \<and> iv_set s1 = {start ..< start + n} \<and> iv_size s1 = n"
        using iv_size_card [of s1] n by auto
      show "wrap_u64 (start + len) = start + len" using that f ps len by (intro wrap_u64_id) auto
    qed
    consider (after) "start \<le> pf" | (more) "pf < start" "pf + ps < start + len"
      | (within) "pf < start" "start + len \<le> pf + ps" by linarith
    then show ?thesis
    proof cases
      case after
      then have "?R = iv_set iv_new \<union> iv_set_m ys" "span_of other start len = span_loop iv_new ys len"
        using R c Cons y by (auto simp: span_of_def max_def)
      then show ?thesis
        using span_loop_rest [of iv_new ys len ?R] w len
        by (simp add: iv_wf_m_append) (simp add: iv_new_def)
    next
      case more
      then obtain s1 where s1: "iv_insert iv_new start n = Some s1" "iv_wf s1" "iv_set s1 = {start ..< start + n}"
        "iv_size s1 = n" using ex by blast
      have n': "n = pf + ps - start" using more by (simp add: n_def)
      then have "ps - (start - pf) = n" by simp
      moreover have "wrap_u64 n = n" "wrap_u64 (len - n) = len - n"
        using n len f more n' by (auto intro!: wrap_u64_id)
      ultimately have "span_of other start len = span_loop s1 zs (len - n)"
        using s1 c Cons y ps more f wl by (simp add: span_of_def nth_append)
      moreover have "?R = iv_set s1 \<union> iv_set_m zs" "\<forall>i \<in> iv_set s1. \<forall>j \<in> iv_set_m zs. i < j"
        using R s1(3) more zs(2) n' by (fastforce simp: max_def)+
      ultimately show ?thesis
        using span_loop_rest [OF s1(2) zs(1), of "len - n" ?R] s1(4) more n' n len by simp
    next
      case within
      then obtain s1 where s1: "iv_insert iv_new start n = Some s1" "iv_wf s1" "iv_set s1 = {start ..< start + n}"
        "iv_size s1 = n" using ex by blast
      have n': "n = len" using within by (simp add: n_def)
      have "span_of other start len = Some s1"
        using s1 c Cons y ps within n' f wl by (simp add: span_of_def nth_append)
      moreover have "initial_of (iv_set s1) ?R"
        using R s1(3) within zs(2) n' by (fastforce simp: initial_of_def)
      moreover have "card {start ..< start + len} \<le> card ?R"
        unfolding R using within by (intro card_mono) auto
      ultimately show ?thesis using s1(2,4) len n' by auto
    qed
  qed
qed


section \<open>Properties\<close>

text \<open>
  The abstract contract the container implements, as a relation between a concrete result and
  the set it has to stand for.
\<close>

definition iv_refines :: "interval_set option \<Rightarrow> int set \<Rightarrow> bool" where
  "iv_refines r A \<longleftrightarrow> (case r of None \<Rightarrow> False | Some s \<Rightarrow> iv_wf s \<and> iv_set s = A)"

lemma iv_refinesI: "\<exists>s. r = Some s \<and> iv_wf s \<and> iv_set s = A \<Longrightarrow> iv_refines r A"
  by (auto simp: iv_refines_def)

text \<open>
  An overlapping insertion that starts exactly where an interval ends is not caught by the
  assertions of \<^verbatim>\<open>insert\<close>: the result holds two overlapping intervals and counts elements twice.
\<close>

lemmas iv_eval = iv_insert_def iv_insert_at_def iv_erase_def find_adj_def find_inc_def iv_end_def
  omap_lower_bound_def wrap_u64_def wrap_s64_def Let_def

lemma insert_overlap_unchecked:
  "iv_insert \<lparr>iv_size = 4, iv_m = [(0, 2), (4, 2)]\<rparr> 2 3 =
     Some \<lparr>iv_size = 7, iv_m = [(0, 5), (4, 2)]\<rparr>"
  by (simp add: iv_eval)

text \<open>
  Beyond \<open>iv_space\<close>. The longest interval makes the counter negative, and every later removal aborts
  on it; a removal that long passes the containment test by wrapping around; and \<^verbatim>\<open>span_of\<close> with such
  a length returns what is not in the set.
\<close>

lemma insert_longest: "iv_insert iv_new 0 (2 ^ 64 - 1) = Some \<lparr>iv_size = - 1, iv_m = [(0, 2 ^ 64 - 1)]\<rparr>"
  by (simp add: iv_eval iv_new_def)

lemma erase_after_insert_longest:
  assumes "0 < len" "len < 2 ^ 63"
  shows "Option.bind (iv_insert iv_new 0 (2 ^ 64 - 1)) (\<lambda>s. iv_erase s st len) = None"
  unfolding insert_longest using assms wrap_s64_id [of "- 1 - len"] by (simp add: iv_erase_def Let_def)

lemma erase_wraps: "iv_erase \<lparr>iv_size = 6, iv_m = [(0, 6)]\<rparr> 1 (2 ^ 64 - 1) = Some \<lparr>iv_size = 7, iv_m = [(0, 6)]\<rparr>"
  by (simp add: iv_eval)

lemma span_of_wraps:
  "span_of \<lparr>iv_size = 2, iv_m = [(5, 2)]\<rparr> 6 (2 ^ 64 - 1) = Some \<lparr>iv_size = - 1, iv_m = [(6, 2 ^ 64 - 1)]\<rparr>"
  by (simp add: iv_eval span_of_def iv_clear_def iv_new_def)

text \<open>
  C33: inserting a non-empty interval that ends below \<open>2 ^ 63\<close> and overlaps nothing succeeds, keeps
  the invariant (the counter included), and adds exactly the elements of the interval.
\<close>

theorem iv_insert_refines:
  assumes "iv_wf s" "0 < len" "0 \<le> st" "st + len < 2 ^ 63" "{st ..< st + len} \<inter> iv_set s = {}"
  shows "iv_refines (iv_insert s st len) (iv_set s \<union> {st ..< st + len})"
  using iv.ins_ok [of s len st] extent_space [of len st] assms by (intro iv_refinesI) (simp add: extent_def)

text \<open>A concrete set for the witnesses: the elements 0, 1, 4 and 5.\<close>

definition iv_example :: interval_set where
  "iv_example = \<lparr>iv_size = 4, iv_m = [(0, 2), (4, 2)]\<rparr>"

lemma iv_example_wf: "iv_wf iv_example"
  by (simp add: iv_example_def iv_wf_def iv_wf_m_def iv_before_def iv_fits_def)

lemma iv_example_set: "iv_set iv_example = {0, 1, 4, 5}"
  by (auto simp: iv_example_def iv_set_def)

theorem iv_insert_refines_witness:
  "iv_refines (iv_insert iv_example 2 2) (iv_set iv_example \<union> {2 ..< 2 + 2})"
  by (rule iv_insert_refines) (auto simp: iv_example_wf iv_example_set)

text \<open>
  C34: erasing a non-empty interval of at most \<open>2 ^ 63\<close> elements succeeds exactly when all its elements
  are present, and then removes exactly those; otherwise it aborts. Longer ones can wrap around.
\<close>

theorem iv_erase_exact:
  assumes "iv_wf s" "0 < len" "len \<le> 2 ^ 63"
  shows "if {st ..< st + len} \<subseteq> iv_set s
         then iv_refines (iv_erase s st len) (iv_set s - {st ..< st + len})
         else iv_erase s st len = None"
  by (rule iv_erase_cases [OF assms, of st]) (auto simp: iv_refines_def)

theorem iv_erase_exact_witness:
  "iv_refines (iv_erase iv_example 4 1) (iv_set iv_example - {4 ..< 4 + 1}) \<and>
   iv_erase iv_example 1 4 = None"
proof -
  have "{4 ..< 4 + 1} \<subseteq> iv_set iv_example" by (auto simp: iv_example_set)
  moreover have "(3 :: int) \<in> {1 ..< 1 + 4}" "3 \<notin> iv_set iv_example"
    by (simp_all add: iv_example_set)
  then have "\<not> {1 ..< 1 + 4} \<subseteq> iv_set iv_example" by blast
  ultimately show ?thesis
    using iv_erase_exact [OF iv_example_wf, of 1 4] iv_erase_exact [OF iv_example_wf, of 4 1] by simp
qed

text \<open>
  C32: on sets within \<open>{0 ..< 2 ^ 63 - 1}\<close> the set operations refine those of sets: intersection, union and insertion of a range into a
  set never abort and keep the invariant; the subset test, the equality of representations and the
  stored size decide inclusion, equality and cardinality.
\<close>

theorem iv_algebra_refines:
  assumes "iv_wf a" "iv_wf b"
  shows "iv_refines (intersection_of a b) (iv_set a \<inter> iv_set b) \<and>
    iv_refines (union_of a b) (iv_set a \<union> iv_set b) \<and>
    (0 < len \<and> 0 \<le> st \<and> st + len < 2 ^ 63 \<longrightarrow> iv_refines (union_insert a st len) (iv_set a \<union> {st ..< st + len})) \<and>
    (subset_of a b \<longleftrightarrow> iv_set a \<subseteq> iv_set b) \<and>
    (iv_equal a b \<longleftrightarrow> iv_set a = iv_set b) \<and>
    iv_size a = int (card (iv_set a))"
  using assms intersection_of_ok union_of_ok union_insert_ok subset_of_iff iv_equal_iff iv_size_card
  by (auto intro!: iv_refinesI)

theorem iv_algebra_refines_witness:
  "iv_refines (union_of iv_example (iv_of_map [(1, 4)])) (iv_set iv_example \<union> iv_set (iv_of_map [(1, 4)]))"
proof -
  have "iv_wf (iv_of_map [(1, 4)])" using iv_of_map_wf [of "[(1, 4)]"] by (simp add: iv_wf_m_Cons)
  then show ?thesis using iv_algebra_refines [OF iv_example_wf, of "iv_of_map [(1, 4)]" 1 0] by blast
qed

text \<open>
  C35: \<^verbatim>\<open>span_of\<close> takes, in ascending order and skipping holes, the first \<open>len\<close> elements at or
  after \<open>start\<close>: no element it leaves out lies below one it takes, and it takes \<open>len\<close> of them
  unless fewer exist. The length is at most \<open>2 ^ 63\<close>.
\<close>

theorem span_of_prefix:
  assumes "iv_wf other" "0 < len" "len \<le> 2 ^ 63"
  shows "\<exists>s. span_of other start len = Some s \<and> iv_wf s \<and>
      initial_of (iv_set s) {i \<in> iv_set other. start \<le> i} \<and>
      iv_size s = min len (int (card {i \<in> iv_set other. start \<le> i}))"
  using assms by (rule span_of_ok)

theorem span_of_prefix_witness:
  "\<exists>s. span_of iv_example 1 2 = Some s \<and> iv_wf s \<and>
      initial_of (iv_set s) {i \<in> iv_set iv_example. 1 \<le> i} \<and>
      iv_size s = min 2 (int (card {i \<in> iv_set iv_example. 1 \<le> i}))"
  by (rule span_of_prefix) (simp_all add: iv_example_wf)

end
