(* ===== verification/InoTable.thy ===== *)
theory InoTable
  imports IntervalSet
begin

text \<open>
  \<^verbatim>\<open>mds/InoTable.cc\<close> and \<^verbatim>\<open>mds/InoTable.h\<close>: the inode number allocator of a metadata
  server. Every change is first projected (it takes effect on \<open>projected_free\<close> at once), then
  journaled, and applied to \<open>free\<close> when the journal entry is safe. Journal replay and the
  recovery tools change both sets together.
\<close>

section \<open>Definitions\<close>

record ino_table =
  it_free :: interval_set
  it_projected_free :: interval_set
  it_version :: u64
  it_projected_version :: u64
  it_active :: bool
  it_mds :: bool

definition reset_state :: "int \<Rightarrow> ino_table \<Rightarrow> ino_table option" where
  "reset_state rank t =
     (let start = uint (push_bit 40 (word_of_int (rank + 1) :: u64));
          len = uint (push_bit 40 (1 :: u64))
      in Option.bind (iv_insert (iv_clear (it_free t)) start len) (\<lambda>f.
           Some (t\<lparr>it_free := f, it_projected_free := f\<rparr>)))"

definition project_alloc_id :: "int \<Rightarrow> ino_table \<Rightarrow> (int \<times> ino_table) option" where
  "project_alloc_id i t =
     (if \<not> it_active t then None
      else
        Option.bind (if i = 0 then range_start (it_projected_free t) else Some i) (\<lambda>i.
          Option.bind (iv_erase (it_projected_free t) i 1) (\<lambda>p.
            Some (i, t\<lparr>it_projected_free := p,
                       it_projected_version := it_projected_version t + 1\<rparr>))))"

definition apply_alloc_id :: "int \<Rightarrow> ino_table \<Rightarrow> ino_table option" where
  "apply_alloc_id i t =
     Option.bind (iv_erase (it_free t) i 1) (\<lambda>f.
       Some (t\<lparr>it_free := f, it_version := it_version t + 1\<rparr>))"

text \<open>
  The loop of \<^verbatim>\<open>project_alloc_ids\<close>: \<open>None\<close> also stands for a loop that never ends, which a
  table with an empty interval would cause.
\<close>

partial_function (option) project_alloc_loop ::
  "interval_set \<Rightarrow> interval_set \<Rightarrow> int \<Rightarrow> (interval_set \<times> interval_set) option" where
  "project_alloc_loop pfree ids want =
     (if want > 0
      then
        Option.bind (range_start pfree) (\<lambda>start.
          Option.bind (end_after pfree start) (\<lambda>en.
            let num = wrap_u64 (en - start); num = (if num > want then want else num) in
            Option.bind (iv_erase pfree start num) (\<lambda>pfree'.
              Option.bind (iv_insert ids start num) (\<lambda>ids'.
                project_alloc_loop pfree' ids' (want - num)))))
      else Some (pfree, ids))"

definition project_alloc_ids ::
  "interval_set \<Rightarrow> int \<Rightarrow> ino_table \<Rightarrow> (interval_set \<times> ino_table) option" where
  "project_alloc_ids ids want t =
     (if \<not> it_active t then None
      else
        Option.bind (project_alloc_loop (it_projected_free t) ids want) (\<lambda>(p, ids').
          Some (ids', t\<lparr>it_projected_free := p,
                         it_projected_version := it_projected_version t + 1\<rparr>)))"

definition apply_alloc_ids :: "interval_set \<Rightarrow> ino_table \<Rightarrow> ino_table option" where
  "apply_alloc_ids ids t =
     Option.bind (subtract (it_free t) ids) (\<lambda>f.
       Some (t\<lparr>it_free := f, it_version := it_version t + 1\<rparr>))"

definition project_release_ids :: "interval_set \<Rightarrow> ino_table \<Rightarrow> ino_table option" where
  "project_release_ids ids t =
     Option.bind (insert_set (it_projected_free t) ids) (\<lambda>p.
       Some (t\<lparr>it_projected_free := p, it_projected_version := it_projected_version t + 1\<rparr>))"

definition apply_release_ids :: "interval_set \<Rightarrow> ino_table \<Rightarrow> ino_table option" where
  "apply_release_ids ids t =
     Option.bind (insert_set (it_free t) ids) (\<lambda>f.
       Some (t\<lparr>it_free := f, it_version := it_version t + 1\<rparr>))"

text \<open>\<^verbatim>\<open>projected_version = ++version\<close>\<close>

definition bump_both :: "ino_table \<Rightarrow> ino_table" where
  "bump_both t =
     t\<lparr>it_version := it_version t + 1, it_projected_version := it_version t + 1\<rparr>"

text \<open>Replay of allocations is for a running server only: \<open>it_mds\<close> is the pointer \<^verbatim>\<open>mds\<close> being set.\<close>

definition replay_alloc_id :: "int \<Rightarrow> ino_table \<Rightarrow> ino_table option" where
  "replay_alloc_id i t =
     (if \<not> it_mds t then None
      else if iv_contains (it_free t) i
      then
        Option.bind (iv_erase (it_free t) i 1) (\<lambda>f.
          Option.bind (iv_erase (it_projected_free t) i 1) (\<lambda>p.
            Some (bump_both (t\<lparr>it_free := f, it_projected_free := p\<rparr>))))
      else Some (bump_both t))"

definition replay_alloc_ids :: "interval_set \<Rightarrow> ino_table \<Rightarrow> ino_table option" where
  "replay_alloc_ids ids t =
     (if \<not> it_mds t then None
      else Option.bind (intersection_of (it_free t) ids) (\<lambda>is.
        let rm = (if iv_equal is ids then ids else is) in
        Option.bind (subtract (it_free t) rm) (\<lambda>f.
          Option.bind (subtract (it_projected_free t) rm) (\<lambda>p.
            Some (bump_both (t\<lparr>it_free := f, it_projected_free := p\<rparr>))))))"

definition replay_release_ids :: "interval_set \<Rightarrow> ino_table \<Rightarrow> ino_table option" where
  "replay_release_ids ids t =
     Option.bind (insert_set (it_free t) ids) (\<lambda>f.
       Option.bind (insert_set (it_projected_free t) ids) (\<lambda>p.
         Some (bump_both (t\<lparr>it_free := f, it_projected_free := p\<rparr>))))"

definition skip_inos :: "int \<Rightarrow> ino_table \<Rightarrow> ino_table option" where
  "skip_inos i t =
     Option.bind (range_start (it_free t)) (\<lambda>first.
       Option.bind (iv_insert iv_new first i) (\<lambda>s0.
         Option.bind (intersection_of s0 (it_free t)) (\<lambda>s.
           Option.bind (subtract (it_free t) s) (\<lambda>f.
             Some (bump_both (t\<lparr>it_free := f, it_projected_free := f\<rparr>))))))"

definition replay_reset :: "ino_table \<Rightarrow> ino_table option" where
  "replay_reset t =
     Option.bind (skip_inos 10000000 t) (\<lambda>t.
       Some (bump_both (t\<lparr>it_projected_free := it_free t\<rparr>)))"

definition is_marked_free :: "int \<Rightarrow> ino_table \<Rightarrow> bool" where
  "is_marked_free i t \<longleftrightarrow> iv_contains (it_free t) i \<or> iv_contains (it_projected_free t) i"

definition intersects_free :: "interval_set \<Rightarrow> ino_table \<Rightarrow> (bool \<times> interval_set) option" where
  "intersects_free other t =
     Option.bind (intersection_of (it_free t) other) (\<lambda>i. Some (\<not> iv_empty i, i))"

definition repair :: "int \<Rightarrow> ino_table \<Rightarrow> (bool \<times> ino_table) option" where
  "repair i t =
     (if it_projected_version t \<noteq> it_version t then Some (False, t)
      else if \<not> is_marked_free i t then None
      else
        Option.bind (iv_erase (it_free t) i 1) (\<lambda>f.
          Option.bind (iv_erase (it_projected_free t) i 1) (\<lambda>p.
            Some (True, bump_both (t\<lparr>it_free := f, it_projected_free := p\<rparr>)))))"

definition force_consume :: "int \<Rightarrow> ino_table \<Rightarrow> (bool \<times> ino_table) option" where
  "force_consume i t =
     (if iv_contains (it_free t) i
      then Option.bind (iv_erase (it_free t) i 1) (\<lambda>f. Some (True, t\<lparr>it_free := f\<rparr>))
      else Some (False, t))"

definition force_consume_to :: "int \<Rightarrow> ino_table \<Rightarrow> (bool \<times> ino_table) option" where
  "force_consume_to i t =
     (if iv_contains (it_free t) i
      then
        (let mn = fst (iv_m (it_free t) ! 0) in
         Option.bind (iv_erase (it_free t) mn (wrap_u64 (i - mn + 1))) (\<lambda>f.
           Some (True, bump_both (t\<lparr>it_free := f, it_projected_free := f\<rparr>))))
      else Some (False, t))"


section \<open>Allocation of a batch\<close>

lemma end_after_at: "iv_contains_at s i = Some e \<Longrightarrow> end_after s i = Some (iv_end e)"
  by (auto simp: end_after_def iv_contains_def iv_contains_at_def Let_def split: if_splits)

lemma first_interval:
  assumes "iv_wf s" "iv_set s \<noteq> {}"
  obtains f l where "range_start s = Some f" "end_after s f = Some (f + l)" "0 < l"
    "{f ..< f + l} \<subseteq> iv_set s" "\<forall>i \<in> iv_set s - {f ..< f + l}. f + l < i"
proof -
  obtain e m where m: "iv_m s = e # m" using assms by (cases "iv_m s") (auto simp: iv_set_def)
  then have w: "0 < snd e" "\<forall>x \<in> set m. fst e + snd e < fst x"
    using assms by (auto simp: iv_wf_def iv_wf_m_Cons iv_before_def)
  have "iv_contains_at s (fst e) = Some e" using iv_contains_at_iff [OF assms(1)] m w by auto
  then have "end_after s (fst e) = Some (fst e + snd e)"
    using end_after_at iv_wf_m_fits(4) [of "iv_m s" e] assms(1) m by (simp add: iv_wf_def)
  moreover have "range_start s = Some (fst e)" using m by (simp add: range_start_def iv_empty_def)
  moreover have "\<forall>i \<in> iv_set s - {fst e ..< fst e + snd e}. fst e + snd e < i"
    using m w by (fastforce simp: iv_set_def mem_iv_set_m)
  ultimately show thesis using that w m by (auto simp: iv_set_def)
qed

lemma finite_iv_set [simp]: "finite (iv_set s)"
  by (simp add: iv_set_def)

lemma initial_of_prefix:
  assumes "initial_of A (B - {f ..< f + n})" "{f ..< f + n} \<subseteq> B" "\<forall>i \<in> B. f \<le> i"
  shows "initial_of ({f ..< f + n} \<union> A) B"
proof -
  have "j \<in> {f ..< f + n} \<union> A" if "i \<in> {f ..< f + n} \<union> A" "j \<in> B" "j \<le> i" for i j
  proof (cases "j < f + n")
    case False
    then have "i \<in> A" "j \<in> B - {f ..< f + n}" using that by auto
    then show ?thesis using assms(1) that(3) by (auto simp: initial_of_def)
  qed (use that assms(3) in auto)
  then show ?thesis using assms(1,2) by (auto simp: initial_of_def)
qed

lemma project_alloc_loop_ok:
  assumes "iv_wf p" "iv_wf ids" "iv_set ids \<inter> iv_set p = {}" "0 \<le> want" "want \<le> iv_size p"
  shows "\<exists>p' ids' A. project_alloc_loop p ids want = Some (p', ids') \<and> iv_wf p' \<and> iv_wf ids' \<and>
      iv_set p' = iv_set p - A \<and> iv_set ids' = iv_set ids \<union> A \<and>
      initial_of A (iv_set p) \<and> int (card A) = want"
  using assms
proof (induction "nat want" arbitrary: p ids want rule: less_induct)
  case less
  show ?case
  proof (cases "want = 0")
    case True
    then show ?thesis
      using less.prems by (intro exI [of _ p] exI [of _ ids] exI [of _ "{}"])
        (auto simp: project_alloc_loop.simps initial_of_def)
  next
    case False
    then have "iv_set p \<noteq> {}" using less.prems iv_size_card by fastforce
    then obtain f l where f: "range_start p = Some f" "end_after p f = Some (f + l)" "0 < l"
      "{f ..< f + l} \<subseteq> iv_set p" "\<forall>i \<in> iv_set p - {f ..< f + l}. f + l < i"
      using first_interval less.prems(1) by blast
    define n where "n = min l want"
    have n: "0 < n" "n \<le> l" "n \<le> want" using f(3) False less.prems(4) by (auto simp: n_def)
    obtain p1 where p1: "iv_erase p f n = Some p1" "iv_wf p1" "iv_set p1 = iv_set p - {f ..< f + n}"
      using iv.del_ok [of p n f] less.prems(1) n f(4) by (auto simp: extent_def subset_eq)
    have sub: "{f ..< f + n} \<subseteq> iv_set p" using f(4) n by auto
    have sp: "extent (f, k) \<subseteq> iv_space" if "{f ..< f + k} \<subseteq> iv_set p" for k
      using order_trans [OF that iv_set_space [OF less.prems(1)]] by (simp only: extent_def fst_conv snd_conv)
    have new: "extent (f, n) \<inter> iv_set ids = {}" using sub less.prems(3) by (auto simp: extent_def)
    have "extent (f, l) \<subseteq> iv_space" using f(4) by (rule sp)
    then have wr: "wrap_u64 l = l" using f(3) extent_space [OF f(3), of f] by (intro wrap_u64_id) auto
    obtain ids1 where ids1: "iv_insert ids f n = Some ids1" "iv_wf ids1"
      "iv_set ids1 = iv_set ids \<union> {f ..< f + n}"
      using iv.ins_ok [OF less.prems(2) n(1) sp [OF sub] new] by (auto simp: extent_def)
    have "int (card (iv_set p1)) = int (card (iv_set p)) - n"
      using sub p1(3) n card_mono [OF _ sub] by (simp add: card_Diff_subset of_nat_diff)
    then have "want - n \<le> iv_size p1"
      using less.prems(1,5) p1(2) iv_size_card by fastforce
    moreover have "iv_set ids1 \<inter> iv_set p1 = {}" using ids1(3) p1(3) less.prems(3) by auto
    ultimately obtain p' ids' A where IH: "project_alloc_loop p1 ids1 (want - n) = Some (p', ids')"
      "iv_wf p'" "iv_wf ids'" "iv_set p' = iv_set p1 - A" "iv_set ids' = iv_set ids1 \<union> A"
      "initial_of A (iv_set p1)" "int (card A) = want - n"
      using less.hyps [of "want - n" p1 ids1] p1(2) ids1(2) n by fastforce
    have "project_alloc_loop p ids want = Some (p', ids')"
      using f p1 ids1 IH(1) False less.prems(4) wr
      by (subst project_alloc_loop.simps) (auto simp: n_def min_def split: if_splits)
    moreover have "A \<subseteq> iv_set p - {f ..< f + n}" using IH(6) p1(3) by (simp add: initial_of_def)
    then have "card ({f ..< f + n} \<union> A) = card {f ..< f + n} + card A"
      by (intro card_Un_disjoint) (auto intro: finite_subset [OF _ finite_iv_set [of p]])
    moreover have "initial_of ({f ..< f + n} \<union> A) (iv_set p)"
      using initial_of_prefix [of A "iv_set p" f n] IH(6) p1(3) sub range_start_least [OF less.prems(1) f(1)]
      by simp
    ultimately show ?thesis
      using IH n p1(3) ids1(3)
      by (intro exI [of _ p'] exI [of _ ids'] exI [of _ "{f ..< f + n} \<union> A"]) auto
  qed
qed


section \<open>Projecting and applying\<close>

text \<open>\<^verbatim>\<open>MAX_MDS\<close>: the ranks of metadata servers, and with them all inode numbers, are bounded.\<close>

definition MAX_MDS :: int where
  "MAX_MDS = 0x100"

text \<open>
  A journaled change waits between its projection and its application. Changes are applied in the
  order in which they were projected, as the journal makes them safe in that order.
\<close>

datatype ino_op = AllocId int | AllocIds interval_set | ReleaseIds interval_set

fun apply_op :: "ino_op \<Rightarrow> ino_table \<Rightarrow> ino_table option" where
  "apply_op (AllocId i) t = apply_alloc_id i t"
| "apply_op (AllocIds ids) t = apply_alloc_ids ids t"
| "apply_op (ReleaseIds ids) t = apply_release_ids ids t"

inductive ino_step :: "ino_table \<times> ino_op list \<Rightarrow> ino_table \<times> ino_op list \<Rightarrow> bool" where
  project_one: "project_alloc_id i t = Some (i', t') \<Longrightarrow> ino_step (t, q) (t', q @ [AllocId i'])"
| project_many: "project_alloc_ids iv_new want t = Some (ids, t') \<Longrightarrow> 0 \<le> want \<Longrightarrow>
     want \<le> iv_size (it_projected_free t) \<Longrightarrow> ino_step (t, q) (t', q @ [AllocIds ids])"
| project_release: "project_release_ids ids t = Some t' \<Longrightarrow> iv_wf ids \<Longrightarrow>
     iv_set ids \<inter> iv_set (it_projected_free t) = {} \<Longrightarrow> ino_step (t, q) (t', q @ [ReleaseIds ids])"
| apply_first: "apply_op c t = Some t' \<Longrightarrow> ino_step (t, c # q) (t', q)"

inductive ino_reachable :: "int \<Rightarrow> ino_table \<times> ino_op list \<Rightarrow> bool" for rank where
  start: "0 \<le> rank \<Longrightarrow> rank < MAX_MDS \<Longrightarrow> reset_state rank t = Some t' \<Longrightarrow> it_projected_version t = it_version t \<Longrightarrow>
     ino_reachable rank (t', [])"
| step: "ino_reachable rank s \<Longrightarrow> ino_step s s' \<Longrightarrow> ino_reachable rank s'"

text \<open>What a waiting change will do to the set of free numbers, and when it may do it.\<close>

fun op_effect :: "ino_op \<Rightarrow> int set \<Rightarrow> int set" where
  "op_effect (AllocId i) A = A - {i}"
| "op_effect (AllocIds ids) A = A - iv_set ids"
| "op_effect (ReleaseIds ids) A = A \<union> iv_set ids"

fun op_ok :: "ino_op \<Rightarrow> int set \<Rightarrow> bool" where
  "op_ok (AllocId i) A = (i \<in> A)"
| "op_ok (AllocIds ids) A = (iv_wf ids \<and> iv_set ids \<subseteq> A)"
| "op_ok (ReleaseIds ids) A = (iv_wf ids \<and> iv_set ids \<inter> A = {})"

fun pending_ok :: "ino_op list \<Rightarrow> int set \<Rightarrow> int set \<Rightarrow> bool" where
  "pending_ok [] A B = (A = B)"
| "pending_ok (c # q) A B = (op_ok c A \<and> pending_ok q (op_effect c A) B)"

definition ino_inv :: "ino_table \<times> ino_op list \<Rightarrow> bool" where
  "ino_inv s \<longleftrightarrow> (case s of (t, q) \<Rightarrow>
     iv_wf (it_free t) \<and> iv_wf (it_projected_free t) \<and>
     pending_ok q (iv_set (it_free t)) (iv_set (it_projected_free t)) \<and>
     it_projected_version t = it_version t + of_nat (length q))"

lemma pending_ok_snoc: "pending_ok q A B \<Longrightarrow> op_ok c B \<Longrightarrow> pending_ok (q @ [c]) A (op_effect c B)"
  by (induction q arbitrary: A) auto

lemma iv_erase_one:
  assumes "iv_wf s" "iv_erase s i 1 = Some s'"
  shows "i \<in> iv_set s \<and> iv_wf s' \<and> iv_set s' = iv_set s - {i}"
proof (rule iv_erase_cases [OF assms(1), of 1 i])
  fix s'' assume "iv_erase s i 1 = Some s''" "iv_wf s''" "{i ..< i + 1} \<subseteq> iv_set s"
    "iv_set s'' = iv_set s - {i ..< i + 1}"
  moreover have "{i ..< i + 1} = {i}" by auto
  ultimately show ?thesis using assms(2) by simp
qed (use assms(2) in simp_all)

lemma apply_op_ok:
  assumes "iv_wf (it_free t)" "op_ok c (iv_set (it_free t))"
  shows "\<exists>t'. apply_op c t = Some t' \<and> iv_wf (it_free t') \<and>
      iv_set (it_free t') = op_effect c (iv_set (it_free t)) \<and>
      it_projected_free t' = it_projected_free t \<and> it_version t' = it_version t + 1 \<and>
      it_projected_version t' = it_projected_version t"
proof (cases c)
  case (AllocId i)
  then show ?thesis
    using iv.del_one [OF assms(1), of i] assms(2) by (auto simp: apply_alloc_id_def)
next
  case (AllocIds ids)
  then show ?thesis
    using subtract_ok [OF assms(1), of ids] assms(2) by (auto simp: apply_alloc_ids_def)
next
  case (ReleaseIds ids)
  then show ?thesis
    using insert_set_ok [OF assms(1), of ids] assms(2) by (auto simp: apply_release_ids_def)
qed

lemma project_alloc_ids_ok:
  assumes "iv_wf (it_projected_free t)" "it_active t" "0 \<le> want" "want \<le> iv_size (it_projected_free t)"
  shows "\<exists>ids t'. project_alloc_ids iv_new want t = Some (ids, t') \<and> iv_wf ids \<and>
      iv_wf (it_projected_free t') \<and>
      iv_size ids = want \<and> initial_of (iv_set ids) (iv_set (it_projected_free t)) \<and>
      iv_set (it_projected_free t') = iv_set (it_projected_free t) - iv_set ids \<and>
      it_free t' = it_free t \<and> it_version t' = it_version t \<and>
      it_projected_version t' = it_projected_version t + 1"
proof -
  obtain p' ids A where "project_alloc_loop (it_projected_free t) iv_new want = Some (p', ids)"
    "iv_wf p'" "iv_wf ids" "iv_set p' = iv_set (it_projected_free t) - A" "iv_set ids = A"
    "initial_of A (iv_set (it_projected_free t))" "int (card A) = want"
    using project_alloc_loop_ok [OF assms(1) iv_wf_new _ assms(3,4)] by auto
  then show ?thesis using assms(2) by (auto simp: project_alloc_ids_def iv_size_card)
qed

lemma reset_state_ok:
  assumes "0 \<le> rank" "rank < MAX_MDS" "reset_state rank t = Some t'"
  shows "iv_wf (it_free t') \<and> it_projected_free t' = it_free t' \<and> it_version t' = it_version t \<and>
      it_projected_version t' = it_projected_version t"
proof -
  let ?st = "uint (push_bit 40 (word_of_int (rank + 1) :: u64))" and ?len = "uint (push_bit 40 (1 :: u64))"
  have len: "0 < ?len" by simp
  have "push_bit 40 (word_of_int (rank + 1)) = (word_of_int ((rank + 1) * 2 ^ 40) :: u64)"
    by (simp add: push_bit_eq_mult)
  then have "?st = (rank + 1) * 2 ^ 40"
    using assms(1,2) by (simp only: unsigned_of_int) (simp add: MAX_MDS_def take_bit_int_eq_self)
  then have "extent (?st, ?len) \<subseteq> iv_space"
    using assms(1,2) extent_space [OF len, of ?st] by (simp add: MAX_MDS_def)
  from iv.ins_ok [OF iv_wf_new len this] obtain f where "iv_insert iv_new ?st ?len = Some f" "iv_wf f"
    unfolding iv_set_new by blast
  then show ?thesis
    using assms(3) unfolding reset_state_def Let_def iv_clear_new by auto
qed

lemma ino_step_inv: "ino_step s s' \<Longrightarrow> ino_inv s \<Longrightarrow> ino_inv s'"
proof (induction rule: ino_step.induct)
  case (project_one i t i' t' q)
  then obtain p where p: "iv_erase (it_projected_free t) i' 1 = Some p"
    "t' = t\<lparr>it_projected_free := p, it_projected_version := it_projected_version t + 1\<rparr>"
    by (auto simp: project_alloc_id_def Option.bind_eq_Some_conv split: if_splits)
  have "iv_wf (it_projected_free t)" using project_one by (simp add: ino_inv_def)
  then have "i' \<in> iv_set (it_projected_free t)" "iv_wf p" "iv_set p = iv_set (it_projected_free t) - {i'}"
    using iv_erase_one p(1) by blast+
  then show ?case
    using project_one.prems p(2) pending_ok_snoc [of q _ _ "AllocId i'"] by (auto simp: ino_inv_def)
next
  case (project_many want t ids t' q)
  have "iv_wf (it_projected_free t)" "it_active t"
    using project_many by (auto simp: ino_inv_def project_alloc_ids_def split: if_splits)
  from project_alloc_ids_ok [OF this project_many(2,3)] project_many
  show ?case
    using pending_ok_snoc [of q "iv_set (it_free t)" "iv_set (it_projected_free t)" "AllocIds ids"]
    by (auto simp: ino_inv_def initial_of_def)
next
  case (project_release ids t t' q)
  have "iv_wf (it_projected_free t)" using project_release by (simp add: ino_inv_def)
  from insert_set_ok [OF this project_release(2,3)] project_release
  show ?case
    using pending_ok_snoc [of q "iv_set (it_free t)" "iv_set (it_projected_free t)" "ReleaseIds ids"]
    by (auto simp: ino_inv_def project_release_ids_def Option.bind_eq_Some_conv)
next
  case (apply_first c t t' q)
  then show ?case using apply_op_ok [of t c] by (auto simp: ino_inv_def)
qed

lemma ino_reachable_inv: "ino_reachable rank s \<Longrightarrow> ino_inv s"
proof (induction rule: ino_reachable.induct)
  case (start t t')
  then show ?case using reset_state_ok by (auto simp: ino_inv_def)
qed (blast intro: ino_step_inv)


section \<open>Replay and recovery\<close>

text \<open>During replay nothing is in flight: the two sets and the two versions agree.\<close>

definition ino_quiet :: "ino_table \<Rightarrow> bool" where
  "ino_quiet t \<longleftrightarrow> iv_wf (it_free t) \<and> it_projected_free t = it_free t \<and>
     it_projected_version t = it_version t"

lemma bump_both_simps [simp]:
  "it_free (bump_both t) = it_free t" "it_projected_free (bump_both t) = it_projected_free t"
  "it_projected_version (bump_both t) = it_version t + 1" "it_version (bump_both t) = it_version t + 1"
  by (simp_all add: bump_both_def)

lemma replay_alloc_ids_ok:
  assumes "ino_quiet t" "iv_wf ids" "it_mds t"
  shows "\<exists>t'. replay_alloc_ids ids t = Some t' \<and> ino_quiet t' \<and>
      iv_set (it_free t') = iv_set (it_free t) - iv_set ids \<and> it_version t' = it_version t + 1"
proof -
  obtain is' where is': "intersection_of (it_free t) ids = Some is'" "iv_wf is'"
    "iv_set is' = iv_set (it_free t) \<inter> iv_set ids"
    using intersection_of_ok [of "it_free t" ids] assms by (auto simp: ino_quiet_def)
  define rm where "rm = (if iv_equal is' ids then ids else is')"
  have rm: "iv_wf rm" "iv_set rm = iv_set (it_free t) \<inter> iv_set ids"
    using is' assms iv_equal_iff [of is' ids] by (auto simp: rm_def)
  obtain f where "subtract (it_free t) rm = Some f" "iv_wf f" "iv_set f = iv_set (it_free t) - iv_set rm"
    using subtract_ok [of "it_free t" rm] assms(1) rm by (auto simp: ino_quiet_def)
  then show ?thesis
    using is'(1) rm assms(1,3) by (auto simp: replay_alloc_ids_def ino_quiet_def rm_def [symmetric])
qed

lemma replay_alloc_id_ok:
  assumes "ino_quiet t" "it_mds t"
  shows "\<exists>t'. replay_alloc_id i t = Some t' \<and> ino_quiet t' \<and>
      iv_set (it_free t') = iv_set (it_free t) - {i}"
  using assms iv.del_one [of "it_free t" i] iv_contains_iff [of "it_free t" i]
  by (auto simp: replay_alloc_id_def ino_quiet_def)

lemma replay_release_ids_ok:
  assumes "ino_quiet t" "iv_wf ids" "iv_set ids \<inter> iv_set (it_free t) = {}"
  shows "\<exists>t'. replay_release_ids ids t = Some t' \<and> ino_quiet t' \<and>
      iv_set (it_free t') = iv_set (it_free t) \<union> iv_set ids"
  using assms insert_set_ok [of "it_free t" ids]
  by (auto simp: replay_release_ids_def ino_quiet_def)

lemma skip_inos_ok:
  assumes "iv_wf (it_free t)" "0 < i" "range_start (it_free t) = Some first" "first + i < 2 ^ 63"
  shows "\<exists>t'. skip_inos i t = Some t' \<and> ino_quiet t' \<and>
      iv_set (it_free t') = {j \<in> iv_set (it_free t). first + i \<le> j}"
proof -
  obtain s0 where s0: "iv_insert iv_new first i = Some s0" "iv_wf s0" "iv_set s0 = {first ..< first + i}"
    using iv.ins_ok [OF iv_wf_new assms(2), of first] extent_space [OF assms(2), of first] assms(4)
      range_start_least [OF assms(1,3)] iv_set_space [OF assms(1)] by (auto simp: extent_def)
  then obtain s where s: "intersection_of s0 (it_free t) = Some s" "iv_wf s"
    "iv_set s = {first ..< first + i} \<inter> iv_set (it_free t)"
    using intersection_of_ok assms(1) by metis
  obtain f where f: "subtract (it_free t) s = Some f" "iv_wf f" "iv_set f = iv_set (it_free t) - iv_set s"
    using subtract_ok [OF assms(1) s(2)] s(3) by auto
  have "iv_set f = {j \<in> iv_set (it_free t). first + i \<le> j}"
    using f(3) s(3) range_start_least [OF assms(1,3)] by force
  then show ?thesis
    using s0(1) s(1) f(1,2) assms(3) by (auto simp: skip_inos_def ino_quiet_def)
qed

text \<open>
  \<^verbatim>\<open>force_consume_to\<close> is documented to consume everything up to the given number. It erases
  one range from the first free number on, so it aborts when a number below is already in use.
\<close>

lemma force_consume_to_hole:
  assumes "iv_wf (it_free t)" "i \<in> iv_set (it_free t)" "range_start (it_free t) = Some first"
    "first \<le> j" "j < i" "j \<notin> iv_set (it_free t)"
  shows "force_consume_to i t = None"
proof -
  have c: "iv_contains (it_free t) i" using assms(1,2) by (simp add: iv_contains_iff)
  have mn: "fst (iv_m (it_free t) ! 0) = first"
    using assms(3) by (auto simp: range_start_def split: if_splits)
  have "\<not> {first ..< first + (i - first + 1)} \<subseteq> iv_set (it_free t)" using assms(4-6) by force
  moreover have "0 \<le> first" "i < 2 ^ 63"
    using range_start_least [OF assms(1,3)] iv_set_space [OF assms(1)] assms(2) by auto
  then have "0 < i - first + 1" "i - first + 1 \<le> 2 ^ 63" "wrap_u64 (i - first + 1) = i - first + 1"
    using assms(4,5) by (auto intro!: wrap_u64_id)
  moreover from this have "iv_erase (it_free t) first (i - first + 1) = None"
    using iv_erase_cases [OF assms(1)] calculation(1) by (metis option.distinct(1))
  ultimately show ?thesis using c mn by (simp add: force_consume_to_def)
qed


section \<open>Properties\<close>

text \<open>
  C36: in every reachable state of the allocator, projecting the waiting changes onto the free set
  gives the projected set, each waiting change is applicable when its turn comes, and the versions
  differ by the number of waiting changes.
\<close>

theorem ino_projection_invariant:
  assumes "ino_reachable rank (t, q)"
  shows "iv_wf (it_free t) \<and> iv_wf (it_projected_free t) \<and>
    pending_ok q (iv_set (it_free t)) (iv_set (it_projected_free t)) \<and>
    it_projected_version t = it_version t + of_nat (length q)"
  using ino_reachable_inv [OF assms] by (simp add: ino_inv_def)

definition ino_example :: ino_table where
  "ino_example = \<lparr>it_free = iv_new, it_projected_free = iv_new, it_version = 0,
     it_projected_version = 0, it_active = True, it_mds = True\<rparr>"

lemma ino_example_reset:
  "\<exists>t. reset_state 0 ino_example = Some t \<and> iv_m (it_projected_free t) = [(2 ^ 40, 2 ^ 40)] \<and>
     iv_wf (it_projected_free t) \<and> it_active t"
  by (simp add: reset_state_def ino_example_def iv_insert_def iv_insert_at_def find_adj_def
      omap_lower_bound_def iv_new_def iv_wf_def iv_wf_m_def iv_fits_def wrap_s64_def push_bit_eq_mult)

lemma ino_example_pending: "\<exists>t c. ino_reachable 0 (t, [c])"
proof -
  obtain t where t: "reset_state 0 ino_example = Some t" "iv_m (it_projected_free t) = [(2 ^ 40, 2 ^ 40)]"
    "iv_wf (it_projected_free t)" "it_active t"
    using ino_example_reset by blast
  have "range_start (it_projected_free t) = Some (2 ^ 40)" "2 ^ 40 \<in> iv_set (it_projected_free t)"
    using t(2) by (simp_all add: range_start_def iv_empty_def iv_set_def)
  then obtain t' where "project_alloc_id 0 t = Some (2 ^ 40, t')"
    using iv.del_one [OF t(3), of "2 ^ 40"] t(4) by (auto simp: project_alloc_id_def)
  then have "ino_step (t, []) (t', [] @ [AllocId (2 ^ 40)])" by (rule ino_step.project_one)
  moreover have "ino_reachable 0 (t, [])"
    using ino_reachable.start [OF _ _ t(1)] by (simp add: ino_example_def MAX_MDS_def)
  ultimately show ?thesis using ino_reachable.step by fastforce
qed

theorem ino_projection_invariant_witness:
  "\<exists>t c. ino_reachable 0 (t, [c]) \<and> pending_ok [c] (iv_set (it_free t)) (iv_set (it_projected_free t))"
  using ino_example_pending ino_projection_invariant [of 0 _ "[_]"] by blast

text \<open>
  C37: applying the change that is due never aborts in a reachable state: the assertions inside
  \<^verbatim>\<open>interval_set\<close> hold for every journaled allocation and release.
\<close>

theorem ino_apply_never_aborts:
  assumes "ino_reachable rank (t, c # q)"
  shows "\<exists>t'. apply_op c t = Some t'"
  using ino_reachable_inv [OF assms] apply_op_ok [of t c] by (auto simp: ino_inv_def)

theorem ino_apply_never_aborts_witness:
  "\<exists>t c. ino_reachable 0 (t, [c]) \<and> (\<exists>t'. apply_op c t = Some t')"
  using ino_example_pending ino_apply_never_aborts by blast

text \<open>
  C38: a batch allocation that asks for no more numbers than are free terminates and returns exactly
  as many as asked, all of them free before, the lowest ones first, and none of them free after.
\<close>

theorem project_alloc_ids_exact:
  assumes "iv_wf (it_projected_free t)" "it_active t" "0 \<le> want" "want \<le> iv_size (it_projected_free t)"
  shows "\<exists>ids t'. project_alloc_ids iv_new want t = Some (ids, t') \<and>
      iv_size ids = want \<and> initial_of (iv_set ids) (iv_set (it_projected_free t)) \<and>
      iv_set (it_projected_free t') = iv_set (it_projected_free t) - iv_set ids \<and>
      it_free t' = it_free t"
  using project_alloc_ids_ok [OF assms] by blast

theorem project_alloc_ids_exact_witness:
  "\<exists>ids t'. project_alloc_ids iv_new 3 (ino_example\<lparr>it_projected_free := iv_example\<rparr>) = Some (ids, t') \<and>
      iv_size ids = 3"
  using project_alloc_ids_exact [of "ino_example\<lparr>it_projected_free := iv_example\<rparr>" 3]
  by (auto simp: iv_example_wf) (auto simp: iv_example_def ino_example_def)

text \<open>
  C39: journal replay of an allocation on a running server never aborts, whatever numbers the entry
  names: those still free are removed, the others are ignored, and the two sets and versions agree
  afterwards. Without a server it aborts.
\<close>

theorem replay_alloc_total:
  assumes "ino_quiet t" "iv_wf ids"
  shows "if it_mds t
    then \<exists>t'. replay_alloc_ids ids t = Some t' \<and> ino_quiet t' \<and>
      iv_set (it_free t') = iv_set (it_free t) - iv_set ids \<and> it_version t' = it_version t + 1
    else replay_alloc_ids ids t = None"
  using replay_alloc_ids_ok [OF assms] by (auto simp: replay_alloc_ids_def)

theorem replay_alloc_total_witness:
  "\<exists>t'. replay_alloc_ids (iv_of_map [(1, 4)]) (ino_example\<lparr>it_free := iv_example, it_projected_free := iv_example\<rparr>) = Some t' \<and>
      ino_quiet t' \<and> iv_set (it_free t') = {0, 5}"
proof -
  have ids: "iv_wf (iv_of_map [(1, 4)])" "iv_set (iv_of_map [(1, 4)]) = {1 ..< 5}"
    using iv_of_map_wf [of "[(1, 4)]"] by (simp_all add: iv_wf_m_Cons)
  have "{0, 1, 4, 5} - {1 ..< 5} = {0, 5 :: int}" by auto
  then show ?thesis
    using replay_alloc_total [OF _ ids(1), of "ino_example\<lparr>it_free := iv_example, it_projected_free := iv_example\<rparr>"]
    by (auto simp: ino_quiet_def ino_example_def iv_example_wf iv_example_set ids(2))
qed

end
