(* ===== verification/MonStore.thy ===== *)
theory MonStore
  imports Prelude "HOL-Library.Monad_Syntax"
begin

text \<open>
  \<^verbatim>\<open>mon/MonitorDBStore.h\<close>: the monitor's transactional key/value store. The database below it
  (\<^verbatim>\<open>KeyValueDB\<close>) applies a transaction atomically and durably or the monitor asserts, so the
  store is a map and a transaction is a list of operations applied in order.

  A \<^verbatim>\<open>bufferlist\<close> is tagged with what was encoded into it: a version number, a transaction, or
  bytes that the monitor's consensus layer never decodes. Decoding as something else raises in the
  code and gives \<open>None\<close> here. Keys printed from a version number (\<^verbatim>\<open>os << ver\<close>) are kept apart
  from named keys, none of which is a decimal number.
\<close>

section \<open>Definitions\<close>

datatype db_key = Name string | Ver nat

datatype db_op =
  OP_PUT string db_key bufferlist
| OP_ERASE string db_key
| OP_COMPACT string db_key db_key
and bufferlist = BL_version nat | BL_tx "db_op list" | BL_bytes string

type_synonym tx = "db_op list"
type_synonym store = "string \<times> db_key \<rightharpoonup> bufferlist"

text \<open>\<^verbatim>\<open>bl.length() == 0\<close>: an encoded number or transaction is never empty.\<close>

definition bl_null :: "bufferlist \<Rightarrow> bool" where
  "bl_null bl = (case bl of BL_bytes bs \<Rightarrow> bs = [] | _ \<Rightarrow> False)"

abbreviation bl_empty :: bufferlist where
  "bl_empty \<equiv> BL_bytes []"

definition tx_put :: "string \<Rightarrow> db_key \<Rightarrow> bufferlist \<Rightarrow> tx \<Rightarrow> tx" where
  "tx_put prefix key bl t = t @ [OP_PUT prefix key bl]"

definition tx_put_ver :: "string \<Rightarrow> nat \<Rightarrow> bufferlist \<Rightarrow> tx \<Rightarrow> tx" where
  "tx_put_ver prefix ver bl t = tx_put prefix (Ver ver) bl t"

definition tx_put_num :: "string \<Rightarrow> string \<Rightarrow> nat \<Rightarrow> tx \<Rightarrow> tx" where
  "tx_put_num prefix key ver t = tx_put prefix (Name key) (BL_version ver) t"

definition tx_erase :: "string \<Rightarrow> db_key \<Rightarrow> tx \<Rightarrow> tx" where
  "tx_erase prefix key t = t @ [OP_ERASE prefix key]"

definition tx_erase_ver :: "string \<Rightarrow> nat \<Rightarrow> tx \<Rightarrow> tx" where
  "tx_erase_ver prefix ver t = tx_erase prefix (Ver ver) t"

definition tx_compact_range :: "string \<Rightarrow> db_key \<Rightarrow> db_key \<Rightarrow> tx \<Rightarrow> tx" where
  "tx_compact_range prefix start en t = t @ [OP_COMPACT prefix start en]"

definition tx_encode :: "tx \<Rightarrow> bufferlist" where
  "tx_encode t = BL_tx t"

definition tx_decode :: "bufferlist \<Rightarrow> tx option" where
  "tx_decode bl = (case bl of BL_tx t \<Rightarrow> Some t | _ \<Rightarrow> None)"

text \<open>\<^verbatim>\<open>append_from_encoded\<close>, and \<^verbatim>\<open>Paxos::decode_append_transaction\<close>.\<close>

definition decode_append_transaction :: "tx \<Rightarrow> bufferlist \<Rightarrow> tx option" where
  "decode_append_transaction t bl = do { vt \<leftarrow> tx_decode bl; Some (t @ vt) }"

text \<open>Compaction does not change what the store holds.\<close>

fun apply_op :: "store \<Rightarrow> db_op \<Rightarrow> store" where
  "apply_op st (OP_PUT prefix key bl) = st((prefix, key) \<mapsto> bl)"
| "apply_op st (OP_ERASE prefix key) = st((prefix, key) := None)"
| "apply_op st (OP_COMPACT prefix start en) = st"

definition apply_transaction :: "store \<Rightarrow> tx \<Rightarrow> store" where
  "apply_transaction st t = foldl apply_op st t"

definition store_get :: "store \<Rightarrow> string \<Rightarrow> nat \<Rightarrow> bufferlist option" where
  "store_get st prefix ver = st (prefix, Ver ver)"

text \<open>
  \<^verbatim>\<open>get(prefix, key)\<close>: a missing key reads as 0; a value that is empty or not a number
  aborts.
\<close>

definition store_get_num :: "store \<Rightarrow> string \<Rightarrow> string \<Rightarrow> nat option" where
  "store_get_num st prefix key =
     (case st (prefix, Name key) of
        None \<Rightarrow> Some 0
      | Some (BL_version v) \<Rightarrow> Some v
      | Some _ \<Rightarrow> None)"

definition store_exists :: "store \<Rightarrow> string \<Rightarrow> nat \<Rightarrow> bool" where
  "store_exists st prefix ver = (st (prefix, Ver ver) \<noteq> None)"

section \<open>Lemmas\<close>

lemmas tx_defs = tx_put_def tx_put_ver_def tx_put_num_def tx_erase_def tx_erase_ver_def
  tx_compact_range_def tx_encode_def

lemma tx_decode_encode [simp]: "tx_decode (tx_encode t) = Some t"
  by (simp add: tx_decode_def tx_encode_def)

lemma tx_decode_Some: "tx_decode bl = Some t \<longleftrightarrow> bl = BL_tx t"
  by (auto simp: tx_decode_def split: bufferlist.splits)

lemma bl_null_simps [simp]:
  "\<not> bl_null (BL_version v)" "\<not> bl_null (BL_tx t)" "bl_null (BL_bytes bs) \<longleftrightarrow> bs = []"
  by (simp_all add: bl_null_def)

lemma apply_transaction_Nil [simp]: "apply_transaction st [] = st"
  by (simp add: apply_transaction_def)

lemma apply_transaction_Cons [simp]:
  "apply_transaction st (x # t) = apply_transaction (apply_op st x) t"
  by (simp add: apply_transaction_def)

lemma apply_transaction_append [simp]:
  "apply_transaction st (t @ u) = apply_transaction (apply_transaction st t) u"
  by (simp add: apply_transaction_def)

text \<open>The keys an operation writes, and the frame property of a transaction.\<close>

fun op_key :: "db_op \<Rightarrow> (string \<times> db_key) set" where
  "op_key (OP_PUT prefix key bl) = {(prefix, key)}"
| "op_key (OP_ERASE prefix key) = {(prefix, key)}"
| "op_key (OP_COMPACT prefix start en) = {}"

definition tx_keys :: "tx \<Rightarrow> (string \<times> db_key) set" where
  "tx_keys t = (\<Union>x \<in> set t. op_key x)"

lemma tx_keys_simps [simp]:
  "tx_keys [] = {}" "tx_keys (x # t) = op_key x \<union> tx_keys t" "tx_keys (t @ u) = tx_keys t \<union> tx_keys u"
  by (auto simp: tx_keys_def)

lemma apply_op_frame: "k \<notin> op_key x \<Longrightarrow> apply_op st x k = st k"
  by (cases x) auto

lemma apply_transaction_frame: "k \<notin> tx_keys t \<Longrightarrow> apply_transaction st t k = st k"
  by (induction t arbitrary: st) (auto simp: apply_op_frame)

end
