(* ===== verification/Paxos.thy ===== *)
theory Paxos
  imports MonStore
begin

text \<open>
  \<^verbatim>\<open>mon/Paxos.cc\<close>, \<^verbatim>\<open>mon/Paxos.h\<close> and \<^verbatim>\<open>messages/MMonPaxos.h\<close>: the consensus layer of the monitors, one
  definition per method. A handler takes the monitor's view (rank, role, quorum, election epoch),
  the clock where it reads it, and the state; it returns the new state and the effects it had on
  the rest of the process, in order, or \<open>None\<close> where the code asserts.

  Conventions. Version numbers and proposal numbers are unbounded naturals (the code's are
  64-bit counters). \<^verbatim>\<open>mon->store\<close> is part of the state; \<open>queued\<close> are the transactions handed to the
  store's I/O thread and \<open>oncommit\<close> counts the completions it has not delivered yet. A pending
  timer is a boolean. \<^verbatim>\<open>mon->bootstrap()\<close> is always the last thing a handler does and is the effect
  \<open>Bootstrap\<close>; the monitor answers it by \<open>restart\<close>. A waiting \<^verbatim>\<open>Context\<close> that is completed is the
  effect \<open>Finish\<close>: what it does next is a later step, except for \<^verbatim>\<open>C_Trimmed\<close>, which belongs to this
  file. \<^verbatim>\<open>mon->refresh_from_paxos\<close> is the argument \<open>need_bootstrap\<close>, its answer on the current store.
  Logging, performance counters, the clock-drift warning and the \<^verbatim>\<open>paxos_kill_at\<close> test aborts
  (off by default) are left out.
\<close>

section \<open>State\<close>

datatype px_state =
  STATE_RECOVERING | STATE_ACTIVE | STATE_UPDATING | STATE_UPDATING_PREVIOUS
| STATE_WRITING | STATE_WRITING_PREVIOUS | STATE_REFRESH

datatype px_op = OP_COLLECT | OP_LAST | OP_BEGIN | OP_ACCEPT | OP_COMMIT | OP_LEASE | OP_LEASE_ACK

record mmon_paxos =
  m_epoch :: nat
  m_op :: px_op
  m_first_committed :: nat
  m_last_committed :: nat
  m_pn_from :: nat
  m_pn :: nat
  m_uncommitted_pn :: nat
  m_lease_timestamp :: nat
  m_sent_timestamp :: nat
  m_values :: "(nat, bufferlist) omap"

definition new_mmon_paxos :: "nat \<Rightarrow> px_op \<Rightarrow> nat \<Rightarrow> mmon_paxos" where
  "new_mmon_paxos e oper now =
     \<lparr>m_epoch = e, m_op = oper, m_first_committed = 0, m_last_committed = 0, m_pn_from = 0, m_pn = 0,
      m_uncommitted_pn = 0, m_lease_timestamp = 0, m_sent_timestamp = now, m_values = []\<rparr>"

text \<open>\<^verbatim>\<open>m->values[v]\<close>: a missing entry reads as the empty buffer.\<close>

definition values_at :: "mmon_paxos \<Rightarrow> nat \<Rightarrow> bufferlist" where
  "values_at m v = (case map_of (m_values m) v of Some bl \<Rightarrow> bl | None \<Rightarrow> bl_empty)"

text \<open>The monitor that owns this instance, as far as the consensus layer reads it.\<close>

datatype mon_state = MON_PROBING | MON_SYNCHRONIZING | MON_ELECTING | MON_LEADER | MON_PEON | MON_SHUTDOWN

record mon_view =
  mv_rank :: nat
  mv_state :: mon_state
  mv_leader :: nat
  mv_quorum :: "nat list"
  mv_monmap_size :: nat
  mv_epoch :: nat

definition is_leader :: "mon_view \<Rightarrow> bool" where
  "is_leader mon = (mv_state mon = MON_LEADER)"

definition is_peon :: "mon_view \<Rightarrow> bool" where
  "is_peon mon = (mv_state mon = MON_PEON)"

record px_conf =
  mon_lease :: nat
  paxos_min :: nat
  paxos_trim_min :: nat
  paxos_trim_max :: nat
  mon_compact_on_trim :: bool

datatype ctx = C_user nat | C_Trimmed

datatype effect =
  Send nat mmon_paxos
| Reply mmon_paxos
| Bootstrap
| Finish nat int

record paxos =
  px_state :: px_state
  first_committed :: nat
  last_pn :: nat
  last_committed :: nat
  accepted_pn :: nat
  accepted_pn_from :: nat
  peer_first_committed :: "(nat, nat) omap"
  peer_last_committed :: "(nat, nat) omap"
  lease_expire :: nat
  waiting_for_active :: "ctx list"
  waiting_for_readable :: "ctx list"
  num_last :: nat
  uncommitted_v :: nat
  uncommitted_pn :: nat
  uncommitted_value :: bufferlist
  collect_timeout_event :: bool
  acked_lease :: "nat set"
  lease_renew_event :: bool
  lease_ack_timeout_event :: bool
  lease_timeout_event :: bool
  new_value :: bufferlist
  accepted :: "nat set"
  accept_timeout_event :: bool
  waiting_for_writeable :: "ctx list"
  waiting_for_commit :: "ctx list"
  pending_proposal :: "tx option"
  pending_finishers :: "ctx list"
  committing_finishers :: "ctx list"
  trimming :: bool
  plugged :: bool
  px_store :: store
  queued :: "tx list"
  oncommit :: nat

type_synonym px_result = "(paxos \<times> effect list) option"

text \<open>The constructor, over the store of the monitor.\<close>

definition new_paxos :: "store \<Rightarrow> paxos" where
  "new_paxos st =
     \<lparr>px_state = STATE_RECOVERING, first_committed = 0, last_pn = 0, last_committed = 0,
      accepted_pn = 0, accepted_pn_from = 0, peer_first_committed = [], peer_last_committed = [],
      lease_expire = 0, waiting_for_active = [], waiting_for_readable = [], num_last = 0,
      uncommitted_v = 0, uncommitted_pn = 0, uncommitted_value = bl_empty,
      collect_timeout_event = False, acked_lease = {}, lease_renew_event = False,
      lease_ack_timeout_event = False, lease_timeout_event = False, new_value = bl_empty,
      accepted = {}, accept_timeout_event = False, waiting_for_writeable = [],
      waiting_for_commit = [], pending_proposal = None, pending_finishers = [],
      committing_finishers = [], trimming = False, plugged = False, px_store = st, queued = [],
      oncommit = 0\<rparr>"

abbreviation px_name :: string where
  "px_name \<equiv> ''paxos''"

definition is_recovering :: "paxos \<Rightarrow> bool" where
  "is_recovering p = (px_state p = STATE_RECOVERING)"

definition is_active :: "paxos \<Rightarrow> bool" where
  "is_active p = (px_state p = STATE_ACTIVE)"

definition is_updating :: "paxos \<Rightarrow> bool" where
  "is_updating p = (px_state p = STATE_UPDATING)"

definition is_updating_previous :: "paxos \<Rightarrow> bool" where
  "is_updating_previous p = (px_state p = STATE_UPDATING_PREVIOUS)"

definition is_writing :: "paxos \<Rightarrow> bool" where
  "is_writing p = (px_state p = STATE_WRITING)"

definition is_writing_previous :: "paxos \<Rightarrow> bool" where
  "is_writing_previous p = (px_state p = STATE_WRITING_PREVIOUS)"

definition is_refresh :: "paxos \<Rightarrow> bool" where
  "is_refresh p = (px_state p = STATE_REFRESH)"

lemmas px_state_defs = is_recovering_def is_active_def is_updating_def is_updating_previous_def
  is_writing_def is_writing_previous_def is_refresh_def

section \<open>Store access\<close>

definition px_get_num :: "paxos \<Rightarrow> string \<Rightarrow> nat option" where
  "px_get_num p key = store_get_num (px_store p) px_name key"

definition px_exists :: "paxos \<Rightarrow> nat \<Rightarrow> bool" where
  "px_exists p v = store_exists (px_store p) px_name v"

definition px_apply :: "paxos \<Rightarrow> tx \<Rightarrow> paxos" where
  "px_apply p t = p\<lparr>px_store := apply_transaction (px_store p) t\<rparr>"

text \<open>\<^verbatim>\<open>read_and_prepare_transactions\<close>: the loop \<^verbatim>\<open>for (v = first; v <= last; ++v)\<close>.\<close>

definition read_and_prepare_transactions :: "paxos \<Rightarrow> tx \<Rightarrow> nat \<Rightarrow> nat \<Rightarrow> tx option" where
  "read_and_prepare_transactions p t first lst =
     fold_opt (\<lambda>t v. do {
       bl \<leftarrow> store_get (px_store p) px_name v;
       check (\<not> bl_null bl);
       decode_append_transaction t bl }) t [first ..< Suc lst]"

definition is_consistent :: "paxos \<Rightarrow> bool" where
  "is_consistent p = (first_committed p \<le> last_committed p)"

definition init :: "paxos \<Rightarrow> paxos option" where
  "init p = do {
     lpn \<leftarrow> px_get_num p ''last_pn'';
     apn \<leftarrow> px_get_num p ''accepted_pn'';
     lc \<leftarrow> px_get_num p ''last_committed'';
     fc \<leftarrow> px_get_num p ''first_committed'';
     let p = p\<lparr>last_pn := lpn, accepted_pn := apn, last_committed := lc, first_committed := fc\<rparr>;
     check (is_consistent p);
     Some p }"

section \<open>Contexts, events and proposal numbers\<close>

text \<open>\<^verbatim>\<open>finish_contexts\<close>: the list is taken, then each context is completed with \<^verbatim>\<open>r\<close>.\<close>

fun finish_ctx :: "int \<Rightarrow> ctx \<Rightarrow> paxos \<times> effect list \<Rightarrow> paxos \<times> effect list" where
  "finish_ctx r (C_user c) (p, es) = (p, es @ [Finish c r])"
| "finish_ctx r C_Trimmed (p, es) = (p\<lparr>trimming := False\<rparr>, es)"

definition finish_contexts :: "int \<Rightarrow> ctx list \<Rightarrow> paxos \<Rightarrow> paxos \<times> effect list" where
  "finish_contexts r cs p = fold (finish_ctx r) cs (p, [])"

definition EAGAIN :: int where "EAGAIN = 11"
definition ECANCELED :: int where "ECANCELED = 125"

definition cancel_events :: "paxos \<Rightarrow> paxos" where
  "cancel_events p = p\<lparr>collect_timeout_event := False, accept_timeout_event := False,
     lease_renew_event := False, lease_ack_timeout_event := False, lease_timeout_event := False\<rparr>"

definition reset_lease_timeout :: "paxos \<Rightarrow> paxos" where
  "reset_lease_timeout p = p\<lparr>lease_timeout_event := True\<rparr>"

definition get_new_proposal_number :: "mon_view \<Rightarrow> nat \<Rightarrow> paxos \<Rightarrow> paxos" where
  "get_new_proposal_number mon gt p =
     (let pn = (if last_pn p < gt then gt else last_pn p);
          pn = pn div 100;
          pn = pn + 1;
          pn = pn * 100;
          pn = pn + mv_rank mon;
          p = p\<lparr>last_pn := pn\<rparr>
      in px_apply p (tx_put_num px_name ''last_pn'' pn []))"

text \<open>The messages of a broadcast: everyone in the quorum but ourselves, in rank order.\<close>

definition bcast :: "mon_view \<Rightarrow> mmon_paxos \<Rightarrow> effect list" where
  "bcast mon m = map (\<lambda>r. Send r m) (filter (\<lambda>r. r \<noteq> mv_rank mon) (mv_quorum mon))"

section \<open>Phase 1: recovery\<close>

text \<open>What a monitor knows about the value it accepted and has not committed: its \<^verbatim>\<open>pn\<close>.\<close>

definition pending_pn_for :: "paxos \<Rightarrow> nat \<Rightarrow> nat option" where
  "pending_pn_for p fallback = do {
     v \<leftarrow> px_get_num p ''pending_v'';
     pn \<leftarrow> px_get_num p ''pending_pn'';
     Some (if v \<noteq> 0 \<and> pn \<noteq> 0 \<and> v = last_committed p + 1 then pn else fallback) }"

definition collect :: "mon_view \<Rightarrow> nat \<Rightarrow> nat \<Rightarrow> paxos \<Rightarrow> px_result" where
  "collect mon now oldpn p = do {
     let p = p\<lparr>px_state := STATE_RECOVERING\<rparr>;
     check (is_leader mon);
     let p = p\<lparr>uncommitted_v := 0, uncommitted_pn := 0, uncommitted_value := bl_empty,
               peer_first_committed := [], peer_last_committed := []\<rparr>;
     p \<leftarrow> (if px_exists p (last_committed p + 1) then do {
             pn \<leftarrow> pending_pn_for p (accepted_pn p);
             bl \<leftarrow> store_get (px_store p) px_name (last_committed p + 1);
             check (\<not> bl_null bl);
             Some (p\<lparr>uncommitted_pn := pn, uncommitted_v := last_committed p + 1,
                     uncommitted_value := bl\<rparr>) }
           else Some p);
     let p = get_new_proposal_number mon (max (accepted_pn p) oldpn) p;
     let p = p\<lparr>accepted_pn := last_pn p, accepted_pn_from := last_committed p, num_last := 1\<rparr>;
     let es = bcast mon ((new_mmon_paxos (mv_epoch mon) OP_COLLECT now)
                \<lparr>m_last_committed := last_committed p, m_first_committed := first_committed p,
                 m_pn := accepted_pn p\<rparr>);
     Some (p\<lparr>collect_timeout_event := True\<rparr>, es) }"

text \<open>\<^verbatim>\<open>share_state\<close>: the loop over \<^verbatim>\<open>[peer_last_committed + 1, last_committed]\<close>.\<close>

definition share_state :: "paxos \<Rightarrow> nat \<Rightarrow> mmon_paxos \<Rightarrow> mmon_paxos option" where
  "share_state p peer_lc m = do {
     check (peer_lc < last_committed p);
     m \<leftarrow> fold_opt (\<lambda>m v.
            if px_exists p v then do {
              bl \<leftarrow> store_get (px_store p) px_name v;
              check (\<not> bl_null bl);
              Some (m\<lparr>m_values := omap_put v bl (m_values m)\<rparr>) }
            else Some m) m [peer_lc + 1 ..< Suc (last_committed p)];
     Some (m\<lparr>m_last_committed := last_committed p\<rparr>) }"

text \<open>The parts of \<^verbatim>\<open>handle_collect\<close>: accepting the number, and reporting an uncommitted value.\<close>

definition accept_collect_pn :: "mmon_paxos \<Rightarrow> paxos \<Rightarrow> paxos" where
  "accept_collect_pn m p =
     (if m_pn m > accepted_pn p then
        px_apply (p\<lparr>accepted_pn := m_pn m, accepted_pn_from := m_pn_from m\<rparr>)
          (tx_put_num px_name ''accepted_pn'' (m_pn m) [])
      else p)"

definition report_uncommitted :: "mmon_paxos \<Rightarrow> nat \<Rightarrow> paxos \<Rightarrow> mmon_paxos \<Rightarrow> mmon_paxos option" where
  "report_uncommitted m previous_pn p l =
     (if m_last_committed m \<le> last_committed p \<and> px_exists p (last_committed p + 1) then do {
        bl \<leftarrow> store_get (px_store p) px_name (last_committed p + 1);
        check (\<not> bl_null bl);
        pn \<leftarrow> pending_pn_for p previous_pn;
        Some (l\<lparr>m_values := omap_put (last_committed p + 1) bl (m_values l), m_uncommitted_pn := pn\<rparr>) }
      else Some l)"

definition handle_collect :: "mon_view \<Rightarrow> nat \<Rightarrow> mmon_paxos \<Rightarrow> paxos \<Rightarrow> px_result" where
  "handle_collect mon now m p = do {
     check (is_peon mon);
     let p = reset_lease_timeout (p\<lparr>px_state := STATE_RECOVERING\<rparr>);
     if m_first_committed m > last_committed p + 1 then Some (p, [Bootstrap])
     else do {
       let l = (new_mmon_paxos (mv_epoch mon) OP_LAST now)
                 \<lparr>m_last_committed := last_committed p, m_first_committed := first_committed p\<rparr>;
       let previous_pn = accepted_pn p;
       let p = accept_collect_pn m p;
       let l = l\<lparr>m_pn := accepted_pn p, m_pn_from := accepted_pn_from p\<rparr>;
       l \<leftarrow> (if m_last_committed m < last_committed p
             then share_state p (m_last_committed m) l else Some l);
       l \<leftarrow> report_uncommitted m previous_pn p l;
       Some (p, [Reply l]) } }"

definition sanity_check_store :: "paxos \<Rightarrow> unit option" where
  "sanity_check_store p = do {
     lc \<leftarrow> px_get_num p ''last_committed'';
     check (lc = last_committed p) }"

text \<open>
  \<^verbatim>\<open>store_state\<close>: the two iterator loops cut the message's (ordered) values down to
  \<^verbatim>\<open>[start, end)\<close>: those above \<^verbatim>\<open>last_committed\<close> and up to the message's \<^verbatim>\<open>last_committed\<close>.
\<close>

definition store_range :: "mmon_paxos \<Rightarrow> paxos \<Rightarrow> (nat, bufferlist) omap" where
  "store_range m p =
     takeWhile (\<lambda>(v, _). v \<le> m_last_committed m)
       (dropWhile (\<lambda>(v, _). v \<le> last_committed p) (m_values m))"

definition store_state :: "mmon_paxos \<Rightarrow> paxos \<Rightarrow> (paxos \<times> bool) option" where
  "store_state m p =
     (if m_values m \<noteq> [] \<and> fst (hd (m_values m)) > last_committed p + 1 then Some (p, False)
      else let r = store_range m p in
        if r = [] then Some (p, False)
        else do {
          let p = p\<lparr>last_committed := fst (last r)\<rparr>;
          t \<leftarrow> fold_opt (\<lambda>t (v, bl). decode_append_transaction (tx_put_ver px_name v bl t) bl)
                 (tx_put_num px_name ''last_committed'' (last_committed p) []) r;
          let p = (if uncommitted_v p \<noteq> 0 \<and> uncommitted_v p \<le> last_committed p
                   then p\<lparr>uncommitted_v := 0, uncommitted_pn := 0, uncommitted_value := bl_empty\<rparr>
                   else p);
          let p = px_apply p t;
          fc \<leftarrow> px_get_num p ''first_committed'';
          let p = p\<lparr>first_committed := fc\<rparr>;
          sanity_check_store p;
          Some (p, True) })"

section \<open>Leases\<close>

definition extend_lease :: "px_conf \<Rightarrow> mon_view \<Rightarrow> nat \<Rightarrow> paxos \<Rightarrow> px_result" where
  "extend_lease conf mon now p = do {
     check (is_leader mon);
     let p = p\<lparr>lease_expire := now + mon_lease conf, acked_lease := {mv_rank mon}\<rparr>;
     let es = bcast mon ((new_mmon_paxos (mv_epoch mon) OP_LEASE now)
                \<lparr>m_last_committed := last_committed p, m_lease_timestamp := lease_expire p,
                 m_first_committed := first_committed p\<rparr>);
     Some (p\<lparr>lease_ack_timeout_event := True, lease_renew_event := True\<rparr>, es) }"

definition is_lease_valid :: "mon_view \<Rightarrow> nat \<Rightarrow> paxos \<Rightarrow> bool" where
  "is_lease_valid mon now p = (length (mv_quorum mon) = 1 \<or> now < lease_expire p)"

definition is_readable :: "mon_view \<Rightarrow> nat \<Rightarrow> nat \<Rightarrow> paxos \<Rightarrow> bool" where
  "is_readable mon now v p =
     (if v > last_committed p then False
      else (is_peon mon \<or> is_leader mon) \<and>
           (is_active p \<or> is_updating p \<or> is_writing p) \<and>
           last_committed p > 0 \<and> is_lease_valid mon now p)"

text \<open>
  \<^verbatim>\<open>read\<close> returns the buffer it read, if any, and a flag; the store's \<^verbatim>\<open>get\<close> returns 0 on
  success and a negative error otherwise, which the method tests with \<^verbatim>\<open>!\<close>.
\<close>

definition store_get_err :: "store \<Rightarrow> string \<Rightarrow> nat \<Rightarrow> int" where
  "store_get_err st prefix v = (if store_get st prefix v = None then - 2 else 0)"

definition px_read :: "nat \<Rightarrow> paxos \<Rightarrow> bool \<times> bufferlist option" where
  "px_read v p =
     (if store_get_err (px_store p) px_name v = 0
      then (False, store_get (px_store p) px_name v)
      else (True, store_get (px_store p) px_name v))"

definition read_current :: "paxos \<Rightarrow> nat \<times> bufferlist option" where
  "read_current p =
     (let (ok, bl) = px_read (last_committed p) p
      in if ok then (last_committed p, bl) else (0, bl))"

definition is_writeable :: "mon_view \<Rightarrow> nat \<Rightarrow> paxos \<Rightarrow> bool" where
  "is_writeable mon now p = (is_leader mon \<and> is_active p \<and> is_lease_valid mon now p)"

definition handle_lease :: "mon_view \<Rightarrow> nat \<Rightarrow> mmon_paxos \<Rightarrow> paxos \<Rightarrow> px_result" where
  "handle_lease mon now m p =
     (if \<not> is_peon mon \<or> last_committed p \<noteq> m_last_committed m then Some (p, [])
      else let
        p = (if lease_expire p < m_lease_timestamp m
             then p\<lparr>lease_expire := m_lease_timestamp m\<rparr> else p);
        p = p\<lparr>px_state := STATE_ACTIVE\<rparr>;
        ack = (new_mmon_paxos (mv_epoch mon) OP_LEASE_ACK now)
                \<lparr>m_last_committed := last_committed p, m_first_committed := first_committed p,
                 m_lease_timestamp := now\<rparr>;
        p = reset_lease_timeout p;
        (p, e1) = finish_contexts 0 (waiting_for_active p) (p\<lparr>waiting_for_active := []\<rparr>);
        (p, e2) = (if is_readable mon now 0 p
                   then finish_contexts 0 (waiting_for_readable p) (p\<lparr>waiting_for_readable := []\<rparr>)
                   else (p, []))
      in Some (p, Reply ack # e1 @ e2))"

definition handle_lease_ack :: "mon_view \<Rightarrow> nat \<Rightarrow> paxos \<Rightarrow> px_result" where
  "handle_lease_ack mon from p =
     (if \<not> lease_ack_timeout_event p then Some (p, [])
      else if from \<notin> acked_lease p then
        let p = p\<lparr>acked_lease := insert from (acked_lease p)\<rparr>
        in if acked_lease p = set (mv_quorum mon)
           then Some (p\<lparr>lease_ack_timeout_event := False\<rparr>, [])
           else Some (p, [])
      else Some (p, []))"

definition lease_ack_timeout :: "mon_view \<Rightarrow> paxos \<Rightarrow> px_result" where
  "lease_ack_timeout mon p = do {
     check (is_leader mon);
     check (is_active p);
     Some (p\<lparr>lease_ack_timeout_event := False\<rparr>, [Bootstrap]) }"

definition lease_timeout :: "mon_view \<Rightarrow> paxos \<Rightarrow> px_result" where
  "lease_timeout mon p = do {
     check (is_peon mon);
     Some (p\<lparr>lease_timeout_event := False\<rparr>, [Bootstrap]) }"

definition lease_renew_timeout :: "px_conf \<Rightarrow> mon_view \<Rightarrow> nat \<Rightarrow> paxos \<Rightarrow> px_result" where
  "lease_renew_timeout conf mon now p = extend_lease conf mon now (p\<lparr>lease_renew_event := False\<rparr>)"

section \<open>Phase 2: proposing and committing\<close>

text \<open>\<^verbatim>\<open>commit_start\<close>: the commit is handed to the store's I/O thread.\<close>

definition commit_start :: "mon_view \<Rightarrow> paxos \<Rightarrow> px_result" where
  "commit_start mon p = do {
     let t = tx_put_num px_name ''last_committed'' (last_committed p + 1) [];
     t \<leftarrow> decode_append_transaction t (new_value p);
     let p = p\<lparr>queued := queued p @ [t]\<rparr>;
     p \<leftarrow> (if is_updating_previous p then Some (p\<lparr>px_state := STATE_WRITING_PREVIOUS\<rparr>)
           else if is_updating p then Some (p\<lparr>px_state := STATE_WRITING\<rparr>)
           else None);
     let p = (if length (mv_quorum mon) > 1 then p\<lparr>accept_timeout_event := False\<rparr> else p);
     Some (p, []) }"

definition px_begin :: "mon_view \<Rightarrow> nat \<Rightarrow> bufferlist \<Rightarrow> paxos \<Rightarrow> px_result" where
  "px_begin mon now v p = do {
     check (is_leader mon);
     check (is_updating p \<or> is_updating_previous p);
     check (length (mv_quorum mon) = 1 \<or> num_last p > mv_monmap_size mon div 2);
     check (bl_null (new_value p));
     let p = p\<lparr>accepted := {mv_rank mon}, new_value := v\<rparr>;
     p \<leftarrow> (if last_committed p = 0 then do {
             t \<leftarrow> decode_append_transaction (tx_put_num px_name ''first_committed'' 1 []) (new_value p);
             Some (p\<lparr>new_value := tx_encode t\<rparr>) }
           else Some p);
     let t = tx_put_ver px_name (last_committed p + 1) (new_value p) [];
     let t = tx_put_num px_name ''pending_v'' (last_committed p + 1) t;
     let t = tx_put_num px_name ''pending_pn'' (accepted_pn p) t;
     let p = px_apply p t;
     if length (mv_quorum mon) = 1 then commit_start mon p
     else do {
       let es = bcast mon ((new_mmon_paxos (mv_epoch mon) OP_BEGIN now)
                  \<lparr>m_values := omap_put (last_committed p + 1) (new_value p) [],
                   m_last_committed := last_committed p, m_pn := accepted_pn p\<rparr>);
       Some (p\<lparr>accept_timeout_event := True\<rparr>, es) } }"

definition handle_begin :: "mon_view \<Rightarrow> nat \<Rightarrow> mmon_paxos \<Rightarrow> paxos \<Rightarrow> px_result" where
  "handle_begin mon now m p =
     (if m_pn m < accepted_pn p then Some (p, [])
      else do {
        check (m_pn m = accepted_pn p);
        check (m_last_committed m = last_committed p);
        let p = p\<lparr>px_state := STATE_UPDATING, lease_expire := 0\<rparr>;
        let v = last_committed p + 1;
        let t = tx_put_ver px_name v (values_at m v) [];
        let t = tx_put_num px_name ''pending_v'' v t;
        let t = tx_put_num px_name ''pending_pn'' (accepted_pn p) t;
        let p = px_apply p t;
        let a = (new_mmon_paxos (mv_epoch mon) OP_ACCEPT now)
                  \<lparr>m_pn := accepted_pn p, m_last_committed := last_committed p\<rparr>;
        Some (p, [Reply a]) })"

text \<open>
  \<^verbatim>\<open>handle_accept\<close>: \<^verbatim>\<open>last_committed-1\<close> wraps at 0 in the code and no message carries
  \<open>2^64 - 1\<close>, so the second disjunct of the assertion needs \<^verbatim>\<open>last_committed > 0\<close>.
\<close>

definition handle_accept :: "mon_view \<Rightarrow> nat \<Rightarrow> mmon_paxos \<Rightarrow> paxos \<Rightarrow> px_result" where
  "handle_accept mon from m p =
     (if m_pn m \<noteq> accepted_pn p then Some (p, [])
      else if last_committed p > 0 \<and> m_last_committed m + 1 < last_committed p then Some (p, [])
      else do {
        check (m_last_committed m = last_committed p \<or> m_last_committed m + 1 = last_committed p);
        check (is_updating p \<or> is_updating_previous p);
        check (from \<notin> accepted p);
        let p = p\<lparr>accepted := insert from (accepted p)\<rparr>;
        if accepted p = set (mv_quorum mon) then commit_start mon p
        else Some (p, []) })"

definition accept_timeout :: "mon_view \<Rightarrow> paxos \<Rightarrow> px_result" where
  "accept_timeout mon p = do {
     let p = p\<lparr>accept_timeout_event := False\<rparr>;
     check (is_leader mon);
     check (is_updating p \<or> is_updating_previous p \<or> is_writing p \<or> is_writing_previous p);
     Some (p, [Bootstrap]) }"

definition collect_timeout :: "mon_view \<Rightarrow> paxos \<Rightarrow> px_result" where
  "collect_timeout mon p = do {
     let p = p\<lparr>collect_timeout_event := False\<rparr>;
     check (is_leader mon);
     Some (p, [Bootstrap]) }"

text \<open>\<^verbatim>\<open>do_refresh\<close>: \<open>Bootstrap\<close> when the services ask for it.\<close>

definition do_refresh :: "(store \<Rightarrow> bool) \<Rightarrow> paxos \<Rightarrow> bool \<times> effect list" where
  "do_refresh need_bootstrap p =
     (if need_bootstrap (px_store p) then (False, [Bootstrap]) else (True, []))"

section \<open>Pending proposals and trimming\<close>

definition queue_pending_finisher :: "ctx \<Rightarrow> paxos \<Rightarrow> paxos" where
  "queue_pending_finisher c p = p\<lparr>pending_finishers := pending_finishers p @ [c]\<rparr>"

text \<open>The caller goes on to add operations to the pending transaction it was given.\<close>

definition get_pending_transaction :: "mon_view \<Rightarrow> paxos \<Rightarrow> (paxos \<times> tx) option" where
  "get_pending_transaction mon p = do {
     check (is_leader mon);
     case pending_proposal p of
       None \<Rightarrow> do {
         check (pending_finishers p = []);
         Some (p\<lparr>pending_proposal := Some []\<rparr>, []) }
     | Some t \<Rightarrow> Some (p, t) }"

definition should_trim :: "px_conf \<Rightarrow> paxos \<Rightarrow> bool" where
  "should_trim conf p =
     (let available_versions = int (last_committed p) - int (first_committed p);
          maximum_versions = int (paxos_min conf) + int (paxos_trim_min conf)
      in if trimming p \<or> available_versions \<le> maximum_versions then False else True)"

definition trim_end :: "px_conf \<Rightarrow> paxos \<Rightarrow> nat" where
  "trim_end conf p = min (last_committed p - paxos_min conf) (first_committed p + paxos_trim_max conf)"

definition trim :: "px_conf \<Rightarrow> mon_view \<Rightarrow> paxos \<Rightarrow> paxos option" where
  "trim conf mon p = do {
     check (should_trim conf p);
     let en = trim_end conf p;
     if first_committed p \<ge> en then Some p
     else do {
       (p, t) \<leftarrow> get_pending_transaction mon p;
       let t = fold (tx_erase_ver px_name) [first_committed p ..< en] t;
       let t = tx_put_num px_name ''first_committed'' en t;
       let t = (if mon_compact_on_trim conf
                then tx_compact_range px_name (Ver (first_committed p - 1)) (Ver en) t else t);
       let p = p\<lparr>pending_proposal := Some t, trimming := True\<rparr>;
       Some (queue_pending_finisher C_Trimmed p) } }"

definition propose_pending :: "mon_view \<Rightarrow> nat \<Rightarrow> paxos \<Rightarrow> px_result" where
  "propose_pending mon now p = do {
     check (is_active p);
     t \<leftarrow> pending_proposal p;
     let p = cancel_events p;
     let bl = tx_encode t;
     let p = p\<lparr>pending_proposal := None, committing_finishers := pending_finishers p,
               pending_finishers := committing_finishers p, px_state := STATE_UPDATING\<rparr>;
     px_begin mon now bl p }"

definition trigger_propose :: "mon_view \<Rightarrow> nat \<Rightarrow> paxos \<Rightarrow> (bool \<times> paxos \<times> effect list) option" where
  "trigger_propose mon now p =
     (if plugged p then Some (False, p, [])
      else if is_active p then do { (p, es) \<leftarrow> propose_pending mon now p; Some (True, p, es) }
      else Some (False, p, []))"

definition plug :: "paxos \<Rightarrow> paxos option" where
  "plug p = do { check (\<not> plugged p); Some (p\<lparr>plugged := True\<rparr>) }"

definition unplug :: "paxos \<Rightarrow> paxos option" where
  "unplug p = do { check (plugged p); Some (p\<lparr>plugged := False\<rparr>) }"

section \<open>Finishing a round\<close>

definition commit_proposal :: "mon_view \<Rightarrow> paxos \<Rightarrow> px_result" where
  "commit_proposal mon p = do {
     check (is_leader mon);
     check (is_refresh p);
     Some (finish_contexts 0 (committing_finishers p) (p\<lparr>committing_finishers := []\<rparr>)) }"

definition finish_round :: "px_conf \<Rightarrow> mon_view \<Rightarrow> nat \<Rightarrow> paxos \<Rightarrow> px_result" where
  "finish_round conf mon now p = do {
     check (is_leader mon);
     let p = p\<lparr>px_state := STATE_ACTIVE\<rparr>;
     let (p, e1) = finish_contexts 0 (waiting_for_active p) (p\<lparr>waiting_for_active := []\<rparr>);
     let (p, e2) = finish_contexts 0 (waiting_for_readable p) (p\<lparr>waiting_for_readable := []\<rparr>);
     let (p, e3) = finish_contexts 0 (waiting_for_writeable p) (p\<lparr>waiting_for_writeable := []\<rparr>);
     p \<leftarrow> (if should_trim conf p then trim conf mon p else Some p);
     (p, e4) \<leftarrow> (if is_active p \<and> pending_proposal p \<noteq> None then propose_pending mon now p
                 else Some (p, []));
     Some (p, e1 @ e2 @ e3 @ e4) }"

text \<open>
  The store's I/O thread: it applies the oldest queued transaction, then delivers
  \<^verbatim>\<open>C_Committed\<close>, which calls \<^verbatim>\<open>commit_finish\<close> under the monitor lock.
\<close>

definition store_io :: "paxos \<Rightarrow> paxos" where
  "store_io p =
     (case queued p of
        [] \<Rightarrow> p
      | t # q \<Rightarrow> px_apply (p\<lparr>queued := q, oncommit := oncommit p + 1\<rparr>) t)"

definition commit_finish :: "px_conf \<Rightarrow> mon_view \<Rightarrow> (store \<Rightarrow> bool) \<Rightarrow> nat \<Rightarrow> paxos \<Rightarrow> px_result" where
  "commit_finish conf mon need_bootstrap now p = do {
     let p = p\<lparr>lease_expire := 0, last_committed := last_committed p + 1\<rparr>;
     fc \<leftarrow> px_get_num p ''first_committed'';
     let p = p\<lparr>first_committed := fc\<rparr>;
     sanity_check_store p;
     let e1 = bcast mon ((new_mmon_paxos (mv_epoch mon) OP_COMMIT now)
                \<lparr>m_values := omap_put (last_committed p) (new_value p) [],
                 m_pn := accepted_pn p, m_last_committed := last_committed p\<rparr>);
     let p = p\<lparr>new_value := bl_empty\<rparr>;
     check (is_writing p \<or> is_writing_previous p);
     let p = p\<lparr>px_state := STATE_REFRESH\<rparr>;
     let (ok, e2) = do_refresh need_bootstrap p;
     if ok then do {
       (p, e3) \<leftarrow> commit_proposal mon p;
       (p, e4) \<leftarrow> (if length (mv_quorum mon) > 1 then extend_lease conf mon now p else Some (p, []));
       let (p, e5) = finish_contexts 0 (waiting_for_commit p) (p\<lparr>waiting_for_commit := []\<rparr>);
       (p, e6) \<leftarrow> finish_round conf mon now p;
       Some (p, e1 @ e2 @ e3 @ e4 @ e5 @ e6) }
     else Some (p, e1 @ e2) }"

definition C_Committed :: "px_conf \<Rightarrow> mon_view \<Rightarrow> (store \<Rightarrow> bool) \<Rightarrow> nat \<Rightarrow> paxos \<Rightarrow> px_result" where
  "C_Committed conf mon need_bootstrap now p =
     (if oncommit p = 0 then Some (p, [])
      else commit_finish conf mon need_bootstrap now (p\<lparr>oncommit := oncommit p - 1\<rparr>))"

definition handle_commit :: "mon_view \<Rightarrow> (store \<Rightarrow> bool) \<Rightarrow> mmon_paxos \<Rightarrow> paxos \<Rightarrow> px_result" where
  "handle_commit mon need_bootstrap m p = do {
     check (is_peon mon);
     (p, _) \<leftarrow> store_state m p;
     let (ok, e1) = do_refresh need_bootstrap p;
     if ok then do {
       let (p, e2) = finish_contexts 0 (waiting_for_commit p) (p\<lparr>waiting_for_commit := []\<rparr>);
       Some (p, e1 @ e2) }
     else Some (p, e1) }"

text \<open>
  The loop of \<^verbatim>\<open>handle_last\<close> over \<^verbatim>\<open>peer_last_committed\<close>: \<open>(True, es)\<close> when it bootstrapped and
  returned, else the catch-up messages it sent.
\<close>

fun catch_up_peers :: "mon_view \<Rightarrow> nat \<Rightarrow> paxos \<Rightarrow> (nat, nat) omap \<Rightarrow> (bool \<times> effect list) option" where
  "catch_up_peers mon now p [] = Some (False, [])"
| "catch_up_peers mon now p ((peer, lc) # ps) =
     (if lc + 1 < first_committed p \<and> first_committed p > 1 then Some (True, [Bootstrap])
      else if lc < last_committed p then do {
        m \<leftarrow> share_state p lc (new_mmon_paxos (mv_epoch mon) OP_COMMIT now);
        (stop, es) \<leftarrow> catch_up_peers mon now p ps;
        Some (stop, Send peer m # es) }
      else catch_up_peers mon now p ps)"

text \<open>The value a \<^verbatim>\<open>LAST\<close> reply reports as accepted and not committed: adopted or dropped.\<close>

definition learn_uncommitted :: "mmon_paxos \<Rightarrow> paxos \<Rightarrow> paxos" where
  "learn_uncommitted m p =
     (if m_uncommitted_pn m \<noteq> 0 \<and>
         m_uncommitted_pn m \<ge> uncommitted_pn p \<and>
         m_last_committed m \<ge> last_committed p \<and>
         m_last_committed m + 1 \<ge> uncommitted_v p
      then p\<lparr>uncommitted_v := m_last_committed m + 1, uncommitted_pn := m_uncommitted_pn m,
             uncommitted_value := values_at m (m_last_committed m + 1)\<rparr>
      else p)"

text \<open>
  The branch \<^verbatim>\<open>last->pn == accepted_pn\<close> of \<^verbatim>\<open>handle_last\<close>; it returns \<^verbatim>\<open>need_refresh\<close> too.
\<close>

definition last_accepted ::
  "px_conf \<Rightarrow> mon_view \<Rightarrow> (store \<Rightarrow> bool) \<Rightarrow> nat \<Rightarrow> mmon_paxos \<Rightarrow> bool \<Rightarrow> paxos
     \<Rightarrow> (bool \<times> paxos \<times> effect list) option" where
  "last_accepted conf mon need_bootstrap now m need_refresh p = do {
     let p = learn_uncommitted m (p\<lparr>num_last := num_last p + 1\<rparr>);
     if num_last p = length (mv_quorum mon) then do {
       let p = p\<lparr>collect_timeout_event := False, peer_first_committed := [],
                 peer_last_committed := []\<rparr>;
       if uncommitted_v p = last_committed p + 1 \<and> \<not> bl_null (uncommitted_value p) then do {
         let p = p\<lparr>px_state := STATE_UPDATING_PREVIOUS\<rparr>;
         (p, es) \<leftarrow> px_begin mon now (uncommitted_value p) p;
         Some (need_refresh, p, es) }
       else do {
         (p, e1) \<leftarrow> extend_lease conf mon now p;
         let (ok, e2) = do_refresh need_bootstrap p;
         (p, e3) \<leftarrow> (if ok then finish_round conf mon now p else Some (p, []));
         Some (False, p, e1 @ e2 @ e3) } }
     else Some (need_refresh, p, []) }"

definition handle_last ::
  "px_conf \<Rightarrow> mon_view \<Rightarrow> (store \<Rightarrow> bool) \<Rightarrow> nat \<Rightarrow> nat \<Rightarrow> mmon_paxos \<Rightarrow> paxos \<Rightarrow> px_result" where
  "handle_last conf mon need_bootstrap now from m p =
     (if \<not> is_leader mon then Some (p, [])
      else do {
        let p = p\<lparr>peer_first_committed := omap_put from (m_first_committed m) (peer_first_committed p),
                  peer_last_committed := omap_put from (m_last_committed m) (peer_last_committed p)\<rparr>;
        if m_first_committed m > last_committed p + 1 then Some (p, [Bootstrap])
        else do {
          (p, need_refresh) \<leftarrow> store_state m p;
          (stop, e1) \<leftarrow> catch_up_peers mon now p (peer_last_committed p);
          if stop then Some (p, e1)
          else do {
            (need_refresh, p, e2) \<leftarrow>
              (if m_pn m > accepted_pn p then do {
                 (p, es) \<leftarrow> collect mon now (m_pn m) (p\<lparr>collect_timeout_event := False\<rparr>);
                 Some (need_refresh, p, es) }
               else if m_pn m = accepted_pn p then
                 last_accepted conf mon need_bootstrap now m need_refresh p
               else Some (need_refresh, p, []));
            let e3 = (if need_refresh then snd (do_refresh need_bootstrap p) else []);
            Some (p, e1 @ e2 @ e3) } } })"

section \<open>Role changes\<close>

definition leader_init :: "mon_view \<Rightarrow> nat \<Rightarrow> paxos \<Rightarrow> px_result" where
  "leader_init mon now p = do {
     let p = (cancel_events p)\<lparr>new_value := bl_empty, pending_proposal := None\<rparr>;
     let (p, e1) = finish_contexts (- EAGAIN) (pending_finishers p) (p\<lparr>pending_finishers := []\<rparr>);
     let (p, e2) = finish_contexts (- EAGAIN) (committing_finishers p) (p\<lparr>committing_finishers := []\<rparr>);
     if length (mv_quorum mon) = 1 then Some (p\<lparr>px_state := STATE_ACTIVE\<rparr>, e1 @ e2)
     else do {
       (p, e3) \<leftarrow> collect mon now 0 (p\<lparr>px_state := STATE_RECOVERING, lease_expire := 0\<rparr>);
       Some (p, e1 @ e2 @ e3) } }"

definition peon_init :: "paxos \<Rightarrow> paxos \<times> effect list" where
  "peon_init p =
     (let p = (cancel_events p)\<lparr>new_value := bl_empty, px_state := STATE_RECOVERING, lease_expire := 0\<rparr>;
          p = (reset_lease_timeout p)\<lparr>pending_proposal := None\<rparr>;
          (p, e1) = finish_contexts (- EAGAIN) (waiting_for_writeable p) (p\<lparr>waiting_for_writeable := []\<rparr>);
          (p, e2) = finish_contexts (- EAGAIN) (waiting_for_commit p) (p\<lparr>waiting_for_commit := []\<rparr>);
          (p, e3) = finish_contexts (- EAGAIN) (pending_finishers p) (p\<lparr>pending_finishers := []\<rparr>);
          (p, e4) = finish_contexts (- EAGAIN) (committing_finishers p) (p\<lparr>committing_finishers := []\<rparr>)
      in (p, e1 @ e2 @ e3 @ e4))"

text \<open>
  \<^verbatim>\<open>restart\<close>: while a write is in flight it drops the monitor lock and waits in
  \<^verbatim>\<open>mon->store->flush()\<close>; what the I/O thread does meanwhile is the argument \<open>flush\<close>.
\<close>

definition restart :: "(paxos \<Rightarrow> paxos) \<Rightarrow> paxos \<Rightarrow> paxos \<times> effect list" where
  "restart flush p =
     (let p = (cancel_events p)\<lparr>new_value := bl_empty\<rparr>;
          p = (if is_writing p \<or> is_writing_previous p then flush p else p);
          p = p\<lparr>px_state := STATE_RECOVERING, pending_proposal := None\<rparr>;
          (p, e1) = finish_contexts (- EAGAIN) (committing_finishers p) (p\<lparr>committing_finishers := []\<rparr>);
          (p, e2) = finish_contexts (- EAGAIN) (pending_finishers p) (p\<lparr>pending_finishers := []\<rparr>);
          (p, e3) = finish_contexts (- EAGAIN) (waiting_for_commit p) (p\<lparr>waiting_for_commit := []\<rparr>);
          (p, e4) = finish_contexts (- EAGAIN) (waiting_for_active p) (p\<lparr>waiting_for_active := []\<rparr>)
      in (p, e1 @ e2 @ e3 @ e4))"

definition shutdown :: "paxos \<Rightarrow> paxos \<times> effect list" where
  "shutdown p =
     (let p = p\<lparr>pending_proposal := None\<rparr>;
          (p, e1) = finish_contexts (- ECANCELED) (waiting_for_writeable p) (p\<lparr>waiting_for_writeable := []\<rparr>);
          (p, e2) = finish_contexts (- ECANCELED) (waiting_for_commit p) (p\<lparr>waiting_for_commit := []\<rparr>);
          (p, e3) = finish_contexts (- ECANCELED) (waiting_for_readable p) (p\<lparr>waiting_for_readable := []\<rparr>);
          (p, e4) = finish_contexts (- ECANCELED) (waiting_for_active p) (p\<lparr>waiting_for_active := []\<rparr>);
          (p, e5) = finish_contexts (- ECANCELED) (pending_finishers p) (p\<lparr>pending_finishers := []\<rparr>);
          (p, e6) = finish_contexts (- ECANCELED) (committing_finishers p) (p\<lparr>committing_finishers := []\<rparr>)
      in (p, e1 @ e2 @ e3 @ e4 @ e5 @ e6))"

section \<open>Dispatch\<close>

definition dispatch ::
  "px_conf \<Rightarrow> mon_view \<Rightarrow> (store \<Rightarrow> bool) \<Rightarrow> nat \<Rightarrow> nat \<Rightarrow> mmon_paxos \<Rightarrow> paxos \<Rightarrow> px_result" where
  "dispatch conf mon need_bootstrap now from m p =
     (if \<not> is_leader mon \<and> \<not> is_peon mon then Some (p, [])
      else do {
        check (is_leader mon \<or> (is_peon mon \<and> from = mv_leader mon));
        case m_op m of
          OP_COLLECT \<Rightarrow> handle_collect mon now m p
        | OP_LAST \<Rightarrow> handle_last conf mon need_bootstrap now from m p
        | OP_BEGIN \<Rightarrow> handle_begin mon now m p
        | OP_ACCEPT \<Rightarrow> handle_accept mon from m p
        | OP_COMMIT \<Rightarrow> handle_commit mon need_bootstrap m p
        | OP_LEASE \<Rightarrow> handle_lease mon now m p
        | OP_LEASE_ACK \<Rightarrow> handle_lease_ack mon from p })"

text \<open>The filter of \<^verbatim>\<open>Monitor::dispatch_op\<close> in front of it; \<open>cap\<close>: the sender may talk to monitors.\<close>

definition mon_dispatch_paxos ::
  "px_conf \<Rightarrow> mon_view \<Rightarrow> (store \<Rightarrow> bool) \<Rightarrow> nat \<Rightarrow> bool \<Rightarrow> nat \<Rightarrow> mmon_paxos \<Rightarrow> paxos \<Rightarrow> px_result" where
  "mon_dispatch_paxos conf mon need_bootstrap now cap from m p =
     (if \<not> cap then Some (p, [])
      else if mv_state mon = MON_SYNCHRONIZING then Some (p, [])
      else if m_epoch m > mv_epoch mon then Some (p, [Bootstrap])
      else if m_epoch m \<noteq> mv_epoch mon then Some (p, [])
      else dispatch conf mon need_bootstrap now from m p)"

text \<open>The waiting lists of the service interface.\<close>

definition wait_for_active :: "ctx \<Rightarrow> paxos \<Rightarrow> paxos" where
  "wait_for_active c p = p\<lparr>waiting_for_active := waiting_for_active p @ [c]\<rparr>"

definition wait_for_readable :: "mon_view \<Rightarrow> nat \<Rightarrow> ctx \<Rightarrow> paxos \<Rightarrow> paxos option" where
  "wait_for_readable mon now c p = do {
     check (\<not> is_readable mon now 0 p);
     Some (p\<lparr>waiting_for_readable := waiting_for_readable p @ [c]\<rparr>) }"

definition wait_for_writeable :: "mon_view \<Rightarrow> nat \<Rightarrow> ctx \<Rightarrow> paxos \<Rightarrow> paxos option" where
  "wait_for_writeable mon now c p = do {
     check (\<not> is_writeable mon now p);
     Some (p\<lparr>waiting_for_writeable := waiting_for_writeable p @ [c]\<rparr>) }"

definition wait_for_commit :: "ctx \<Rightarrow> paxos \<Rightarrow> paxos" where
  "wait_for_commit c p = p\<lparr>waiting_for_commit := waiting_for_commit p @ [c]\<rparr>"

definition wait_for_commit_front :: "ctx \<Rightarrow> paxos \<Rightarrow> paxos" where
  "wait_for_commit_front c p = p\<lparr>waiting_for_commit := c # waiting_for_commit p\<rparr>"

end
