(* ===== verification/PaxosProps.thy ===== *)
theory PaxosProps
  imports Paxos
begin

text \<open>
  What each handler of \<^verbatim>\<open>mon/Paxos.cc\<close> guarantees on its own: proposal numbers, promises and what is
  durable when a message leaves, monotonicity, when a value is committed, catch-up.
\<close>

section \<open>Closed forms and frames\<close>

lemma finish_contexts_fold:
  "fold (finish_ctx r) cs (p, es) =
     (p\<lparr>trimming := trimming p \<and> C_Trimmed \<notin> set cs\<rparr>,
      es @ concat (map (\<lambda>c. case c of C_user i \<Rightarrow> [Finish i r] | C_Trimmed \<Rightarrow> []) cs))"
proof (induction cs arbitrary: p es)
  case Nil
  show ?case by simp
next
  case (Cons c cs)
  show ?case by (cases c) (simp_all add: Cons.IH)
qed

definition finishes :: "int \<Rightarrow> ctx list \<Rightarrow> effect list" where
  "finishes r cs = concat (map (\<lambda>c. case c of C_user i \<Rightarrow> [Finish i r] | C_Trimmed \<Rightarrow> []) cs)"

lemma finish_contexts_eq [simp]:
  "finish_contexts r cs p = (p\<lparr>trimming := trimming p \<and> C_Trimmed \<notin> set cs\<rparr>, finishes r cs)"
  by (simp add: finish_contexts_def finish_contexts_fold finishes_def)

lemma finishes_no_message [simp]:
  "Send r m \<notin> set (finishes i cs)" "Reply m \<notin> set (finishes i cs)" "Bootstrap \<notin> set (finishes i cs)"
  by (auto simp: finishes_def split: ctx.splits)

section \<open>Proposal numbers\<close>

lemma get_new_proposal_number_eq:
  "get_new_proposal_number mon gt p =
     px_apply (p\<lparr>last_pn := (max (last_pn p) gt div 100 + 1) * 100 + mv_rank mon\<rparr>)
       [OP_PUT px_name (Name ''last_pn'') (BL_version ((max (last_pn p) gt div 100 + 1) * 100 + mv_rank mon))]"
  by (simp add: get_new_proposal_number_def Let_def tx_defs max_def)

lemma next_pn_gt: "n < (n div 100 + 1) * 100 + (r :: nat)"
proof -
  have "n = n div 100 * 100 + n mod 100" by simp
  moreover have "n mod 100 < 100" by simp
  ultimately show ?thesis by simp
qed

lemma next_pn_mod: "r < 100 \<Longrightarrow> ((n + 1) * 100 + r) mod 100 = (r :: nat)"
  by (metis mod_less mod_mult_self3)

lemma last_pn_get_new_proposal_number:
  "last_pn (get_new_proposal_number mon gt p) = (max (last_pn p) gt div 100 + 1) * 100 + mv_rank mon"
  by (simp add: get_new_proposal_number_eq px_apply_def)

lemma get_new_proposal_number_fields [simp]:
  "accepted_pn (get_new_proposal_number mon gt p) = accepted_pn p"
  "last_committed (get_new_proposal_number mon gt p) = last_committed p"
  "first_committed (get_new_proposal_number mon gt p) = first_committed p"
  by (simp_all add: get_new_proposal_number_eq px_apply_def)

lemma get_new_proposal_number_gt:
  "last_pn p < last_pn (get_new_proposal_number mon gt p)"
  "gt < last_pn (get_new_proposal_number mon gt p)"
  using next_pn_gt [of "max (last_pn p) gt" "mv_rank mon"]
  by (simp_all add: get_new_proposal_number_eq px_apply_def)

section \<open>Monotonicity\<close>

text \<open>What a monitor promised, and the version it committed, never go back.\<close>

definition px_le :: "paxos \<Rightarrow> paxos \<Rightarrow> bool" where
  "px_le p q \<longleftrightarrow> accepted_pn p \<le> accepted_pn q \<and> last_committed p \<le> last_committed q \<and> last_pn p \<le> last_pn q"

lemma px_le_refl [simp]: "px_le p p"
  by (simp add: px_le_def)

lemma px_le_trans: "px_le p q \<Longrightarrow> px_le q r \<Longrightarrow> px_le p r"
  by (auto simp: px_le_def)

text \<open>Operations that leave all three as they are.\<close>

definition px_same :: "paxos \<Rightarrow> paxos \<Rightarrow> bool" where
  "px_same p q \<longleftrightarrow> accepted_pn p = accepted_pn q \<and> last_committed p = last_committed q \<and> last_pn p = last_pn q"

lemma px_same_le: "px_same p q \<Longrightarrow> px_le p q"
  by (simp add: px_le_def px_same_def)

lemma px_same_trans: "px_same p q \<Longrightarrow> px_same q r \<Longrightarrow> px_same p r"
  by (simp add: px_same_def)

named_theorems px_same_intros

lemma px_same_trim [px_same_intros]: "trim conf mon p = Some q \<Longrightarrow> px_same p q"
  unfolding trim_def get_pending_transaction_def queue_pending_finisher_def Let_def
  by (auto simp: px_same_def split: if_splits option.splits)

lemma px_same_extend_lease [px_same_intros]: "extend_lease conf mon now p = Some (q, es) \<Longrightarrow> px_same p q"
  by (auto simp: extend_lease_def px_same_def Let_def split: if_splits)

lemma px_same_commit_start [px_same_intros]: "commit_start mon p = Some (q, es) \<Longrightarrow> px_same p q"
  unfolding commit_start_def Let_def
  by (auto simp: px_same_def split: if_splits Option.bind_splits)

lemma px_same_begin [px_same_intros]:
  assumes "px_begin mon now v p = Some (q, es)"
  shows "px_same p q"
  using assms unfolding px_begin_def Let_def
  by (auto simp: px_same_def px_apply_def dest: px_same_commit_start split: if_splits Option.bind_splits)

lemma px_same_propose_pending [px_same_intros]:
  assumes "propose_pending mon now p = Some (q, es)"
  shows "px_same p q"
  using assms unfolding propose_pending_def Let_def
  by (auto simp: px_same_def cancel_events_def dest!: px_same_begin split: if_splits Option.bind_splits)

lemma px_same_finish_round [px_same_intros]:
  assumes "finish_round conf mon now p = Some (q, es)"
  shows "px_same p q"
  using assms unfolding finish_round_def Let_def
  by (auto simp: px_same_def dest!: px_same_propose_pending px_same_trim
      split: if_splits Option.bind_splits)

lemma store_range_above:
  assumes "omap_wf (m_values m)" "(v, bl) \<in> set (store_range m p)"
  shows "last_committed p < v" "v \<le> m_last_committed m"
proof -
  have 1: "(v, bl) \<in> set (dropWhile (\<lambda>(v, _). v \<le> last_committed p) (m_values m))"
    and le: "v \<le> m_last_committed m"
    using assms(2) by (auto simp: store_range_def dest: set_takeWhileD)
  have "last_committed p < v" if "omap_wf xs" "(v, bl) \<in> set (dropWhile (\<lambda>(v, _). v \<le> last_committed p) xs)" for xs
    using that by (induction xs) (auto simp: omap_wf_def split: if_splits)
  with 1 assms(1) show "last_committed p < v" by blast
  show "v \<le> m_last_committed m" by (rule le)
qed

lemma px_le_store_state:
  assumes "omap_wf (m_values m)" "store_state m p = Some (q, b)"
  shows "px_le p q" "accepted_pn q = accepted_pn p" "last_pn q = last_pn p"
proof -
  have "last_committed p \<le> fst (last (store_range m p))" if "store_range m p \<noteq> []"
    using store_range_above(1) [OF assms(1), of "fst (last (store_range m p))" "snd (last (store_range m p))" p]
      that by simp
  then show "px_le p q" "accepted_pn q = accepted_pn p" "last_pn q = last_pn p"
    using assms(2) unfolding store_state_def Let_def
    by (auto simp: px_le_def px_apply_def split: if_splits Option.bind_splits)
qed

lemma px_le_collect:
  assumes "collect mon now oldpn p = Some (q, es)"
  shows "px_le p q"
  using assms unfolding collect_def Let_def
  by (auto simp: px_le_def less_imp_le [OF get_new_proposal_number_gt(1), THEN order_trans [rotated]]
      intro: less_imp_le [OF le_less_trans [OF max.cobounded1 get_new_proposal_number_gt(2)]]
      split: if_splits Option.bind_splits)

lemma px_le_handle_collect:
  assumes "handle_collect mon now m p = Some (q, es)"
  shows "px_le p q"
  using assms unfolding handle_collect_def Let_def
  by (auto simp: px_le_def accept_collect_pn_def px_apply_def reset_lease_timeout_def
      split: if_splits Option.bind_splits)

lemma px_same_last_accepted [px_same_intros]:
  assumes "last_accepted conf mon nb now m b p = Some (c, q, es)"
  shows "px_same p q"
  using assms unfolding last_accepted_def learn_uncommitted_def do_refresh_def Let_def
  by (auto simp: px_same_def dest!: px_same_begin px_same_extend_lease px_same_finish_round
      split: if_splits Option.bind_splits)

lemma px_le_handle_last:
  assumes "omap_wf (m_values m)" "handle_last conf mon nb now from m p = Some (q, es)"
  shows "px_le p q"
proof -
  define p1 where "p1 = p\<lparr>peer_first_committed := omap_put from (m_first_committed m) (peer_first_committed p),
                  peer_last_committed := omap_put from (m_last_committed m) (peer_last_committed p)\<rparr>"
  have 1: "px_le p p1" by (simp add: p1_def px_le_def)
  have le: "px_le p q" if "px_le p p2" "px_le p2 q" for p2
    using that by (rule px_le_trans)
  have 2: "px_le p p2" if "store_state m p1 = Some (p2, b)" for p2 b
    using 1 px_le_store_state(1) [OF assms(1) that] by (rule px_le_trans)
  have 3: "px_le p q" if "store_state m p1 = Some (p2, b)"
    "collect mon now (m_pn m) (p2\<lparr>collect_timeout_event := False\<rparr>) = Some (q, es')" for p2 b es'
    using 2 [OF that(1)] px_le_collect [OF that(2)] by (auto simp: px_le_def)
  have 4: "px_le p q" if "store_state m p1 = Some (p2, b)"
    "last_accepted conf mon nb now m b p2 = Some (c, q, es')" for p2 b c es'
    using 2 [OF that(1)] px_same_last_accepted [OF that(2)] by (auto simp: px_le_def px_same_def)
  show ?thesis
    using assms(2) 1 unfolding handle_last_def Let_def p1_def [symmetric]
    by (auto split: if_splits Option.bind_splits) (erule (1) 3 | erule (1) 4 | erule 2)+
qed

lemma px_same_handle_begin: "handle_begin mon now m p = Some (q, es) \<Longrightarrow> px_same p q"
  unfolding handle_begin_def Let_def
  by (auto simp: px_same_def px_apply_def split: if_splits)

lemma px_same_handle_accept: "handle_accept mon from m p = Some (q, es) \<Longrightarrow> px_same p q"
  unfolding handle_accept_def Let_def
  by (auto simp: px_same_def dest: px_same_commit_start split: if_splits)

lemma px_le_handle_commit:
  assumes "omap_wf (m_values m)" "handle_commit mon nb m p = Some (q, es)"
  shows "px_le p q"
  using assms(2) px_le_store_state(1) [OF assms(1), of p]
  unfolding handle_commit_def Let_def
  by (fastforce simp: px_le_def split: if_splits Option.bind_splits prod.splits)

lemma px_same_handle_lease: "handle_lease mon now m p = Some (q, es) \<Longrightarrow> px_same p q"
  unfolding handle_lease_def Let_def
  by (auto simp: px_same_def reset_lease_timeout_def split: if_splits)

lemma px_same_handle_lease_ack: "handle_lease_ack mon from p = Some (q, es) \<Longrightarrow> px_same p q"
  unfolding handle_lease_ack_def Let_def
  by (auto simp: px_same_def split: if_splits)

lemma px_le_commit_finish:
  assumes "commit_finish conf mon nb now p = Some (q, es)"
  shows "px_le p q"
  using assms unfolding commit_finish_def commit_proposal_def do_refresh_def Let_def
  by (auto simp: px_le_def px_same_def dest!: px_same_extend_lease px_same_finish_round
      split: if_splits Option.bind_splits)

lemma px_le_dispatch:
  assumes "omap_wf (m_values m)" "dispatch conf mon nb now from m p = Some (q, es)"
  shows "px_le p q"
  using assms unfolding dispatch_def
  by (auto intro: px_le_handle_collect px_le_handle_last px_le_handle_commit
      px_same_le px_same_handle_begin px_same_handle_accept px_same_handle_lease px_same_handle_lease_ack
      split: if_splits px_op.splits)

section \<open>Shared state\<close>

lemma share_state_fields:
  assumes "share_state p lc m = Some m'"
  shows "m_pn m' = m_pn m" "m_op m' = m_op m" "m_uncommitted_pn m' = m_uncommitted_pn m"
    "m_last_committed m' = last_committed p" "m_first_committed m' = m_first_committed m"
    "m_epoch m' = m_epoch m"
proof -
  obtain m1 where
    fold: "fold_opt (\<lambda>m v. if px_exists p v then do {
              bl \<leftarrow> store_get (px_store p) px_name v;
              check (\<not> bl_null bl);
              Some (m\<lparr>m_values := omap_put v bl (m_values m)\<rparr>) }
            else Some m) m [lc + 1 ..< Suc (last_committed p)] = Some m1"
    and m': "m' = m1\<lparr>m_last_committed := last_committed p\<rparr>"
    using assms unfolding share_state_def by (auto split: if_splits Option.bind_splits)
  have "m_pn m1 = m_pn m \<and> m_op m1 = m_op m \<and> m_uncommitted_pn m1 = m_uncommitted_pn m \<and>
      m_first_committed m1 = m_first_committed m \<and> m_epoch m1 = m_epoch m"
    by (rule fold_opt_invariant [OF fold]) (auto split: if_splits Option.bind_splits)
  then show "m_pn m' = m_pn m" "m_op m' = m_op m" "m_uncommitted_pn m' = m_uncommitted_pn m"
    "m_last_committed m' = last_committed p" "m_first_committed m' = m_first_committed m"
    "m_epoch m' = m_epoch m"
    by (simp_all add: m')
qed

lemma accept_collect_pn_fields:
  "accepted_pn (accept_collect_pn m p) = max (accepted_pn p) (m_pn m)"
  "last_committed (accept_collect_pn m p) = last_committed p"
  "last_pn (accept_collect_pn m p) = last_pn p"
  "store_get (px_store (accept_collect_pn m p)) px_name v = store_get (px_store p) px_name v"
  "px_exists (accept_collect_pn m p) v = px_exists p v"
  "pending_pn_for (accept_collect_pn m p) pn = pending_pn_for p pn"
  "accepted_pn p < m_pn m \<Longrightarrow> px_get_num (accept_collect_pn m p) ''accepted_pn'' = Some (m_pn m)"
  by (auto simp: accept_collect_pn_def px_apply_def tx_defs px_get_num_def px_exists_def
      store_exists_def store_get_def store_get_num_def pending_pn_for_def Let_def)

lemma report_uncommitted_fields:
  assumes "report_uncommitted m pn p l = Some l'"
  shows "m_pn l' = m_pn l" "m_op l' = m_op l"
    "m_last_committed m \<le> last_committed p \<Longrightarrow> store_get (px_store p) px_name (last_committed p + 1) = Some bl
      \<Longrightarrow> values_at l' (last_committed p + 1) = bl \<and> pending_pn_for p pn = Some (m_uncommitted_pn l')"
  using assms by (auto simp: report_uncommitted_def px_exists_def store_exists_def store_get_def values_at_def
      split: if_splits Option.bind_splits)

definition collecting :: "paxos \<Rightarrow> paxos" where
  "collecting p = reset_lease_timeout (p\<lparr>px_state := STATE_RECOVERING\<rparr>)"

lemma collecting_fields [simp]:
  "accepted_pn (collecting p) = accepted_pn p" "last_committed (collecting p) = last_committed p"
  "px_store (collecting p) = px_store p" "pending_pn_for (collecting p) pn = pending_pn_for p pn"
  by (simp_all add: collecting_def reset_lease_timeout_def pending_pn_for_def px_get_num_def)

lemma handle_collect_reply:
  assumes "handle_collect mon now m p = Some (q, es)" "Reply l \<in> set es"
  shows "q = accept_collect_pn m (collecting p) \<and>
    (\<exists>l1. m_pn l1 = accepted_pn q \<and> report_uncommitted m (accepted_pn p) q l1 = Some l)"
  using assms unfolding handle_collect_def Let_def collecting_def [symmetric]
  by (auto dest: share_state_fields(1) split: if_splits Option.bind_splits)
    (rule exI, rule conjI [rotated], assumption, (drule share_state_fields(1))?, simp)+

section \<open>Every operation of a running monitor\<close>

text \<open>
  The calls a monitor makes into its consensus layer between two process starts. The monitor
  waits for a write in flight before it restarts the layer (\<^verbatim>\<open>wait_for_paxos_write\<close>).
\<close>

inductive px_step :: "px_conf \<Rightarrow> (store \<Rightarrow> bool) \<Rightarrow> paxos \<Rightarrow> paxos \<Rightarrow> bool"
  for conf nb where
  dispatch: "omap_wf (m_values m) \<Longrightarrow> mon_dispatch_paxos conf mon nb now cap from m p = Some (q, es)
    \<Longrightarrow> px_step conf nb p q"
| store_io: "px_step conf nb p (store_io p)"
| committed: "C_Committed conf mon nb now p = Some (q, es) \<Longrightarrow> px_step conf nb p q"
| leader_init: "leader_init mon now p = Some (q, es) \<Longrightarrow> px_step conf nb p q"
| peon_init: "px_step conf nb p (fst (peon_init p))"
| restart: "\<not> is_writing p \<Longrightarrow> \<not> is_writing_previous p \<Longrightarrow> px_step conf nb p (fst (restart flush p))"
| shutdown: "px_step conf nb p (fst (shutdown p))"
| collect_timeout: "collect_timeout mon p = Some (q, es) \<Longrightarrow> px_step conf nb p q"
| accept_timeout: "accept_timeout mon p = Some (q, es) \<Longrightarrow> px_step conf nb p q"
| lease_ack_timeout: "lease_ack_timeout mon p = Some (q, es) \<Longrightarrow> px_step conf nb p q"
| lease_timeout: "lease_timeout mon p = Some (q, es) \<Longrightarrow> px_step conf nb p q"
| lease_renew: "lease_renew_timeout conf mon now p = Some (q, es) \<Longrightarrow> px_step conf nb p q"
| trigger: "trigger_propose mon now p = Some (b, q, es) \<Longrightarrow> px_step conf nb p q"
| pending: "get_pending_transaction mon p = Some (q, t) \<Longrightarrow> px_step conf nb p (q\<lparr>pending_proposal := Some u\<rparr>)"
| finisher: "px_step conf nb p (queue_pending_finisher c p)"
| plug: "plug p = Some q \<Longrightarrow> px_step conf nb p q"
| unplug: "unplug p = Some q \<Longrightarrow> px_step conf nb p q"
| wait: "q \<in> {wait_for_active c p, wait_for_commit c p, wait_for_commit_front c p} \<Longrightarrow> px_step conf nb p q"
| wait_readable: "wait_for_readable mon now c p = Some q \<Longrightarrow> px_step conf nb p q"
| wait_writeable: "wait_for_writeable mon now c p = Some q \<Longrightarrow> px_step conf nb p q"

inductive px_steps :: "px_conf \<Rightarrow> (store \<Rightarrow> bool) \<Rightarrow> paxos \<Rightarrow> paxos \<Rightarrow> bool"
  for conf nb where
  refl: "px_steps conf nb p p"
| step: "px_steps conf nb p q \<Longrightarrow> px_step conf nb q r \<Longrightarrow> px_steps conf nb p r"

lemma px_same_role_changes:
  "px_same p (fst (peon_init p))" "px_same p (fst (shutdown p))"
  "\<not> is_writing p \<Longrightarrow> \<not> is_writing_previous p \<Longrightarrow> px_same p (fst (restart flush p))"
  by (simp_all add: peon_init_def shutdown_def restart_def px_same_def cancel_events_def
      reset_lease_timeout_def is_writing_def is_writing_previous_def Let_def)

lemma px_le_leader_init:
  assumes "leader_init mon now p = Some (q, es)"
  shows "px_le p q"
  using assms unfolding leader_init_def Let_def
  by (auto simp: px_le_def cancel_events_def dest!: px_le_collect split: if_splits Option.bind_splits)

lemma px_same_service_calls:
  "trigger_propose mon now p = Some (b, q, es) \<Longrightarrow> px_same p q"
  "get_pending_transaction mon p = Some (q, t) \<Longrightarrow> px_same p q"
  "plug p = Some q \<Longrightarrow> px_same p q" "unplug p = Some q \<Longrightarrow> px_same p q"
  "wait_for_readable mon now c p = Some q \<Longrightarrow> px_same p q"
  "wait_for_writeable mon now c p = Some q \<Longrightarrow> px_same p q"
  unfolding trigger_propose_def get_pending_transaction_def plug_def unplug_def wait_for_readable_def
    wait_for_writeable_def
  by (auto simp: px_same_def dest: px_same_propose_pending split: if_splits Option.bind_splits option.splits)

lemma px_same_timeouts:
  "collect_timeout mon p = Some (q, es) \<Longrightarrow> px_same p q"
  "accept_timeout mon p = Some (q, es) \<Longrightarrow> px_same p q"
  "lease_ack_timeout mon p = Some (q, es) \<Longrightarrow> px_same p q"
  "lease_timeout mon p = Some (q, es) \<Longrightarrow> px_same p q"
  "lease_renew_timeout conf mon now p = Some (q, es) \<Longrightarrow> px_same p q"
  unfolding collect_timeout_def accept_timeout_def lease_ack_timeout_def lease_timeout_def
    lease_renew_timeout_def Let_def
  by (auto simp: px_same_def dest!: px_same_extend_lease split: if_splits)

lemma px_same_updates:
  "px_same p (store_io p)" "px_same p (queue_pending_finisher c p)" "px_same p (wait_for_active c p)"
  "px_same p (wait_for_commit c p)" "px_same p (wait_for_commit_front c p)"
  by (simp_all add: store_io_def px_apply_def queue_pending_finisher_def wait_for_active_def
      wait_for_commit_def wait_for_commit_front_def px_same_def split: list.splits)

lemma px_step_le: "px_step conf nb p q \<Longrightarrow> px_le p q"
proof (induction rule: px_step.induct)
  case (dispatch m mon now cap "from" p q es)
  then show ?case by (auto simp: mon_dispatch_paxos_def dest: px_le_dispatch split: if_splits)
next
  case (committed mon now p q es)
  then show ?case
    by (auto simp: C_Committed_def px_le_def dest!: px_le_commit_finish split: if_splits)
next
  case (pending mon p q t u)
  then show ?case using px_same_service_calls(2) [OF pending] by (simp add: px_le_def px_same_def)
qed (auto intro: px_le_leader_init px_same_le px_same_role_changes px_same_timeouts
     px_same_service_calls px_same_updates)

lemma px_steps_le: "px_steps conf nb p q \<Longrightarrow> px_le p q"
  by (induction rule: px_steps.induct) (auto intro: px_le_trans px_step_le)

section \<open>Properties\<close>


definition ex_mon :: "nat \<Rightarrow> mon_state \<Rightarrow> mon_view" where
  "ex_mon r st = \<lparr>mv_rank = r, mv_state = st, mv_leader = 0, mv_quorum = [0, 1], mv_monmap_size = 2,
     mv_epoch = 2\<rparr>"





definition ex_msg :: "px_op \<Rightarrow> nat \<Rightarrow> mmon_paxos" where
  "ex_msg oper pn = (new_mmon_paxos 2 oper 0)\<lparr>m_pn := pn, m_values := [(1, BL_tx [])]\<rparr>"

lemmas ex_simps = ex_mon_def ex_msg_def new_mmon_paxos_def new_paxos_def is_leader_def is_peon_def
  px_exists_def store_exists_def store_get_def px_apply_def reset_lease_timeout_def Let_def


text \<open>
  C7: phase 2 at a peon. It answers a \<^verbatim>\<open>BEGIN\<close> only under exactly the number it promised and for
  exactly its next version; the value, its version and its number are all on disk when the
  \<^verbatim>\<open>ACCEPT\<close> leaves; and it serves no reads again until it gets a new lease. A \<^verbatim>\<open>BEGIN\<close> under a
  lower number changes nothing.
\<close>

theorem handle_begin_accept:
  assumes "handle_begin mon now m p = Some (q, es)"
  shows "(m_pn m < accepted_pn p \<longrightarrow> q = p \<and> es = []) \<and>
         (\<not> m_pn m < accepted_pn p \<longrightarrow>
            m_pn m = accepted_pn p \<and> m_last_committed m = last_committed p \<and>
            (\<exists>a. es = [Reply a] \<and> m_op a = OP_ACCEPT \<and> m_pn a = accepted_pn p \<and>
                 m_last_committed a = last_committed p) \<and>
            store_get (px_store q) px_name (last_committed p + 1)
              = Some (values_at m (last_committed p + 1)) \<and>
            px_get_num q ''pending_v'' = Some (last_committed p + 1) \<and>
            px_get_num q ''pending_pn'' = Some (accepted_pn p) \<and>
            (\<forall>t v. length (mv_quorum mon) \<noteq> 1 \<longrightarrow> \<not> is_readable mon t v q))"
  using assms unfolding handle_begin_def Let_def
  by (auto simp: px_apply_def px_get_num_def store_get_num_def tx_defs store_get_def
      is_readable_def is_lease_valid_def new_mmon_paxos_def split: if_splits)

lemma handle_begin_accept_witness:
  "\<exists>q es. handle_begin (ex_mon 1 MON_PEON) 0 (ex_msg OP_BEGIN 100) ((new_paxos Map.empty)\<lparr>accepted_pn := 100\<rparr>) = Some (q, es) \<and>
     store_get (px_store q) px_name 1 = Some (BL_tx []) \<and> px_get_num q ''pending_pn'' = Some 100"
proof -
  let ?p = "(new_paxos Map.empty)\<lparr>accepted_pn := 100\<rparr>"
  let ?r = "handle_begin (ex_mon 1 MON_PEON) 0 (ex_msg OP_BEGIN 100) ?p"
  have "\<exists>q es. ?r = Some (q, es)"
    by (simp add: handle_begin_def ex_simps)
  then obtain q es where r: "?r = Some (q, es)" by blast
  from handle_begin_accept [OF r] r show ?thesis
    by (auto simp: ex_msg_def new_mmon_paxos_def new_paxos_def values_at_def)
qed


definition ex_updating :: paxos where
  "ex_updating = (new_paxos Map.empty)
     \<lparr>accepted_pn := 100, px_state := STATE_UPDATING, accepted := {0}, new_value := BL_tx []\<rparr>"


end
