(* ===== verification/PaxosCatchUp.thy ===== *)
theory PaxosCatchUp
  imports PaxosProps
begin

text \<open>
  Recovery and catch-up of \<^verbatim>\<open>mon/Paxos.cc\<close>: which uncommitted value a leader adopts, what a monitor
  that lags behind has after a \<^verbatim>\<open>share_state\<close> / \<^verbatim>\<open>store_state\<close> exchange, what trimming keeps, and the
  read interface.
\<close>

section \<open>Sharing committed versions\<close>

definition versions :: "(nat \<Rightarrow> tx) \<Rightarrow> nat list \<Rightarrow> (nat, bufferlist) omap" where
  "versions f vs = map (\<lambda>v. (v, BL_tx (f v))) vs"

lemma share_fold:
  assumes "\<forall>v \<in> set [a ..< b]. store_get (px_store p) px_name v = Some (BL_tx (f v))" "\<forall>e \<in> set (m_values m). fst e < a"
  shows "fold_opt (\<lambda>m v. if px_exists p v then do {
              bl \<leftarrow> store_get (px_store p) px_name v;
              check (\<not> bl_null bl);
              Some (m\<lparr>m_values := omap_put v bl (m_values m)\<rparr>) }
            else Some m) m [a ..< b]
    = Some (m\<lparr>m_values := m_values m @ versions f [a ..< b]\<rparr>)"
  using assms
proof (induction "b - a" arbitrary: a m)
  case 0
  then show ?case by (simp add: versions_def)
next
  case (Suc n)
  then have lt: "a < b" by simp
  let ?m = "m\<lparr>m_values := m_values m @ [(a, BL_tx (f a))]\<rparr>"
  have "omap_put a (BL_tx (f a)) (m_values m) = m_values m @ [(a, BL_tx (f a))]"
    using omap_put_between [of "m_values m" a "[]"] Suc.prems(2) by simp
  moreover have "\<forall>e \<in> set (m_values ?m). fst e < Suc a"
    using Suc.prems(2) by auto
  ultimately show ?case
    using Suc.hyps(1) [of "Suc a" ?m] Suc.hyps(2) Suc.prems(1) lt
    by (simp add: upt_conv_Cons versions_def px_exists_def store_exists_def store_get_def)
qed

lemma share_state_values:
  assumes "\<forall>v \<in> {lc <.. last_committed p}. store_get (px_store p) px_name v = Some (BL_tx (f v))"
    and "lc < last_committed p" "m_values m = []"
  shows "share_state p lc m
    = Some (m\<lparr>m_values := versions f [lc + 1 ..< Suc (last_committed p)], m_last_committed := last_committed p\<rparr>)"
  unfolding share_state_def using assms
  by (simp add: share_fold [where f = f] del: upt_Suc)

section \<open>Storing them\<close>

text \<open>The transaction that \<^verbatim>\<open>store_state\<close> applies.\<close>

definition catch_up_tx :: "(nat \<Rightarrow> tx) \<Rightarrow> nat list \<Rightarrow> tx" where
  "catch_up_tx f vs = concat (map (\<lambda>v. OP_PUT px_name (Ver v) (BL_tx (f v)) # f v) vs)"

lemma store_fold:
  "fold_opt (\<lambda>t (v, bl). decode_append_transaction (tx_put_ver px_name v bl t) bl) t (versions f vs)
     = Some (t @ catch_up_tx f vs)"
  by (induction vs arbitrary: t)
    (simp_all add: versions_def catch_up_tx_def decode_append_transaction_def tx_decode_def tx_defs)

text \<open>
  What a committed transaction may do to the layer's own keys: it never writes
  \<^verbatim>\<open>last_committed\<close>, and writes \<^verbatim>\<open>first_committed\<close> only as a number (trimming does).
\<close>

definition op_clean :: "db_op \<Rightarrow> bool" where
  "op_clean x = (case x of
     OP_PUT prefix key bl \<Rightarrow> prefix = px_name \<longrightarrow> key \<noteq> Name ''last_committed'' \<and>
       (key = Name ''first_committed'' \<longrightarrow> (case bl of BL_version _ \<Rightarrow> True | _ \<Rightarrow> False))
   | OP_ERASE prefix key \<Rightarrow> prefix = px_name \<longrightarrow> key \<noteq> Name ''last_committed''
   | OP_COMPACT _ _ _ \<Rightarrow> True)"

definition tx_clean :: "tx \<Rightarrow> bool" where
  "tx_clean t = list_all op_clean t"

lemma op_clean_first: "op_clean x \<Longrightarrow> store_get_num st px_name ''first_committed'' \<noteq> None
    \<Longrightarrow> store_get_num (apply_op st x) px_name ''first_committed'' \<noteq> None"
  by (cases x) (auto simp: op_clean_def store_get_num_def split: bufferlist.splits option.splits)

lemma tx_clean_first: "tx_clean t \<Longrightarrow> store_get_num st px_name ''first_committed'' \<noteq> None
    \<Longrightarrow> store_get_num (apply_transaction st t) px_name ''first_committed'' \<noteq> None"
  by (induction t arbitrary: st) (simp_all add: tx_clean_def op_clean_first del: not_None_eq)

lemma tx_clean_last: "tx_clean t \<Longrightarrow> (px_name, Name ''last_committed'') \<notin> tx_keys t"
  by (induction t) (auto simp: tx_clean_def op_clean_def split: db_op.splits)

lemma catch_up_clean: "\<forall>v \<in> set vs. tx_clean (f v) \<Longrightarrow> tx_clean (catch_up_tx f vs)"
  by (induction vs) (auto simp: catch_up_tx_def tx_clean_def op_clean_def)

lemma store_range_versions:
  assumes "lc \<le> m_last_committed m" "m_values m = versions f [lc + 1 ..< Suc (m_last_committed m)]"
    "last_committed p = lc"
  shows "store_range m p = m_values m"
proof -
  have "dropWhile (\<lambda>(v, _). v \<le> lc) (m_values m) = m_values m"
    using assms(2) by (cases "lc < m_last_committed m") (simp_all add: upt_conv_Cons versions_def del: upt_Suc)
  moreover have "takeWhile (\<lambda>(v, _). v \<le> m_last_committed m) (m_values m) = m_values m"
    by (rule takeWhile_eq_all_conv [THEN iffD2]) (auto simp: assms(2) versions_def)
  ultimately show ?thesis by (simp add: store_range_def assms(3))
qed

lemma store_state_versions:
  fixes p :: paxos and m :: mmon_paxos
  defines "vs \<equiv> [last_committed p + 1 ..< Suc (m_last_committed m)]"
  assumes lt: "last_committed p < m_last_committed m" and vals: "m_values m = versions f vs"
    and clean: "\<forall>v \<in> set vs. tx_clean (f v)" and fc: "px_get_num p ''first_committed'' \<noteq> None"
  shows "\<exists>q. store_state m p = Some (q, True) \<and> last_committed q = m_last_committed m \<and>
     px_store q = apply_transaction (px_store p)
       (OP_PUT px_name (Name ''last_committed'') (BL_version (m_last_committed m)) # catch_up_tx f vs)"
proof -
  let ?t = "OP_PUT px_name (Name ''last_committed'') (BL_version (m_last_committed m)) # catch_up_tx f vs"
  let ?st = "apply_transaction (px_store p) ?t"
  have range: "store_range m p = versions f vs"
    using store_range_versions [of "last_committed p" m f p] lt vals by (simp add: vs_def)
  have vs: "vs \<noteq> []" "hd vs = last_committed p + 1" "last vs = m_last_committed m"
    using lt by (simp_all add: vs_def hd_upt del: upt_Suc)
  have ne: "versions f vs \<noteq> []" "fst (hd (versions f vs)) = last_committed p + 1"
    "fst (last (versions f vs)) = m_last_committed m"
    using vs by (simp_all add: versions_def hd_map last_map)
  have lc: "?st (px_name, Name ''last_committed'') = Some (BL_version (m_last_committed m))"
    using apply_transaction_frame [OF tx_clean_last [OF catch_up_clean [OF clean]]] by simp
  have "store_get_num ?st px_name ''first_committed'' \<noteq> None"
  proof -
    have "store_get_num (apply_op (px_store p) (OP_PUT px_name (Name ''last_committed'')
        (BL_version (m_last_committed m)))) px_name ''first_committed'' \<noteq> None"
      using fc by (simp add: px_get_num_def store_get_num_def)
    from tx_clean_first [OF catch_up_clean [OF clean] this] show ?thesis by simp
  qed
  then obtain c where c: "store_get_num ?st px_name ''first_committed'' = Some c" by auto
  show ?thesis
    unfolding store_state_def range vals Let_def
    using ne c lc store_fold [of "[OP_PUT px_name (Name ''last_committed'') (BL_version (m_last_committed m))]" f vs]
    by (auto simp: px_apply_def px_get_num_def sanity_check_store_def tx_put_num_def tx_put_def
        store_get_num_def [of _ _ "''last_committed''"])
qed

section \<open>Properties\<close>

text \<open>
  C13: a monitor that lags behind catches up exactly. If the other one holds all versions it is
  missing, then \<^verbatim>\<open>share_state\<close> followed by \<^verbatim>\<open>store_state\<close> on the message succeeds, brings it to the
  sender's last committed version, and applies, in one transaction and in version order, each
  version's buffer and the transaction in it.
\<close>

theorem catch_up_exact:
  assumes "last_committed p < last_committed s"
    and "\<forall>v \<in> {last_committed p <.. last_committed s}.
           store_get (px_store s) px_name v = Some (BL_tx (f v)) \<and> tx_clean (f v)"
    and "m_values m = []" and "px_get_num p ''first_committed'' \<noteq> None"
  shows "\<exists>m' q. share_state s (last_committed p) m = Some m' \<and> store_state m' p = Some (q, True) \<and>
     last_committed q = last_committed s \<and>
     px_store q = apply_transaction (px_store p)
       (OP_PUT px_name (Name ''last_committed'') (BL_version (last_committed s)) #
        concat (map (\<lambda>v. OP_PUT px_name (Ver v) (BL_tx (f v)) # f v)
          [last_committed p + 1 ..< Suc (last_committed s)]))"
proof -
  let ?m = "m\<lparr>m_values := versions f [last_committed p + 1 ..< Suc (last_committed s)],
    m_last_committed := last_committed s\<rparr>"
  have "share_state s (last_committed p) m = Some ?m"
    using assms by (intro share_state_values) auto
  moreover have "\<exists>q. store_state ?m p = Some (q, True) \<and> last_committed q = last_committed s \<and>
     px_store q = apply_transaction (px_store p)
       (OP_PUT px_name (Name ''last_committed'') (BL_version (last_committed s)) #
        catch_up_tx f [last_committed p + 1 ..< Suc (last_committed s)])"
    using store_state_versions [of p ?m f] assms by (simp del: upt_Suc)
  ultimately show ?thesis unfolding catch_up_tx_def by blast
qed

definition ex_ahead :: paxos where
  "ex_ahead = (new_paxos ([(px_name, Ver 1) \<mapsto> BL_tx [OP_PUT ''osdmap'' (Ver 7) (BL_bytes ''x'')]]))\<lparr>last_committed := 1\<rparr>"

lemma catch_up_exact_witness:
  "\<exists>m' q. share_state ex_ahead 0 (new_mmon_paxos 2 OP_COMMIT 0) = Some m' \<and>
     store_state m' (new_paxos Map.empty) = Some (q, True) \<and>
     px_store q (''osdmap'', Ver 7) = Some (BL_bytes ''x'')"
proof -
  let ?f = "\<lambda>v. [OP_PUT ''osdmap'' (Ver 7) (BL_bytes ''x'')]"
  have "\<forall>v \<in> {0 <.. 1}. store_get (px_store ex_ahead) px_name v = Some (BL_tx (?f v)) \<and> tx_clean (?f v)"
    by (auto simp: ex_ahead_def new_paxos_def store_get_def tx_clean_def op_clean_def)
  with catch_up_exact [of "new_paxos Map.empty" ex_ahead ?f "new_mmon_paxos 2 OP_COMMIT 0"]
  show ?thesis
    by (auto simp: ex_ahead_def new_paxos_def new_mmon_paxos_def px_get_num_def store_get_num_def)
qed

text \<open>
  C14: recovery. Whatever \<^verbatim>\<open>LAST\<close> replies arrive, in whatever order, from peons that are at the
  leader's version, the value the leader ends up with is one that was reported to it (or its own)
  under the highest proposal number of all those reported.
\<close>

theorem recovery_adopts_highest:
  assumes "\<forall>m \<in> set ms. m_last_committed m = last_committed p"
    and "uncommitted_pn p \<noteq> 0 \<longrightarrow> uncommitted_v p = last_committed p + 1"
    and "uncommitted_v p \<le> last_committed p + 1"
  shows "(\<forall>m \<in> set ms. m_uncommitted_pn m \<le> uncommitted_pn (fold learn_uncommitted ms p)) \<and>
         uncommitted_pn p \<le> uncommitted_pn (fold learn_uncommitted ms p) \<and>
         (uncommitted_pn (fold learn_uncommitted ms p) \<noteq> 0 \<longrightarrow>
            uncommitted_v (fold learn_uncommitted ms p) = last_committed p + 1 \<and>
            (uncommitted_pn (fold learn_uncommitted ms p), uncommitted_value (fold learn_uncommitted ms p))
              \<in> insert (uncommitted_pn p, uncommitted_value p)
                  ((\<lambda>m. (m_uncommitted_pn m, values_at m (last_committed p + 1))) ` set ms))"
  using assms
proof (induction ms arbitrary: p)
  case Nil
  then show ?case by simp
next
  case (Cons m ms)
  let ?p = "learn_uncommitted m p"
  have lc: "last_committed ?p = last_committed p" by (simp add: learn_uncommitted_def)
  have "uncommitted_pn ?p \<noteq> 0 \<longrightarrow> uncommitted_v ?p = last_committed ?p + 1"
    "uncommitted_v ?p \<le> last_committed ?p + 1"
    using Cons.prems by (auto simp: learn_uncommitted_def)
  with Cons.IH [of ?p] Cons.prems(1) lc
  have IH: "\<forall>m \<in> set ms. m_uncommitted_pn m \<le> uncommitted_pn (fold learn_uncommitted ms ?p)"
    "uncommitted_pn ?p \<le> uncommitted_pn (fold learn_uncommitted ms ?p)"
    "uncommitted_pn (fold learn_uncommitted ms ?p) \<noteq> 0 \<longrightarrow>
       uncommitted_v (fold learn_uncommitted ms ?p) = last_committed p + 1 \<and>
       (uncommitted_pn (fold learn_uncommitted ms ?p), uncommitted_value (fold learn_uncommitted ms ?p))
         \<in> insert (uncommitted_pn ?p, uncommitted_value ?p)
             ((\<lambda>m. (m_uncommitted_pn m, values_at m (last_committed p + 1))) ` set ms)"
    by auto
  have "m_uncommitted_pn m \<le> uncommitted_pn ?p" "uncommitted_pn p \<le> uncommitted_pn ?p"
    "(uncommitted_pn ?p, uncommitted_value ?p) \<in> {(uncommitted_pn p, uncommitted_value p),
       (m_uncommitted_pn m, values_at m (last_committed p + 1))}"
    using Cons.prems by (auto simp: learn_uncommitted_def)
  with IH show ?case by auto
qed

definition ex_last :: "nat \<Rightarrow> string \<Rightarrow> mmon_paxos" where
  "ex_last pn x = (new_mmon_paxos 2 OP_LAST 0)\<lparr>m_uncommitted_pn := pn, m_values := [(1, BL_bytes x)]\<rparr>"

lemma recovery_adopts_highest_witness:
  "uncommitted_value (fold learn_uncommitted [ex_last 101 ''a'', ex_last 302 ''b'', ex_last 203 ''c''] (new_paxos Map.empty))
     = BL_bytes ''b'' \<and>
   302 \<le> uncommitted_pn (fold learn_uncommitted [ex_last 101 ''a'', ex_last 302 ''b'', ex_last 203 ''c''] (new_paxos Map.empty))"
proof
  show "uncommitted_value (fold learn_uncommitted [ex_last 101 ''a'', ex_last 302 ''b'', ex_last 203 ''c''] (new_paxos Map.empty))
     = BL_bytes ''b''"
    by (simp add: learn_uncommitted_def ex_last_def new_mmon_paxos_def new_paxos_def values_at_def)
  show "302 \<le> uncommitted_pn (fold learn_uncommitted [ex_last 101 ''a'', ex_last 302 ''b'', ex_last 203 ''c''] (new_paxos Map.empty))"
    using recovery_adopts_highest [of "[ex_last 101 ''a'', ex_last 302 ''b'', ex_last 203 ''c'']" "new_paxos Map.empty"]
    by (simp add: ex_last_def new_mmon_paxos_def new_paxos_def del: fold_simps)
qed

section \<open>Trimming\<close>

lemma fold_erase: "fold (tx_erase_ver pre) vs t = t @ map (\<lambda>v. OP_ERASE pre (Ver v)) vs"
  by (induction vs arbitrary: t) (simp_all add: tx_defs)

definition pending_tx :: "paxos \<Rightarrow> tx" where
  "pending_tx p = (case pending_proposal p of None \<Rightarrow> [] | Some t \<Rightarrow> t)"

lemma trim_pending:
  assumes "trim conf mon p = Some q" "q \<noteq> p"
  shows "first_committed p < trim_end conf p" "should_trim conf p" "\<exists>c. tx_keys c = {} \<and>
    pending_proposal q = Some (pending_tx p @ map (\<lambda>v. OP_ERASE px_name (Ver v)) [first_committed p ..< trim_end conf p] @
      OP_PUT px_name (Name ''first_committed'') (BL_version (trim_end conf p)) # c)"
  using assms unfolding trim_def get_pending_transaction_def queue_pending_finisher_def Let_def fold_erase
  by (auto simp: tx_defs pending_tx_def split: if_splits option.splits)

text \<open>
  C16: what a trim adds to the pending proposal removes only versions below the new
  \<^verbatim>\<open>first_committed\<close>, at most \<^verbatim>\<open>paxos_trim_max\<close> of them, and always leaves the last \<^verbatim>\<open>paxos_min\<close>
  versions of any store it is applied to.
\<close>

theorem trim_keeps_paxos_min:
  assumes "trim conf mon p = Some q" "q \<noteq> p"
  shows "first_committed p < trim_end conf p \<and> trim_end conf p + paxos_min conf \<le> last_committed p \<and>
    trim_end conf p \<le> first_committed p + paxos_trim_max conf \<and>
    (\<exists>t. pending_proposal q = Some t \<and>
      (\<forall>st. apply_transaction st t (px_name, Name ''first_committed'') = Some (BL_version (trim_end conf p)) \<and>
        (\<forall>v \<ge> trim_end conf p. (px_name, Ver v) \<notin> tx_keys (pending_tx p) \<longrightarrow>
           apply_transaction st t (px_name, Ver v) = st (px_name, Ver v))))"
proof -
  obtain c where c: "tx_keys c = {}" and
    q: "pending_proposal q = Some (pending_tx p @ map (\<lambda>v. OP_ERASE px_name (Ver v)) [first_committed p ..< trim_end conf p] @
      OP_PUT px_name (Name ''first_committed'') (BL_version (trim_end conf p)) # c)"
    using trim_pending(3) [OF assms] by blast
  have frame: "apply_transaction st c k = st k" for st k
    by (rule apply_transaction_frame) (simp add: c)
  have keys: "tx_keys (map (\<lambda>v. OP_ERASE px_name (Ver v)) vs) = (\<lambda>v. (px_name, Ver v)) ` set vs" for vs
    by (auto simp: tx_keys_def)
  have kept: "apply_transaction (apply_transaction st (pending_tx p))
      (map (\<lambda>v. OP_ERASE px_name (Ver v)) [first_committed p ..< trim_end conf p]) (px_name, Ver v)
      = st (px_name, Ver v)"
    if "trim_end conf p \<le> v" "(px_name, Ver v) \<notin> tx_keys (pending_tx p)" for st v
  proof -
    have "(px_name, Ver v) \<notin> tx_keys (map (\<lambda>v. OP_ERASE px_name (Ver v)) [first_committed p ..< trim_end conf p])"
      using that(1) by (auto simp: keys)
    with that(2) show ?thesis by (simp add: apply_transaction_frame)
  qed
  have "trim_end conf p + paxos_min conf \<le> last_committed p"
    "trim_end conf p \<le> first_committed p + paxos_trim_max conf"
    using trim_pending(1,2) [OF assms] by (auto simp: trim_end_def should_trim_def Let_def split: if_splits)
  with trim_pending(1) [OF assms] show ?thesis by (auto simp: q frame kept)
qed

definition ex_conf :: px_conf where
  "ex_conf = \<lparr>mon_lease = 5, paxos_min = 2, paxos_trim_min = 1, paxos_trim_max = 3, mon_compact_on_trim = True\<rparr>"

definition ex_long :: paxos where
  "ex_long = (new_paxos Map.empty)\<lparr>first_committed := 1, last_committed := 10\<rparr>"

lemma trim_keeps_paxos_min_witness:
  "\<exists>q t. trim ex_conf (ex_mon 0 MON_LEADER) ex_long = Some q \<and> pending_proposal q = Some t \<and>
     trim_end ex_conf ex_long + 2 \<le> 10 \<and>
     apply_transaction Map.empty t (px_name, Name ''first_committed'') = Some (BL_version (trim_end ex_conf ex_long))"
proof -
  let ?q = "the (trim ex_conf (ex_mon 0 MON_LEADER) ex_long)"
  have q: "trim ex_conf (ex_mon 0 MON_LEADER) ex_long = Some ?q" "pending_proposal ?q \<noteq> None"
    by (simp_all add: trim_def trim_end_def should_trim_def get_pending_transaction_def queue_pending_finisher_def
        ex_conf_def ex_long_def ex_mon_def new_paxos_def is_leader_def Let_def)
  then have "?q \<noteq> ex_long" by (auto simp: ex_long_def new_paxos_def)
  from trim_keeps_paxos_min [OF q(1) this] q(1) show ?thesis
    by (auto simp: ex_conf_def ex_long_def)
qed

section \<open>Reading\<close>


end
