(* ===== verification/Striper.thy ===== *)
theory Striper
  imports Prelude "HOL-Library.List_Lexorder" "HOL-Library.Char_ord" "HOL-Library.Monad_Syntax"
begin

text \<open>
  \<^verbatim>\<open>osdc/Striper.cc\<close> and \<^verbatim>\<open>osdc/Striper.h\<close>: how the bytes of a file (or of a block device image) are laid
  out over objects, and how the replies to the object reads are put together again. Offsets and
  lengths are naturals: the code's are 64-bit and the ranges it is called with end below
  \<open>2^64\<close>. An object's name is made from its number by the format string that the caller passes,
  which is the argument \<open>fmt\<close> here. \<open>None\<close> stands for an assertion that fails and for a division by
  a stripe unit or a stripe count of zero. The object locator (the pool) is not modelled: it is
  the same for every extent.
\<close>

section \<open>Definitions\<close>

record file_layout =
  stripe_unit :: nat
  stripe_count :: nat
  object_size :: nat

record object_extent =
  oe_oid :: string
  oe_objectno :: nat
  oe_offset :: nat
  oe_length :: nat
  oe_truncate_size :: nat
  oe_buffer_extents :: "(nat \<times> nat) list"

type_synonym object_extents = "(string, object_extent list) omap"

abbreviation U64_MAX :: nat where
  "U64_MAX \<equiv> 18446744073709551615"

text \<open>\<^verbatim>\<open>file_layout_t::is_valid\<close>; \<^verbatim>\<open>CEPH_MIN_STRIPE_UNIT\<close> is 65536.\<close>

definition layout_is_valid :: "file_layout \<Rightarrow> bool" where
  "layout_is_valid l =
     (if stripe_unit l = 0 \<or> stripe_unit l mod 65536 \<noteq> 0 then False
      else if object_size l = 0 \<or> object_size l mod 65536 \<noteq> 0 then False
      else if object_size l < stripe_unit l \<or> object_size l mod stripe_unit l \<noteq> 0 then False
      else if stripe_count l = 0 then False
      else True)"

definition get_period :: "file_layout \<Rightarrow> nat" where
  "get_period l = stripe_count l * object_size l"

definition object_truncate_size :: "file_layout \<Rightarrow> nat \<Rightarrow> nat \<Rightarrow> nat" where
  "object_truncate_size l objectno trunc_size =
     (if trunc_size = 0 \<or> trunc_size = U64_MAX then trunc_size
      else let
        su = stripe_unit l;
        stripes_per_object = object_size l div su;
        objectsetno = objectno div stripe_count l;
        trunc_objectsetno = trunc_size div object_size l div stripe_count l
      in if objectsetno > trunc_objectsetno then 0
         else if objectsetno < trunc_objectsetno then object_size l
         else let
           trunc_blockno = trunc_size div su;
           trunc_stripeno = trunc_blockno div stripe_count l;
           trunc_stripepos = trunc_blockno mod stripe_count l;
           trunc_objectno = trunc_objectsetno * stripe_count l + trunc_stripepos
         in if objectno < trunc_objectno then (trunc_stripeno mod stripes_per_object + 1) * su
            else if objectno > trunc_objectno then trunc_stripeno mod stripes_per_object * su
            else trunc_stripeno mod stripes_per_object * su + trunc_size mod su)"

text \<open>The layout arithmetic at the head of the loop of \<^verbatim>\<open>file_to_extents\<close>.\<close>

definition layout_object :: "nat \<Rightarrow> nat \<Rightarrow> nat \<Rightarrow> nat \<Rightarrow> nat \<times> nat" where
  "layout_object su sc spo cur =
     (let blockno = cur div su;
          stripeno = blockno div sc;
          stripepos = blockno mod sc;
          objectsetno = stripeno div spo;
          objectno = objectsetno * sc + stripepos;
          block_start = stripeno mod spo * su;
          block_off = cur mod su
      in (objectno, block_start + block_off))"

text \<open>The rest of the body: start an extent in the object's vector or grow its last one.\<close>

definition add_extent :: "(nat \<Rightarrow> nat) \<Rightarrow> string \<Rightarrow> nat \<Rightarrow> nat \<Rightarrow> nat \<Rightarrow> nat \<Rightarrow> object_extent list \<Rightarrow> object_extent list" where
  "add_extent trunc oid objectno x_offset x_len buf exv =
     (if exv = [] \<or> oe_offset (last exv) + oe_length (last exv) \<noteq> x_offset
      then exv @ [\<lparr>oe_oid = oid, oe_objectno = objectno, oe_offset = x_offset, oe_length = x_len,
                   oe_truncate_size = trunc objectno, oe_buffer_extents = [(buf, x_len)]\<rparr>]
      else let ex = last exv in
        butlast exv @ [ex\<lparr>oe_length := oe_length ex + x_len,
                          oe_buffer_extents := oe_buffer_extents ex @ [(buf, x_len)]\<rparr>])"

function extents_loop ::
  "(nat \<Rightarrow> string) \<Rightarrow> (nat \<Rightarrow> nat) \<Rightarrow> nat \<Rightarrow> nat \<Rightarrow> nat \<Rightarrow> nat \<Rightarrow> nat \<Rightarrow> nat \<Rightarrow> nat
     \<Rightarrow> object_extents \<Rightarrow> object_extents" where
  "extents_loop fmt trunc su sc spo offset buffer_offset cur left m =
     (if left = 0 \<or> su = 0 then m
      else let
        (objectno, x_offset) = layout_object su sc spo cur;
        oid = fmt objectno;
        max = su - cur mod su;
        x_len = (if left > max then max else left);
        exv = (case map_of m oid of None \<Rightarrow> [] | Some v \<Rightarrow> v);
        exv = add_extent trunc oid objectno x_offset x_len (cur - offset + buffer_offset) exv
      in extents_loop fmt trunc su sc spo offset buffer_offset (cur + x_len) (left - x_len)
           (omap_put oid exv m))"
  by pat_completeness auto
termination
proof (relation "measure (\<lambda>(_, _, _, _, _, _, _, _, left, _). left)", goal_cases)
  case 1
  show ?case by simp
next
  case (2 fmt trunc su sc spo offset buffer_offset cur left m p objectno x_offset oid max x_len)
  then have "cur mod su < su" by simp
  with 2 show ?case by (simp only: in_measure split: prod.split if_splits) auto
qed

declare extents_loop.simps [simp del]

definition file_to_extents_map ::
  "(nat \<Rightarrow> string) \<Rightarrow> file_layout \<Rightarrow> nat \<Rightarrow> nat \<Rightarrow> nat \<Rightarrow> object_extents \<Rightarrow> nat \<Rightarrow> object_extents option" where
  "file_to_extents_map fmt l offset len trunc_size m buffer_offset =
     (if len = 0 then None
      else if object_size l < stripe_unit l then None
      else let su = (if stripe_count l = 1 then object_size l else stripe_unit l)
        in if su = 0 \<or> stripe_count l = 0 then None
           else Some (extents_loop fmt (\<lambda>o'. object_truncate_size l o' trunc_size) su (stripe_count l)
                  (object_size l div su) offset buffer_offset offset len m))"

definition assimilate_extents :: "object_extents \<Rightarrow> object_extent list \<Rightarrow> object_extent list" where
  "assimilate_extents m extents = extents @ concat (map snd m)"

definition file_to_extents ::
  "(nat \<Rightarrow> string) \<Rightarrow> file_layout \<Rightarrow> nat \<Rightarrow> nat \<Rightarrow> nat \<Rightarrow> object_extent list \<Rightarrow> nat \<Rightarrow> object_extent list option" where
  "file_to_extents fmt l offset len trunc_size extents buffer_offset = do {
     m \<leftarrow> file_to_extents_map fmt l offset len trunc_size [] buffer_offset;
     Some (assimilate_extents m extents) }"

function to_file_loop :: "nat \<Rightarrow> nat \<Rightarrow> nat \<Rightarrow> nat \<Rightarrow> nat \<Rightarrow> nat \<Rightarrow> nat \<Rightarrow> (nat \<times> nat) list \<Rightarrow> (nat \<times> nat) list" where
  "to_file_loop su sc spo objectno off off_in_block len extents =
     (if len = 0 \<or> su \<le> off_in_block then extents
      else let
        stripepos = objectno mod sc;
        objectsetno = objectno div sc;
        stripeno = off div su + objectsetno * spo;
        blockno = stripeno * sc + stripepos;
        extent_off = blockno * su + off_in_block;
        extent_len = min len (su - off_in_block)
      in to_file_loop su sc spo objectno (off + extent_len) 0 (len - extent_len)
           (extents @ [(extent_off, extent_len)]))"
  by pat_completeness auto
termination
  by (relation "measure (\<lambda>(_, _, _, _, _, _, len, _). len)") auto

declare to_file_loop.simps [simp del]

definition extent_to_file :: "file_layout \<Rightarrow> nat \<Rightarrow> nat \<Rightarrow> nat \<Rightarrow> (nat \<times> nat) list \<Rightarrow> (nat \<times> nat) list option" where
  "extent_to_file l objectno off len extents =
     (if object_size l < stripe_unit l then None
      else if stripe_unit l = 0 \<or> (len > 0 \<and> stripe_count l = 0) then None
      else Some (to_file_loop (stripe_unit l) (stripe_count l) (object_size l div stripe_unit l)
             objectno off (off mod stripe_unit l) len extents))"

definition get_num_objects :: "file_layout \<Rightarrow> nat \<Rightarrow> nat" where
  "get_num_objects l sz =
     (let period = get_period l;
          num_periods = (sz + period - 1) div period;
          remainder_bytes = sz mod period;
          remainder_objs =
            (if remainder_bytes > 0 \<and> remainder_bytes < stripe_count l * stripe_unit l
             then stripe_count l - (remainder_bytes + stripe_unit l - 1) div stripe_unit l
             else 0)
      in num_periods * stripe_count l - remainder_objs)"

text \<open>
  The variant for an inode: the format \<^verbatim>\<open>"%llx.%08llx"\<close>, the inode number and the object number in
  lower case hexadecimal, the latter padded to eight digits.
\<close>

definition hex_digit :: "nat \<Rightarrow> char" where
  "hex_digit d = ''0123456789abcdef'' ! d"

fun hex :: "nat \<Rightarrow> string" where
  "hex n = (if n < 16 then [hex_digit n] else hex (n div 16) @ [hex_digit (n mod 16)])"

declare hex.simps [simp del]

definition pad8 :: "string \<Rightarrow> string" where
  "pad8 s = replicate (8 - length s) CHR ''0'' @ s"

definition ino_format :: "nat \<Rightarrow> nat \<Rightarrow> string" where
  "ino_format ino objectno = hex ino @ ''.'' @ pad8 (hex objectno)"

definition file_to_extents_ino ::
  "nat \<Rightarrow> file_layout \<Rightarrow> nat \<Rightarrow> nat \<Rightarrow> nat \<Rightarrow> object_extent list \<Rightarrow> object_extent list option" where
  "file_to_extents_ino ino l offset len trunc_size extents =
     file_to_extents (ino_format ino) l offset len trunc_size extents 0"

section \<open>Assembling a read\<close>

text \<open>
  \<^verbatim>\<open>StripedReadResult\<close>: buffer offset \<open>\<rightarrow>\<close> (data, intended length). \<^verbatim>\<open>bl.splice(0, n, &r)\<close> moves the first
  \<open>n\<close> bytes of \<open>bl\<close> to the end of \<open>r\<close>.
\<close>

record striped_read =
  partial :: "(nat, u8 list \<times> nat) omap"
  total_intended_len :: nat

definition empty_read :: striped_read where
  "empty_read = \<lparr>partial = [], total_intended_len = 0\<rparr>"

definition partial_at :: "striped_read \<Rightarrow> nat \<Rightarrow> u8 list \<times> nat" where
  "partial_at r ofs = (case map_of (partial r) ofs of None \<Rightarrow> ([], 0) | Some x \<Rightarrow> x)"

text \<open>\<open>put_partial r ofs d n\<close>: append \<open>d\<close> to the entry at \<open>ofs\<close> and set its intended length to \<open>n\<close>.\<close>

definition put_partial :: "striped_read \<Rightarrow> nat \<Rightarrow> u8 list \<Rightarrow> nat \<Rightarrow> striped_read" where
  "put_partial r ofs d n =
     r\<lparr>partial := omap_put ofs (fst (partial_at r ofs) @ d, n) (partial r),
       total_intended_len := total_intended_len r + n\<rparr>"

fun add_partial_result :: "u8 list \<Rightarrow> (nat \<times> nat) list \<Rightarrow> striped_read \<Rightarrow> striped_read" where
  "add_partial_result bl [] r = r"
| "add_partial_result bl ((ofs, len) # ps) r =
     (let actual = min (length bl) len
      in add_partial_result (drop actual bl) ps (put_partial r ofs (take actual bl) len))"

text \<open>
  The inner loop of \<^verbatim>\<open>add_partial_sparse_result\<close> for one buffer extent \<open>tofs~tlen\<close>. Its state is the
  rest \<open>s\<close> of the extent map, the buffer, the logical offset and the result. The subtraction that
  gives \<^verbatim>\<open>left\<close> is unsigned.
\<close>

definition sparse_left :: "nat \<Rightarrow> nat \<Rightarrow> nat \<Rightarrow> nat" where
  "sparse_left so sl bl_off = nat ((int so + int sl - int bl_off) mod 2 ^ 64)"

definition sparse_gap :: "nat \<Rightarrow> nat \<Rightarrow> nat \<Rightarrow> nat" where
  "sparse_gap so bl_off tlen = (if so > bl_off then min (so - bl_off) tlen else 0)"

function sparse_loop ::
  "(nat \<times> nat) list \<Rightarrow> u8 list \<Rightarrow> nat \<Rightarrow> nat \<Rightarrow> nat \<Rightarrow> striped_read
     \<Rightarrow> ((nat \<times> nat) list \<times> u8 list \<times> nat \<times> striped_read) option" where
  "sparse_loop s bl bl_off tofs tlen r =
     (if tlen = 0 then Some (s, bl, bl_off, r)
      else case s of
        [] \<Rightarrow> Some (s, bl, bl_off, put_partial r tofs [] tlen)
      | (so, sl) # s' \<Rightarrow>
          if sl = 0 then sparse_loop s' bl bl_off tofs tlen r
          else let
            gap = sparse_gap so bl_off tlen;
            r = (if so > bl_off then put_partial r tofs [] gap else r);
            bl_off = bl_off + gap;
            tofs = tofs + gap;
            tlen = tlen - gap
          in if tlen = 0 then Some (s, bl, bl_off, r)
             else let
               left = sparse_left so sl bl_off;
               actual = min left tlen
             in if so > bl_off \<or> actual > length bl then None
                else let r = (if actual > 0 then put_partial r tofs (take actual bl) actual else r)
                  in sparse_loop (if actual = left then s' else s) (drop actual bl) (bl_off + actual)
                       (tofs + actual) (tlen - actual) r)"
  by pat_completeness auto
termination
proof (relation "measure (\<lambda>(s, bl, bl_off, tofs, tlen, r). length s + tlen)", goal_cases)
  case 1
  show ?case by simp
next
  case 2
  then show ?case by simp
next
  case 3
  then show ?case by (simp add: min_def split: if_splits)
qed

declare sparse_loop.simps [simp del]

fun add_partial_sparse_result ::
  "u8 list \<Rightarrow> (nat \<times> nat) list \<Rightarrow> nat \<Rightarrow> (nat \<times> nat) list \<Rightarrow> striped_read \<Rightarrow> striped_read option" where
  "add_partial_sparse_result bl s bl_off [] r = Some r"
| "add_partial_sparse_result bl s bl_off ((tofs, tlen) # ps) r = do {
     (s, bl, bl_off, r) \<leftarrow> sparse_loop s bl bl_off tofs tlen r;
     add_partial_sparse_result bl s bl_off ps r }"

text \<open>\<^verbatim>\<open>assemble_result\<close> into a buffer list: the map from its last entry to its first.\<close>

fun assemble_rev :: "bool \<Rightarrow> (nat \<times> u8 list \<times> nat) list \<Rightarrow> nat \<Rightarrow> u8 list \<Rightarrow> u8 list option" where
  "assemble_rev zero_tail [] en bl = Some bl"
| "assemble_rev zero_tail ((ofs, d, n) # ps) en bl =
     (if ofs + n \<noteq> en then None
      else assemble_rev zero_tail ps ofs
        (if length d < n then
           if zero_tail \<or> bl \<noteq> [] then d @ replicate (n - length d) 0 @ bl else d @ bl
         else d @ bl))"

definition assemble_result :: "bool \<Rightarrow> u8 list \<Rightarrow> striped_read \<Rightarrow> (u8 list \<times> striped_read) option" where
  "assemble_result zero_tail bl r =
     (case rev (partial r) of
        [] \<Rightarrow> Some (bl, r)
      | (ofs, d, n) # ps \<Rightarrow> do {
          bl \<leftarrow> assemble_rev zero_tail ((ofs, d, n) # ps) (ofs + n) bl;
          Some (bl, r\<lparr>partial := []\<rparr>) })"

text \<open>
  \<^verbatim>\<open>assemble_result\<close> into a caller's buffer of \<^verbatim>\<open>length\<close> bytes; a copy past its end is \<open>None\<close>.
\<close>

definition write_at :: "nat \<Rightarrow> u8 list \<Rightarrow> u8 list \<Rightarrow> u8 list option" where
  "write_at pos xs buf =
     (if pos + length xs \<le> length buf then Some (take pos buf @ xs @ drop (pos + length xs) buf) else None)"

fun assemble_buf_rev :: "(nat \<times> u8 list \<times> nat) list \<Rightarrow> nat \<Rightarrow> nat \<Rightarrow> u8 list \<Rightarrow> u8 list option" where
  "assemble_buf_rev [] en pos buf = (if pos = 0 then Some buf else None)"
| "assemble_buf_rev ((ofs, d, n) # ps) en pos buf =
     (if ofs + n \<noteq> en \<or> pos < n then None
      else do {
        buf \<leftarrow> write_at (pos - n) (if length d < n then d @ replicate (n - length d) 0 else d) buf;
        assemble_buf_rev ps ofs (pos - n) buf })"

definition assemble_result_buf :: "u8 list \<Rightarrow> striped_read \<Rightarrow> (u8 list \<times> striped_read) option" where
  "assemble_result_buf buf r =
     (if length buf \<noteq> total_intended_len r then None
      else case rev (partial r) of
        [] \<Rightarrow> Some (buf, r)
      | (ofs, d, n) # ps \<Rightarrow> do {
          buf \<leftarrow> assemble_buf_rev ((ofs, d, n) # ps) (ofs + n) (length buf) buf;
          Some (buf, r\<lparr>partial := []\<rparr>) })"

end
