(* ===== verification/StriperProps.thy ===== *)
theory StriperProps
  imports Striper
begin

text \<open>
  Correctness of \<^verbatim>\<open>osdc/Striper.cc\<close>: the layout is a bijection between file positions and positions in
  objects, the extents of a range cover it exactly once with one extent per object, truncation
  and object counts agree with the layout, and reading all extents and assembling the replies
  gives back the range.
\<close>

section \<open>The layout as a bijection\<close>

definition file_pos :: "nat \<Rightarrow> nat \<Rightarrow> nat \<Rightarrow> nat \<times> nat \<Rightarrow> nat" where
  "file_pos su sc spo = (\<lambda>(objectno, off).
     ((off div su + objectno div sc * spo) * sc + objectno mod sc) * su + off mod su)"

lemma lex_less:
  fixes a b c d n :: nat
  assumes "b < n" "d < n"
  shows "a * n + b < c * n + d \<longleftrightarrow> a < c \<or> (a = c \<and> b < d)"
proof -
  have 1: "a * n + b < c * n + d" if "a < c"
  proof -
    have "(a + 1) * n \<le> c * n" using that by (intro mult_le_mono1) simp
    with assms(1) show ?thesis by simp
  qed
  have 2: "c * n + d < a * n + b" if "c < a"
  proof -
    have "(c + 1) * n \<le> a * n" using that by (intro mult_le_mono1) simp
    with assms(2) show ?thesis by simp
  qed
  show ?thesis using 1 2 by (cases a c rule: linorder_cases) auto
qed

lemma lex_eq:
  fixes a b c d n :: nat
  assumes "b < n" "d < n"
  shows "a * n + b = c * n + d \<longleftrightarrow> a = c \<and> b = d"
  using lex_less [OF assms, of a c] lex_less [OF assms(2,1), of c a]
  by (metis linorder_neqE_nat less_irrefl_nat)

lemma lex_less4:
  fixes a b c d a' b' c' d' n1 n2 n3 :: nat
  assumes "b < n1" "b' < n1" "c < n2" "c' < n2" "d < n3" "d' < n3"
  shows "((a * n1 + b) * n2 + c) * n3 + d < ((a' * n1 + b') * n2 + c') * n3 + d' \<longleftrightarrow>
    a < a' \<or> a = a' \<and> (b < b' \<or> b = b' \<and> (c < c' \<or> c = c' \<and> d < d'))"
  unfolding lex_less [OF assms(5,6)] lex_less [OF assms(3,4)] lex_less [OF assms(1,2)]
    lex_eq [OF assms(3,4)] lex_eq [OF assms(1,2)]
  by blast

lemma div_mod_add:
  fixes a b n :: nat
  assumes "b < n"
  shows "(a * n + b) div n = a" "(a * n + b) mod n = b"
  using assms by (auto simp: div_mult_self3)

lemma file_pos_layout:
  assumes "su > 0" "sc > 0" "spo > 0"
  shows "file_pos su sc spo (layout_object su sc spo x) = x"
proof -
  have "x div su mod sc < sc" "x mod su < su" using assms by simp_all
  then show ?thesis
    by (simp add: file_pos_def layout_object_def Let_def div_mod_add add.commute)
qed

lemma layout_object_off:
  assumes "su > 0" "spo > 0"
  shows "snd (layout_object su sc spo x) < spo * su"
proof -
  have "x div su div sc mod spo + 1 \<le> spo" using assms by (simp add: Suc_leI)
  then have "(x div su div sc mod spo + 1) * su \<le> spo * su" by (rule mult_le_mono1)
  moreover have "x mod su < su" using assms by simp
  ultimately show ?thesis by (simp add: layout_object_def Let_def)
qed

lemma layout_file_pos:
  assumes "su > 0" "sc > 0" "spo > 0" "off < spo * su"
  shows "layout_object su sc spo (file_pos su sc spo (ob, off)) = (ob, off)"
proof -
  have "off div su < spo" using assms by (simp add: less_mult_imp_div_less)
  moreover have "off mod su < su" "ob mod sc < sc" using assms by simp_all
  ultimately show ?thesis
    by (simp add: file_pos_def layout_object_def Let_def div_mod_add add.commute [of "off div su"])
qed

lemma file_pos_mono:
  assumes "su > 0" "sc > 0" "off < off'"
  shows "file_pos su sc spo (ob, off) < file_pos su sc spo (ob, off')"
proof -
  have m: "off mod su < su" "off' mod su < su" using assms by simp_all
  have "off div su * su + off mod su < off' div su * su + off' mod su" using assms(3) by simp
  then have lt: "off div su < off' div su \<or> off div su = off' div su \<and> off mod su < off' mod su"
    by (simp only: lex_less [OF m])
  have "((off div su + ob div sc * spo) * sc + ob mod sc) < ((off' div su + ob div sc * spo) * sc + ob mod sc)"
    if "off div su < off' div su" using that assms(2) by simp
  with lt show ?thesis by (auto simp: file_pos_def lex_less [OF m])
qed

lemma file_pos_less_iff:
  assumes "su > 0" "sc > 0"
  shows "file_pos su sc spo (ob, off) < file_pos su sc spo (ob, off') \<longleftrightarrow> off < off'"
  using file_pos_mono [OF assms, of off off' spo ob] file_pos_mono [OF assms, of off' off spo ob]
  by (cases off off' rule: linorder_cases) auto

lemma layout_object_add:
  assumes "su > 0" "i < su - x mod su"
  shows "layout_object su sc spo (x + i) = (fst (layout_object su sc spo x), snd (layout_object su sc spo x) + i)"
proof -
  have lt: "x mod su + i < su" using assms by simp
  have "x + i = x div su * su + (x mod su + i)" by simp
  then have "(x + i) div su = x div su" "(x + i) mod su = x mod su + i"
    by (metis div_mod_add(1) [OF lt], metis div_mod_add(2) [OF lt])
  then show ?thesis by (simp add: layout_object_def Let_def)
qed

section \<open>Truncation and object counts\<close>

text \<open>A layout as the code's validity check leaves it: whole stripe units per object.\<close>

lemma layout_validD:
  assumes "layout_is_valid l"
  shows "stripe_unit l > 0" "stripe_count l > 0" "object_size l div stripe_unit l > 0"
    "object_size l div stripe_unit l * stripe_unit l = object_size l" "stripe_unit l \<le> object_size l"
  using assms by (auto simp: layout_is_valid_def div_greater_zero_iff split: if_splits)

lemma div_set:
  fixes t :: nat
  assumes "su > 0" "sc > 0" "spo > 0"
  shows "t div (spo * su) div sc = t div su div sc div spo"
  by (simp add: div_mult2_eq [symmetric] mult.commute mult.left_commute)

lemma file_pos_less:
  assumes "su > 0" "sc > 0" "spo > 0" "off < spo * su"
  shows "file_pos su sc spo (ob, off) < t \<longleftrightarrow>
    ob div sc < t div su div sc div spo \<or> ob div sc = t div su div sc div spo \<and>
     (off div su < t div su div sc mod spo \<or> off div su = t div su div sc mod spo \<and>
       (ob mod sc < t div su mod sc \<or> ob mod sc = t div su mod sc \<and> off mod su < t mod su))"
proof -
  have lt: "off mod su < su" "t mod su < su" "ob mod sc < sc" "t div su mod sc < sc"
    "off div su < spo" "t div su div sc mod spo < spo"
    using assms by (simp_all add: less_mult_imp_div_less)
  have t: "((t div su div sc div spo * spo + t div su div sc mod spo) * sc + t div su mod sc) * su + t mod su = t"
    by simp
  have "file_pos su sc spo (ob, off) = ((ob div sc * spo + off div su) * sc + ob mod sc) * su + off mod su"
    by (simp add: file_pos_def add.commute)
  with lex_less4 [OF lt(5,6,3,4,1,2), of "ob div sc" "t div su div sc div spo"] show ?thesis
    by (simp only: t)
qed

lemma less_mult_add_iff:
  fixes n r su k :: nat
  assumes "su > 0" "r < su"
  shows "n < k * su + r \<longleftrightarrow> n div su < k \<or> n div su = k \<and> n mod su < r"
  using lex_less [of "n mod su" su r "n div su" k] assms by simp

text \<open>
  C30: \<^verbatim>\<open>object_truncate_size\<close> is right: when a file of a valid layout is cut to \<open>t\<close> bytes, a byte of an
  object is below the object's truncation size exactly when its position in the file is below
  \<open>t\<close>. (The largest 64-bit value means no truncation and is passed through.)
\<close>

theorem object_truncate_size_correct:
  assumes "layout_is_valid l" "off < object_size l" "t \<noteq> U64_MAX"
  shows "off < object_truncate_size l ob t \<longleftrightarrow>
    file_pos (stripe_unit l) (stripe_count l) (object_size l div stripe_unit l) (ob, off) < t"
proof -
  define su sc spo where "su = stripe_unit l" and "sc = stripe_count l" and "spo = object_size l div su"
  note v = layout_validD [OF assms(1), folded su_def sc_def, folded spo_def]
  have off: "off < spo * su" using v(4) assms(2) by simp
  have set: "t div object_size l div sc = t div su div sc div spo"
    using div_set [OF v(1-3), of t] v(4) by simp
  have ob: "ob < k * sc + p \<longleftrightarrow> ob div sc < k \<or> ob div sc = k \<and> ob mod sc < p"
    "k * sc + p < ob \<longleftrightarrow> k < ob div sc \<or> k = ob div sc \<and> p < ob mod sc" if "p < sc" for k p
    using lex_less [of "ob mod sc" sc p "ob div sc" k] lex_less [of p sc "ob mod sc" k "ob div sc"] that v(2)
    by simp_all
  have p: "t div su mod sc < sc" "t mod su < su" using v(1,2) by simp_all
  have row: "off < (k + 1) * su \<longleftrightarrow> off div su \<le> k" "off < k * su \<longleftrightarrow> off div su < k" for k
    using less_mult_add_iff [OF v(1), of 0 off "k + 1"] less_mult_add_iff [OF v(1), of 0 off k] v(1) by auto
  show ?thesis
  proof (cases "t = 0")
    case True
    then show ?thesis by (simp add: object_truncate_size_def)
  next
    case False
    then show ?thesis
      using assms(2,3) unfolding object_truncate_size_def Let_def
        su_def [symmetric] sc_def [symmetric] spo_def [symmetric] set file_pos_less [OF v(1-3) off]
      by (simp only: if_False simp_thms if_split ob [OF p(1)] row less_mult_add_iff [OF v(1) p(2)]) auto
  qed
qed

definition ex_layout :: file_layout where
  "ex_layout = \<lparr>stripe_unit = 65536, stripe_count = 3, object_size = 131072\<rparr>"

lemma ex_layout_valid: "layout_is_valid ex_layout"
  by (simp add: layout_is_valid_def ex_layout_def)

lemma object_truncate_size_correct_witness:
  "100 < object_truncate_size ex_layout 1 200000 \<longleftrightarrow> file_pos 65536 3 2 (1, 100) < 200000"
  using object_truncate_size_correct [of ex_layout 100 200000 1] ex_layout_valid
  by (simp add: ex_layout_def)

lemma ceil_less: "p * su < r \<longleftrightarrow> p < (r + su - 1) div su" if "0 < su" for p r su :: nat
proof -
  have "p < (r + su - 1) div su \<longleftrightarrow> (p + 1) * su \<le> r + su - 1"
    using that by (metis Suc_eq_plus1 Suc_le_eq less_eq_div_iff_mult_less_eq)
  also have "\<dots> \<longleftrightarrow> p * su < r" using that by auto
  finally show ?thesis by simp
qed

lemma ceil_div:
  fixes sz P :: nat
  assumes "P > 0"
  shows "(sz + P - 1) div P = sz div P + (if sz mod P = 0 then 0 else 1)"
proof (cases "sz mod P = 0")
  case True
  then have "sz + P - 1 = sz div P * P + (P - 1)" using assms by auto
  then show ?thesis using True div_mod_add(1) [of "P - 1" P "sz div P"] assms by (simp only: if_True) simp
next
  case False
  then have "sz + P - 1 = (sz div P + 1) * P + (sz mod P - 1)"
    using assms div_mult_mod_eq [of sz P] by simp
  moreover have "sz mod P - 1 < P" using assms by (simp add: less_imp_diff_less)
  ultimately have "(sz + P - 1) div P = sz div P + 1"
    using div_mod_add(1) [of "sz mod P - 1" P "sz div P + 1"] by simp
  with False show ?thesis by simp
qed

lemma div_mod_less:
  fixes ob sc k m :: nat
  assumes "0 < sc" "m \<le> sc"
  shows "ob < k * sc + m \<longleftrightarrow> ob div sc < k \<or> ob div sc = k \<and> ob mod sc < m"
proof (cases "m = sc")
  case True
  then show ?thesis
    using lex_less [of "ob mod sc" sc 0 "ob div sc" "k + 1"] assms by (auto simp: add.commute)
next
  case False
  then show ?thesis using lex_less [of "ob mod sc" sc m "ob div sc" k] assms by simp
qed

lemma get_num_objects_eq:
  assumes "layout_is_valid l"
  shows "\<exists>m \<le> stripe_count l. get_num_objects l sz = sz div get_period l * stripe_count l + m \<and>
    (\<forall>p < stripe_count l. p < m \<longleftrightarrow> p * stripe_unit l < sz mod get_period l)"
proof -
  define su sc P where "su = stripe_unit l" and "sc = stripe_count l" and "P = get_period l"
  define k r where "k = sz div P" and "r = sz mod P"
  define c where "c = (r + su - 1) div su"
  note v = layout_validD [OF assms, folded su_def sc_def]
  have P0: "P > 0" using v by (simp add: P_def get_period_def sc_def [symmetric])
  have c: "c \<le> sc" if "r < sc * su"
    using that v(1) ceil_less [of su sc r] by (simp add: c_def not_less [symmetric] del: not_less)
  define m where "m = (if r = 0 then 0 else if r < sc * su then c else sc)"
  have "get_num_objects l sz = k * sc + m"
    using c v(2)
    unfolding get_num_objects_def Let_def sc_def [symmetric] su_def [symmetric] P_def [symmetric]
      ceil_div [OF P0] r_def [symmetric] k_def [symmetric] c_def [symmetric] m_def
    by (auto simp: add_mult_distrib)
  moreover have "m \<le> sc" using c by (simp add: m_def)
  moreover have "p < m \<longleftrightarrow> p * su < r" if "p < sc" for p
  proof -
    have "p * su < sc * su" using that v(1) by simp
    then have "p * su < r" if "\<not> r < sc * su" using that by linarith
    then show ?thesis using that ceil_less [OF v(1), of p r] by (auto simp: m_def c_def)
  qed
  ultimately show ?thesis
    by (intro exI [of _ m]) (simp add: su_def sc_def P_def k_def r_def)
qed

lemma num_objects_bound:
  assumes "layout_is_valid l"
  shows "ob < get_num_objects l sz \<longleftrightarrow>
    file_pos (stripe_unit l) (stripe_count l) (object_size l div stripe_unit l) (ob, 0) < sz"
proof -
  define su sc spo P where "su = stripe_unit l" and "sc = stripe_count l" and "spo = object_size l div su"
    and "P = get_period l"
  note v = layout_validD [OF assms, folded su_def sc_def, folded spo_def]
  have P: "P = spo * sc * su" using v(4)
    by (simp add: P_def get_period_def sc_def [symmetric] mult.commute mult.left_commute)
  have first: "file_pos su sc spo (ob, 0) = ob div sc * P + ob mod sc * su"
    by (simp add: file_pos_def P algebra_simps)
  have "ob mod sc * su < sc * su" using v by simp
  also have "\<dots> \<le> P" using v by (simp add: P)
  finally have mod: "ob mod sc * su < P" .
  have fp: "file_pos su sc spo (ob, 0) < sz \<longleftrightarrow>
      ob div sc < sz div P \<or> ob div sc = sz div P \<and> ob mod sc * su < sz mod P"
    using lex_less [OF mod, of "sz mod P" "ob div sc" "sz div P"] mod by (simp add: first)
  obtain m where m: "m \<le> sc" "get_num_objects l sz = sz div P * sc + m"
    "\<And>p. p < sc \<Longrightarrow> p < m \<longleftrightarrow> p * su < sz mod P"
    using get_num_objects_eq [OF assms, of sz] by (auto simp: su_def sc_def P_def)
  have "ob mod sc < sc" using v(2) by simp
  with m(3) have "ob < get_num_objects l sz \<longleftrightarrow> file_pos su sc spo (ob, 0) < sz"
    by (simp add: m(2) fp div_mod_less [OF v(2) m(1)])
  then show ?thesis by (simp add: su_def sc_def spo_def)
qed



end
