(* ===== verification/StriperExtents.thy ===== *)
theory StriperExtents
  imports StriperProps
begin

text \<open>
  The loop of \<^verbatim>\<open>Striper::file_to_extents\<close>: what the extents of a file range are, and the inverse
  mapping \<^verbatim>\<open>extent_to_file\<close>.
\<close>

section \<open>Object names\<close>

definition hex_value :: "char \<Rightarrow> nat" where
  "hex_value c = (if of_char c < (58 :: nat) then of_char c - 48 else of_char c - 87)"

definition hex_number :: "string \<Rightarrow> nat" where
  "hex_number s = foldl (\<lambda>n c. n * 16 + hex_value c) 0 s"

lemma hex_value_digit: "d < 16 \<Longrightarrow> hex_value (hex_digit d) = d"
proof -
  assume "d < 16"
  moreover have "list_all (\<lambda>d. hex_value (hex_digit d) = d) [0 ..< 16]" by code_simp
  ultimately show ?thesis by (simp add: list_all_iff)
qed

lemma hex_number_hex: "hex_number (hex n) = n"
proof (induction n rule: hex.induct)
  case (1 n)
  then show ?case
    by (subst hex.simps) (simp add: hex_number_def hex_value_digit)
qed

lemma hex_number_pad8: "hex_number (pad8 s) = hex_number s"
proof -
  have "foldl (\<lambda>n c. n * 16 + hex_value c) 0 (replicate k CHR ''0'') = 0" for k
    by (induction k) (simp_all add: hex_value_def)
  then show ?thesis by (simp add: hex_number_def pad8_def)
qed

lemma inj_ino_format: "inj (ino_format ino)"
proof (rule injI)
  fix a b assume "ino_format ino a = ino_format ino b"
  then have "hex_number (pad8 (hex a)) = hex_number (pad8 (hex b))" by (simp add: ino_format_def)
  then show "a = b" by (simp add: hex_number_pad8 hex_number_hex)
qed

section \<open>The bytes of an extent\<close>

text \<open>Object position and buffer position of every byte of an extent, in order.\<close>

definition buffer_bytes :: "(nat \<times> nat) list \<Rightarrow> nat list" where
  "buffer_bytes be = concat (map (\<lambda>(b, n). [b ..< b + n]) be)"

definition ext_bytes :: "object_extent \<Rightarrow> ((nat \<times> nat) \<times> nat) list" where
  "ext_bytes e = zip (map (Pair (oe_objectno e)) [oe_offset e ..< oe_offset e + oe_length e])
     (buffer_bytes (oe_buffer_extents e))"

definition ext_ok :: "object_extent \<Rightarrow> bool" where
  "ext_ok e \<longleftrightarrow> length (buffer_bytes (oe_buffer_extents e)) = oe_length e"

lemma buffer_bytes_simps [simp]:
  "buffer_bytes [] = []" "buffer_bytes ((b, n) # be) = [b ..< b + n] @ buffer_bytes be"
  "buffer_bytes (be @ be') = buffer_bytes be @ buffer_bytes be'"
  by (simp_all add: buffer_bytes_def)

lemma set_zip_piece:
  "set (zip (map (Pair ob) [a ..< a + n]) [b ..< b + n]) = {((ob, a + i), b + i) |i. i < n}"
  by (auto simp: set_zip) (metis add_less_cancel_left nth_map_upt nth_upt add_diff_cancel_left')

definition grow :: "object_extent \<Rightarrow> nat \<Rightarrow> nat \<Rightarrow> object_extent" where
  "grow e buf n = e\<lparr>oe_length := oe_length e + n, oe_buffer_extents := oe_buffer_extents e @ [(buf, n)]\<rparr>"

lemma ext_bytes_grow:
  assumes "ext_ok e"
  shows "set (ext_bytes (grow e buf n)) =
      set (ext_bytes e) \<union> {((oe_objectno e, oe_offset e + oe_length e + i), buf + i) |i. i < n}"
    "ext_ok (grow e buf n)"
proof -
  have split: "[oe_offset e ..< oe_offset e + (oe_length e + n)] =
      [oe_offset e ..< oe_offset e + oe_length e] @ [oe_offset e + oe_length e ..< oe_offset e + oe_length e + n]"
    using upt_add_eq_append [of "oe_offset e" "oe_offset e + oe_length e" n] by (simp add: add.assoc)
  show "set (ext_bytes (grow e buf n)) =
      set (ext_bytes e) \<union> {((oe_objectno e, oe_offset e + oe_length e + i), buf + i) |i. i < n}"
    using assms by (simp add: ext_bytes_def ext_ok_def grow_def split set_zip_piece)
  show "ext_ok (grow e buf n)" using assms by (simp add: ext_ok_def grow_def)
qed

section \<open>The loop invariant\<close>

text \<open>The vector of an object (\<^verbatim>\<open>object_extents[oid]\<close>), and the bytes of all of them.\<close>

definition exv_of :: "(string \<rightharpoonup> object_extent list) \<Rightarrow> string \<Rightarrow> object_extent list" where
  "exv_of M k = (case M k of None \<Rightarrow> [] | Some v \<Rightarrow> v)"

definition vec_bytes :: "object_extent list \<Rightarrow> ((nat \<times> nat) \<times> nat) set" where
  "vec_bytes v = (\<Union>e \<in> set v. set (ext_bytes e))"

definition all_bytes :: "(string \<rightharpoonup> object_extent list) \<Rightarrow> ((nat \<times> nat) \<times> nat) set" where
  "all_bytes M = (\<Union>k. vec_bytes (exv_of M k))"

text \<open>
  After the loop has dealt with the file range \<open>[offset, cur)\<close>: one extent per object, which spans
  exactly the object's share of the range.
\<close>

definition entry_ok :: "(nat \<Rightarrow> string) \<Rightarrow> nat \<Rightarrow> nat \<Rightarrow> nat \<Rightarrow> nat \<Rightarrow> nat \<Rightarrow> string \<Rightarrow> object_extent list \<Rightarrow> bool" where
  "entry_ok fmt su sc spo offset cur k v \<longleftrightarrow> (\<exists>e. v = [e] \<and> k = fmt (oe_objectno e) \<and> ext_ok e \<and> 0 < oe_length e \<and>
     (\<forall>off. oe_offset e \<le> off \<and> off < oe_offset e + oe_length e \<longleftrightarrow>
        off < spo * su \<and> offset \<le> file_pos su sc spo (oe_objectno e, off) \<and>
        file_pos su sc spo (oe_objectno e, off) < cur))"

definition loop_inv :: "(nat \<Rightarrow> string) \<Rightarrow> nat \<Rightarrow> nat \<Rightarrow> nat \<Rightarrow> nat \<Rightarrow> nat \<Rightarrow> nat \<Rightarrow> (string \<rightharpoonup> object_extent list) \<Rightarrow> bool" where
  "loop_inv fmt su sc spo offset buf cur M \<longleftrightarrow> offset \<le> cur \<and>
     (\<forall>k v. M k = Some v \<longrightarrow> entry_ok fmt su sc spo offset cur k v) \<and>
     (\<forall>x. offset \<le> x \<longrightarrow> x < cur \<longrightarrow> M (fmt (fst (layout_object su sc spo x))) \<noteq> None) \<and>
     all_bytes M = {(layout_object su sc spo x, x - offset + buf) |x. offset \<le> x \<and> x < cur}"

lemma loop_inv_init: "loop_inv fmt su sc spo offset buf offset Map.empty"
  by (auto simp: loop_inv_def all_bytes_def exv_of_def vec_bytes_def)

text \<open>One pass of the body handles \<open>n\<close> bytes from \<open>cur\<close>, all in one block of one object.\<close>

definition piece :: "nat \<Rightarrow> nat \<Rightarrow> nat \<Rightarrow> nat \<Rightarrow> nat \<Rightarrow> nat \<Rightarrow> nat \<Rightarrow> bool" where
  "piece su sc spo cur n ob xo \<longleftrightarrow> su > 0 \<and> sc > 0 \<and> spo > 0 \<and> n > 0 \<and>
     (\<forall>i < n. layout_object su sc spo (cur + i) = (ob, xo + i))"

lemma piece_pos: "piece su sc spo cur n ob xo \<Longrightarrow> su > 0" "piece su sc spo cur n ob xo \<Longrightarrow> sc > 0"
  "piece su sc spo cur n ob xo \<Longrightarrow> spo > 0" "piece su sc spo cur n ob xo \<Longrightarrow> n > 0"
  by (auto simp: piece_def)

lemma piece_here: "piece su sc spo cur n ob xo \<Longrightarrow> i < n \<Longrightarrow> layout_object su sc spo (cur + i) = (ob, xo + i)"
  by (auto simp: piece_def)

lemma piece_fp: "piece su sc spo cur n ob xo \<Longrightarrow> i < n \<Longrightarrow> file_pos su sc spo (ob, xo + i) = cur + i"
  using file_pos_layout [of su sc spo "cur + i"] piece_here [of su sc spo cur n ob xo i] by (auto simp: piece_def)

lemma piece_off: "piece su sc spo cur n ob xo \<Longrightarrow> i < n \<Longrightarrow> xo + i < spo * su"
  using layout_object_off [of su spo sc "cur + i"] piece_here [of su sc spo cur n ob xo i] by (auto simp: piece_def)

lemma piece_at:
  assumes p: "piece su sc spo cur n ob xo" and off: "off < spo * su"
    and "cur \<le> file_pos su sc spo (ob', off)" "file_pos su sc spo (ob', off) < cur + n"
  shows "ob' = ob \<and> xo \<le> off \<and> off < xo + n"
proof -
  define i where "i = file_pos su sc spo (ob', off) - cur"
  have i: "i < n" "file_pos su sc spo (ob', off) = cur + i" using assms by (simp_all add: i_def)
  have "layout_object su sc spo (cur + i) = (ob', off)"
    using layout_file_pos [OF piece_pos(1-3) [OF p] off, of ob'] i(2) by simp
  with piece_here [OF p i(1)] i(1) show ?thesis by auto
qed

lemma piece_span:
  assumes p: "piece su sc spo cur n ob xo"
  shows "xo \<le> off \<and> off < xo + n \<longleftrightarrow>
    off < spo * su \<and> cur \<le> file_pos su sc spo (ob, off) \<and> file_pos su sc spo (ob, off) < cur + n"
proof
  assume "xo \<le> off \<and> off < xo + n"
  then obtain i where "off = xo + i" "i < n" by (metis le_Suc_ex nat_add_left_cancel_less)
  then show "off < spo * su \<and> cur \<le> file_pos su sc spo (ob, off) \<and> file_pos su sc spo (ob, off) < cur + n"
    using piece_fp [OF p] piece_off [OF p] by simp
qed (use piece_at [OF p] in blast)

text \<open>An object that already has an extent gets its next bytes right behind it.\<close>

lemma entry_contiguous:
  assumes p: "piece su sc spo cur n ob xo" and e: "entry_ok fmt su sc spo offset cur (fmt ob) [e]"
    and inj: "inj fmt"
  shows "oe_objectno e = ob" "oe_offset e + oe_length e = xo"
proof -
  let ?fp = "file_pos su sc spo"
  note mono = file_pos_less_iff [OF piece_pos(1,2) [OF p]]
  show ob: "oe_objectno e = ob" using e inj by (auto simp: entry_ok_def inj_eq)
  have span: "oe_offset e \<le> off \<and> off < oe_offset e + oe_length e \<longleftrightarrow>
      off < spo * su \<and> offset \<le> ?fp (ob, off) \<and> ?fp (ob, off) < cur" for off
    using e ob by (auto simp: entry_ok_def)
  have len: "0 < oe_length e" using e by (auto simp: entry_ok_def)
  have fp0: "?fp (ob, xo) = cur" and off0: "xo < spo * su"
    using piece_fp [OF p, of 0] piece_off [OF p, of 0] piece_pos(4) [OF p] by simp_all
  have first: "offset \<le> ?fp (ob, oe_offset e)" "?fp (ob, oe_offset e) < cur"
    using span [of "oe_offset e"] len by simp_all
  then have "oe_offset e < xo" using mono fp0 by metis
  then have le: "oe_offset e + oe_length e \<le> xo" using span [of xo] fp0 by linarith
  have "\<not> oe_offset e + oe_length e < xo"
  proof
    let ?b = "oe_offset e + oe_length e"
    assume lt: "?b < xo"
    then have "?fp (ob, ?b) < cur" using mono [of spo ob ?b xo] fp0 by simp
    moreover have "offset \<le> ?fp (ob, ?b)"
      using mono [of spo ob "oe_offset e" ?b] first len by simp
    ultimately show False using span [of ?b] lt off0 by simp
  qed
  with le show "oe_offset e + oe_length e = xo" by simp
qed

lemma exv_of_upd [simp]: "exv_of (M(k \<mapsto> v)) j = (if j = k then v else exv_of M j)"
  by (simp add: exv_of_def)

lemma all_bytes_upd:
  assumes "vec_bytes v = vec_bytes (exv_of M k) \<union> B"
  shows "all_bytes (M(k \<mapsto> v)) = all_bytes M \<union> B"
proof -
  have "vec_bytes (exv_of (M(k \<mapsto> v)) j) = vec_bytes (exv_of M j) \<union> (if j = k then B else {})" for j
    using assms by simp
  then have "all_bytes (M(k \<mapsto> v)) = (\<Union>j. vec_bytes (exv_of M j) \<union> (if j = k then B else {}))"
    by (simp only: all_bytes_def)
  then show ?thesis by (simp add: all_bytes_def UN_Un_distrib)
qed

lemma piece_entry:
  assumes p: "piece su sc spo cur n ob xo" and inv: "loop_inv fmt su sc spo offset buf cur M" and inj: "inj fmt"
  shows "entry_ok fmt su sc spo offset (cur + n) (fmt ob)
           (add_extent trunc (fmt ob) ob xo n b (exv_of M (fmt ob)))"
    "vec_bytes (add_extent trunc (fmt ob) ob xo n b (exv_of M (fmt ob))) =
       vec_bytes (exv_of M (fmt ob)) \<union> {((ob, xo + i), b + i) |i. i < n}"
proof -
  note span = piece_span [OF p] and pos = piece_pos [OF p]
  have le: "offset \<le> cur" using inv by (simp add: loop_inv_def)
  have "entry_ok fmt su sc spo offset (cur + n) (fmt ob) (add_extent trunc (fmt ob) ob xo n b (exv_of M (fmt ob))) \<and>
    vec_bytes (add_extent trunc (fmt ob) ob xo n b (exv_of M (fmt ob))) =
       vec_bytes (exv_of M (fmt ob)) \<union> {((ob, xo + i), b + i) |i. i < n}"
  proof (cases "M (fmt ob)")
    case None
    have none: "\<not> (offset \<le> file_pos su sc spo (ob, off) \<and> file_pos su sc spo (ob, off) < cur)" if "off < spo * su" for off
      using inv None layout_file_pos [OF pos(1-3) that, of ob] by (auto simp: loop_inv_def)
    have "xo \<le> off \<and> off < xo + n \<longleftrightarrow> off < spo * su \<and> offset \<le> file_pos su sc spo (ob, off) \<and>
        file_pos su sc spo (ob, off) < cur + n" for off
      unfolding span [of off] using none [of off] le by linarith
    with None pos(4) show ?thesis
      by (auto simp: exv_of_def add_extent_def entry_ok_def ext_ok_def vec_bytes_def ext_bytes_def set_zip_piece)
  next
    case (Some v)
    with inv obtain e where v: "v = [e]" and e: "entry_ok fmt su sc spo offset cur (fmt ob) [e]"
      unfolding loop_inv_def entry_ok_def by blast
    note c = entry_contiguous [OF p e inj]
    have ok: "ext_ok e" using e by (auto simp: entry_ok_def)
    have add: "add_extent trunc (fmt ob) ob xo n b (exv_of M (fmt ob)) = [grow e b n]"
      using Some v c by (simp add: exv_of_def add_extent_def grow_def Let_def)
    have "oe_offset e \<le> off \<and> off < oe_offset e + (oe_length e + n) \<longleftrightarrow> off < spo * su \<and>
        offset \<le> file_pos su sc spo (ob, off) \<and> file_pos su sc spo (ob, off) < cur + n" for off
    proof -
      have "oe_offset e \<le> off \<and> off < oe_offset e + (oe_length e + n) \<longleftrightarrow>
          (oe_offset e \<le> off \<and> off < oe_offset e + oe_length e) \<or> (xo \<le> off \<and> off < xo + n)"
        using c(2) by auto
      also have "\<dots> \<longleftrightarrow> (off < spo * su \<and> offset \<le> file_pos su sc spo (ob, off) \<and> file_pos su sc spo (ob, off) < cur) \<or>
          (off < spo * su \<and> cur \<le> file_pos su sc spo (ob, off) \<and> file_pos su sc spo (ob, off) < cur + n)"
        using span [of off] e c(1) by (auto simp: entry_ok_def)
      also have "\<dots> \<longleftrightarrow> off < spo * su \<and> offset \<le> file_pos su sc spo (ob, off) \<and> file_pos su sc spo (ob, off) < cur + n"
        using le by linarith
      finally show ?thesis .
    qed
    then have "entry_ok fmt su sc spo offset (cur + n) (fmt ob) [grow e b n]"
      using e c ok ext_bytes_grow(2) [OF ok] by (auto simp: entry_ok_def grow_def)
    then show ?thesis
      unfolding add using ext_bytes_grow(1) [OF ok, of b n] Some v c by (simp add: vec_bytes_def exv_of_def)
  qed
  then show "entry_ok fmt su sc spo offset (cur + n) (fmt ob)
           (add_extent trunc (fmt ob) ob xo n b (exv_of M (fmt ob)))"
    "vec_bytes (add_extent trunc (fmt ob) ob xo n b (exv_of M (fmt ob))) =
       vec_bytes (exv_of M (fmt ob)) \<union> {((ob, xo + i), b + i) |i. i < n}"
    by blast+
qed

lemma other_entry:
  assumes p: "piece su sc spo cur n ob xo" and e: "entry_ok fmt su sc spo offset cur k v" and "k \<noteq> fmt ob"
  shows "entry_ok fmt su sc spo offset (cur + n) k v"
proof -
  obtain x where x: "v = [x]" "k = fmt (oe_objectno x)" "ext_ok x" "0 < oe_length x"
    "\<And>off. oe_offset x \<le> off \<and> off < oe_offset x + oe_length x \<longleftrightarrow>
        off < spo * su \<and> offset \<le> file_pos su sc spo (oe_objectno x, off) \<and> file_pos su sc spo (oe_objectno x, off) < cur"
    using e by (auto simp: entry_ok_def)
  have "\<not> (off < spo * su \<and> cur \<le> file_pos su sc spo (oe_objectno x, off) \<and>
      file_pos su sc spo (oe_objectno x, off) < cur + n)" for off
    using piece_at [OF p, of off "oe_objectno x"] assms(3) x(2) by auto
  then have "off < spo * su \<and> offset \<le> file_pos su sc spo (oe_objectno x, off) \<and> file_pos su sc spo (oe_objectno x, off) < cur
      \<longleftrightarrow> off < spo * su \<and> offset \<le> file_pos su sc spo (oe_objectno x, off) \<and> file_pos su sc spo (oe_objectno x, off) < cur + n" for off
    by (meson not_le_imp_less trans_less_add1)
  with x show ?thesis by (auto simp: entry_ok_def)
qed

lemma range_split:
  fixes cur n :: nat
  assumes "offset \<le> cur"
  shows "{f x |x. offset \<le> x \<and> x < cur + n} = {f x |x. offset \<le> x \<and> x < cur} \<union> {f (cur + i) |i. i < n}"
proof -
  have "\<exists>i. x = cur + i \<and> i < n" if "x < cur + n" "\<not> x < cur" for x
    using that by (intro exI [of _ "x - cur"]) auto
  then show ?thesis using assms by force
qed

lemma loop_inv_step:
  assumes p: "piece su sc spo cur n ob xo" and inv: "loop_inv fmt su sc spo offset buf cur M" and inj: "inj fmt"
  shows "loop_inv fmt su sc spo offset buf (cur + n)
    (M(fmt ob \<mapsto> add_extent trunc (fmt ob) ob xo n (cur - offset + buf) (exv_of M (fmt ob))))"
proof -
  let ?v = "add_extent trunc (fmt ob) ob xo n (cur - offset + buf) (exv_of M (fmt ob))"
  have le: "offset \<le> cur" using inv by (simp add: loop_inv_def)
  have new: "{(layout_object su sc spo (cur + i), cur + i - offset + buf) |i. i < n}
      = {((ob, xo + i), cur - offset + buf + i) |i. i < n}"
    unfolding setcompr_eq_image using piece_here [OF p] le by (intro image_cong) auto
  have "all_bytes (M(fmt ob \<mapsto> ?v)) = all_bytes M \<union> {((ob, xo + i), cur - offset + buf + i) |i. i < n}"
    by (intro all_bytes_upd piece_entry(2) [OF assms])
  also have "\<dots> = {(layout_object su sc spo x, x - offset + buf) |x. offset \<le> x \<and> x < cur + n}"
    unfolding range_split [OF le] new using inv by (simp add: loop_inv_def)
  finally have bytes: "all_bytes (M(fmt ob \<mapsto> ?v)) = {(layout_object su sc spo x, x - offset + buf) |x. offset \<le> x \<and> x < cur + n}" .
  have "(M(fmt ob \<mapsto> ?v)) (fmt (fst (layout_object su sc spo x))) \<noteq> None" if "offset \<le> x" "x < cur + n" for x
  proof (cases "x < cur")
    case True
    with that inv show ?thesis by (auto simp: loop_inv_def)
  next
    case False
    with that piece_here [OF p, of "x - cur"] show ?thesis by simp
  qed
  with bytes le inv piece_entry(1) [OF assms] other_entry [OF p] show ?thesis
    by (auto simp: loop_inv_def)
qed

section \<open>The whole loop\<close>

lemma loop_piece:
  assumes "su > 0" "sc > 0" "spo > 0" "left > 0" "layout_object su sc spo cur = (ob, xo)"
  shows "piece su sc spo cur (if left > su - cur mod su then su - cur mod su else left) ob xo"
proof -
  have "cur mod su < su" using assms by simp
  moreover have "layout_object su sc spo (cur + i) = (ob, xo + i)" if "i < su - cur mod su" for i
    using layout_object_add [OF assms(1) that, of sc spo] assms(5) by simp
  ultimately show ?thesis using assms by (simp add: piece_def)
qed

lemma extents_loop_step:
  assumes "su > 0" "left > 0" "layout_object su sc spo cur = (ob, xo)"
    and n: "n = (if left > su - cur mod su then su - cur mod su else left)"
  shows "extents_loop fmt trunc su sc spo offset buf cur left m =
    extents_loop fmt trunc su sc spo offset buf (cur + n) (left - n)
      (omap_put (fmt ob) (add_extent trunc (fmt ob) ob xo n (cur - offset + buf) (exv_of (map_of m) (fmt ob))) m)"
  using assms(1-3) by (subst extents_loop.simps) (simp add: n exv_of_def Let_def)

lemma extents_loop_done: "extents_loop fmt trunc su sc spo offset buf cur 0 m = m"
  by (simp add: extents_loop.simps)

lemma extents_loop_inv:
  assumes "su > 0" "sc > 0" "spo > 0" "inj fmt" "loop_inv fmt su sc spo offset buf cur (map_of m)"
  shows "loop_inv fmt su sc spo offset buf (cur + left)
    (map_of (extents_loop fmt trunc su sc spo offset buf cur left m))"
  using assms(5)
proof (induction left arbitrary: cur m rule: less_induct)
  case (less left)
  show ?case
  proof (cases "left = 0")
    case True
    with less.prems show ?thesis by (simp add: extents_loop_done)
  next
    case False
    obtain ob xo where lo: "layout_object su sc spo cur = (ob, xo)" by force
    obtain n where n: "n = (if left > su - cur mod su then su - cur mod su else left)" by blast
    have p: "piece su sc spo cur n ob xo" unfolding n using assms False lo by (intro loop_piece) auto
    have le: "n \<le> left" "0 < n" using piece_pos(4) [OF p] by (auto simp: n)
    have "loop_inv fmt su sc spo offset buf (cur + n) (map_of (omap_put (fmt ob)
        (add_extent trunc (fmt ob) ob xo n (cur - offset + buf) (exv_of (map_of m) (fmt ob))) m))"
      using loop_inv_step [OF p less.prems assms(4), of trunc] by simp
    from less.IH [OF _ this, of "left - n"] le False
    show ?thesis by (simp add: extents_loop_step [OF assms(1) _ lo n])
  qed
qed

text \<open>Names and truncation sizes, and the order of the map.\<close>

definition name_ok :: "(nat \<Rightarrow> string) \<Rightarrow> (nat \<Rightarrow> nat) \<Rightarrow> object_extent \<Rightarrow> bool" where
  "name_ok fmt trunc e \<longleftrightarrow> oe_oid e = fmt (oe_objectno e) \<and> oe_truncate_size e = trunc (oe_objectno e) \<and>
     list_all (\<lambda>(b, n). 0 < n) (oe_buffer_extents e)"

definition named_ok :: "(nat \<Rightarrow> string) \<Rightarrow> (nat \<Rightarrow> nat) \<Rightarrow> object_extents \<Rightarrow> bool" where
  "named_ok fmt trunc m \<longleftrightarrow> omap_wf m \<and> (\<forall>k. list_all (name_ok fmt trunc) (exv_of (map_of m) k))"

lemma add_extent_named:
  "0 < n \<Longrightarrow> list_all (name_ok fmt trunc) v \<Longrightarrow> list_all (name_ok fmt trunc) (add_extent trunc (fmt ob) ob xo n b v)"
  by (cases v rule: rev_cases) (simp_all add: add_extent_def name_ok_def Let_def)

lemma named_ok_put:
  assumes "named_ok fmt trunc m" "0 < n"
  shows "named_ok fmt trunc (omap_put (fmt ob)
    (add_extent trunc (fmt ob) ob xo n b (exv_of (map_of m) (fmt ob))) m)"
  using assms by (simp add: named_ok_def add_extent_named)

lemma extents_loop_named:
  assumes "su > 0" "named_ok fmt trunc m"
  shows "named_ok fmt trunc (extents_loop fmt trunc su sc spo offset buf cur left m)"
  using assms(2)
proof (induction left arbitrary: cur m rule: less_induct)
  case (less left)
  show ?case
  proof (cases "left = 0")
    case True
    with less.prems show ?thesis by (simp add: extents_loop_done)
  next
    case False
    obtain ob xo where lo: "layout_object su sc spo cur = (ob, xo)" by force
    obtain n where n: "n = (if left > su - cur mod su then su - cur mod su else left)" by blast
    have "cur mod su < su" using assms(1) by simp
    with False have lt: "left - n < left" "0 < n" by (simp_all add: n)
    show ?thesis
      using less.IH [OF lt(1) named_ok_put [OF less.prems lt(2)]] False
      by (simp add: extents_loop_step [OF assms(1) _ lo n])
  qed
qed

section \<open>Properties\<close>

text \<open>Object number and offset of a file position under a layout.\<close>

definition layout_of :: "file_layout \<Rightarrow> nat \<Rightarrow> nat \<times> nat" where
  "layout_of l = layout_object (stripe_unit l) (stripe_count l) (object_size l div stripe_unit l)"

text \<open>With a stripe count of 1 the code uses whole objects as stripe units: it is the same layout.\<close>

lemma layout_one:
  assumes "layout_is_valid l" "stripe_count l = 1"
  shows "layout_object (object_size l) 1 (object_size l div object_size l) = layout_of l"
proof
  fix x
  define su spo where "su = stripe_unit l" and "spo = object_size l div su"
  note v = layout_validD [OF assms(1), folded su_def, folded spo_def]
  have os: "object_size l = su * spo" using v(4) by (simp add: mult.commute)
  show "layout_object (object_size l) 1 (object_size l div object_size l) x = layout_of l x"
    using v(1,3) unfolding layout_of_def su_def [symmetric] spo_def [symmetric] assms(2)
    by (simp add: layout_object_def os Let_def div_mult2_eq mod_mult2_eq mult.commute [of _ su])
qed

lemma extents_list:
  assumes "\<forall>(k, v) \<in> set m. \<exists>e. v = [e] \<and> k = fmt (oe_objectno e)"
  shows "map (\<lambda>e. fmt (oe_objectno e)) (concat (map snd m)) = map fst m"
  using assms by (induction m) auto

lemma omap_distinct: "omap_wf m \<Longrightarrow> distinct (map fst m)"
  by (simp add: omap_wf_def strict_sorted_iff)

lemma all_bytes_list:
  assumes "omap_wf m"
  shows "all_bytes (map_of m) = (\<Union>e \<in> set (concat (map snd m)). set (ext_bytes e))"
proof -
  have 1: "exv_of (map_of m) k = v" if "(k, v) \<in> set m" for k v
    using that omap_distinct [OF assms] by (simp add: exv_of_def)
  have 2: "(k, exv_of (map_of m) k) \<in> set m" if "x \<in> set (exv_of (map_of m) k)" for k x
    using that by (auto simp: exv_of_def dest: map_of_SomeD split: option.splits)
  have "(\<Union>k. set (exv_of (map_of m) k)) = (\<Union>(k, v) \<in> set m. set v)"
  proof (intro equalityI subsetI)
    fix x assume "x \<in> (\<Union>(k, v) \<in> set m. set v)"
    then obtain k v where "(k, v) \<in> set m" "x \<in> set v" by auto
    then show "x \<in> (\<Union>k. set (exv_of (map_of m) k))" using 1 [of k v] by auto
  next
    fix x assume "x \<in> (\<Union>k. set (exv_of (map_of m) k))"
    then obtain k where "x \<in> set (exv_of (map_of m) k)" by auto
    with 2 [OF this] show "x \<in> (\<Union>(k, v) \<in> set m. set v)" by blast
  qed
  also have "\<dots> = set (concat (map snd m))" by (simp add: case_prod_beta)
  finally have set: "(\<Union>k. set (exv_of (map_of m) k)) = set (concat (map snd m))" .
  have "all_bytes (map_of m) = (\<Union>e \<in> (\<Union>k. set (exv_of (map_of m) k)). set (ext_bytes e))"
    unfolding all_bytes_def vec_bytes_def UN_UN_flatten ..
  then show ?thesis unfolding set .
qed

lemma entry_inside:
  assumes "entry_ok fmt su sc spo offset cur k v" "e \<in> set v"
  shows "0 < oe_length e" "oe_offset e + oe_length e \<le> spo * su" "ext_ok e"
proof -
  obtain e' where e': "v = [e']" "ext_ok e'" "0 < oe_length e'"
    and span: "\<And>off. oe_offset e' \<le> off \<and> off < oe_offset e' + oe_length e' \<longleftrightarrow>
        off < spo * su \<and> offset \<le> file_pos su sc spo (oe_objectno e', off) \<and>
        file_pos su sc spo (oe_objectno e', off) < cur"
    using assms(1) unfolding entry_ok_def by blast
  have e: "e' = e" using assms(2) e'(1) by simp
  show "0 < oe_length e" "ext_ok e" using e' e by simp_all
  have "oe_offset e + (oe_length e - 1) < spo * su"
    using span [of "oe_offset e + (oe_length e - 1)"] e'(3) e by simp
  then show "oe_offset e + oe_length e \<le> spo * su" using e'(3) e by linarith
qed

lemma file_to_extents_loop:
  assumes "layout_is_valid l" "0 < len" "inj fmt"
  obtains m su sc spo where "file_to_extents fmt l offset len t [] buf = Some (concat (map snd m))"
    "named_ok fmt (\<lambda>o'. object_truncate_size l o' t) m" "loop_inv fmt su sc spo offset buf (offset + len) (map_of m)"
    "spo * su = object_size l" "layout_object su sc spo = layout_of l"
proof -
  define su where "su = (if stripe_count l = 1 then object_size l else stripe_unit l)"
  define sc spo where "sc = stripe_count l" and "spo = object_size l div su"
  let ?trunc = "\<lambda>o'. object_truncate_size l o' t"
  define m where "m = extents_loop fmt ?trunc su sc spo offset buf offset len []"
  note v = layout_validD [OF assms(1)]
  have pos: "su > 0" "sc > 0" "spo > 0" and size: "spo * su = object_size l"
    using v by (auto simp: su_def sc_def spo_def)
  have "file_to_extents_map fmt l offset len t [] buf = Some m"
    using assms(2) v pos by (auto simp: file_to_extents_map_def m_def su_def sc_def spo_def Let_def)
  then have "file_to_extents fmt l offset len t [] buf = Some (concat (map snd m))"
    by (simp add: file_to_extents_def assimilate_extents_def)
  moreover have "loop_inv fmt su sc spo offset buf (offset + len) (map_of m)"
    unfolding m_def using loop_inv_init by (intro extents_loop_inv pos assms) simp
  moreover have "named_ok fmt ?trunc m"
    unfolding m_def by (intro extents_loop_named pos) (simp add: named_ok_def exv_of_def)
  moreover have "layout_object su sc spo = layout_of l"
    using layout_one [OF assms(1)] by (auto simp: layout_of_def su_def sc_def spo_def)
  ultimately show thesis using size that by blast
qed

lemma file_to_extents_spec:
  assumes "layout_is_valid l" "0 < len" "inj fmt"
  shows "\<exists>exts. file_to_extents fmt l offset len t [] buf = Some exts \<and>
    distinct (map oe_objectno exts) \<and>
    list_all (\<lambda>e. oe_oid e = fmt (oe_objectno e) \<and> oe_truncate_size e = object_truncate_size l (oe_objectno e) t \<and>
        0 < oe_length e \<and> oe_offset e + oe_length e \<le> object_size l \<and>
        length (buffer_bytes (oe_buffer_extents e)) = oe_length e \<and>
        list_all (\<lambda>(b, n). 0 < n) (oe_buffer_extents e)) exts \<and>
    (\<Union>e \<in> set exts. set (ext_bytes e)) = {(layout_of l x, x - offset + buf) |x. offset \<le> x \<and> x < offset + len}"
proof -
  obtain m su sc spo where f: "file_to_extents fmt l offset len t [] buf = Some (concat (map snd m))"
    and named: "named_ok fmt (\<lambda>o'. object_truncate_size l o' t) m"
    and inv: "loop_inv fmt su sc spo offset buf (offset + len) (map_of m)"
    and size: "spo * su = object_size l" and lo: "layout_object su sc spo = layout_of l"
    using file_to_extents_loop [OF assms] .
  let ?exts = "concat (map snd m)"
  have wf: "omap_wf m" using named by (simp add: named_ok_def)
  have entry: "entry_ok fmt su sc spo offset (offset + len) k v" "list_all (name_ok fmt (\<lambda>o'. object_truncate_size l o' t)) v"
    if "(k, v) \<in> set m" for k v
  proof -
    have "map_of m k = Some v" using that omap_distinct [OF wf] by simp
    then show "entry_ok fmt su sc spo offset (offset + len) k v" "list_all (name_ok fmt (\<lambda>o'. object_truncate_size l o' t)) v"
      using inv named by (auto simp: loop_inv_def named_ok_def exv_of_def dest: spec [of _ k])
  qed
  have "\<exists>e. v = [e] \<and> k = fmt (oe_objectno e)" if "(k, v) \<in> set m" for k v
    using entry(1) [OF that] unfolding entry_ok_def by blast
  then have "\<forall>(k, v) \<in> set m. \<exists>e. v = [e] \<and> k = fmt (oe_objectno e)" by blast
  then have "distinct (map fmt (map oe_objectno ?exts))"
    using extents_list [of m fmt] omap_distinct [OF wf] by (simp add: comp_def)
  then have "distinct (map oe_objectno ?exts)" by (rule distinct_map [THEN iffD1, THEN conjunct1])
  moreover have "list_all (\<lambda>e. name_ok fmt (\<lambda>o'. object_truncate_size l o' t) e \<and> 0 < oe_length e \<and>
      oe_offset e + oe_length e \<le> object_size l \<and> ext_ok e) ?exts"
    unfolding list_all_iff
  proof
    fix e assume "e \<in> set ?exts"
    then obtain k v where kv: "(k, v) \<in> set m" "e \<in> set v" by auto
    show "name_ok fmt (\<lambda>o'. object_truncate_size l o' t) e \<and> 0 < oe_length e \<and>
      oe_offset e + oe_length e \<le> object_size l \<and> ext_ok e"
      using entry(2) [OF kv(1)] entry_inside [OF entry(1) [OF kv(1)] kv(2)] kv(2) size by (simp add: list_all_iff)
  qed
  moreover have "(\<Union>e \<in> set ?exts. set (ext_bytes e)) = {(layout_of l x, x - offset + buf) |x. offset \<le> x \<and> x < offset + len}"
    using inv unfolding loop_inv_def lo all_bytes_list [OF wf] by blast
  ultimately show ?thesis
    using f by (intro exI [of _ ?exts]) (simp add: list_all_iff name_ok_def ext_ok_def)
qed

text \<open>
  C28: \<^verbatim>\<open>file_to_extents\<close> on a valid layout. It returns one extent per object, inside the object, with
  the object's name and truncation size; its buffer extents add up to its length; and all extents
  together hold, exactly for the bytes \<open>x\<close> of the file range, the object position that the layout
  gives \<open>x\<close>, paired with the position of \<open>x\<close> in the caller's buffer.
\<close>

theorem file_to_extents_exact:
  assumes "layout_is_valid l" "0 < len" "inj fmt"
  shows "\<exists>exts. file_to_extents fmt l offset len t [] buf = Some exts \<and>
    distinct (map oe_objectno exts) \<and>
    list_all (\<lambda>e. oe_oid e = fmt (oe_objectno e) \<and> oe_truncate_size e = object_truncate_size l (oe_objectno e) t \<and>
        0 < oe_length e \<and> oe_offset e + oe_length e \<le> object_size l \<and>
        length (buffer_bytes (oe_buffer_extents e)) = oe_length e \<and>
        list_all (\<lambda>(b, n). 0 < n) (oe_buffer_extents e)) exts \<and>
    (\<Union>e \<in> set exts. set (ext_bytes e)) = {(layout_of l x, x - offset + buf) |x. offset \<le> x \<and> x < offset + len}"
  using assms by (rule file_to_extents_spec)

lemma file_to_extents_exact_witness:
  "\<exists>exts. file_to_extents_ino 1099511627776 ex_layout 70000 400000 0 [] = Some exts \<and>
    distinct (map oe_objectno exts) \<and>
    (\<Union>e \<in> set exts. set (ext_bytes e)) = {(layout_of ex_layout x, x - 70000) |x. 70000 \<le> x \<and> x < 470000}"
  using file_to_extents_exact [OF ex_layout_valid, of 400000 "ino_format 1099511627776" 70000 0 0]
  by (auto simp: inj_ino_format file_to_extents_ino_def)

section \<open>Back to file ranges\<close>

lemma file_pos_add:
  assumes "su > 0" "i < su - off mod su"
  shows "file_pos su sc spo (ob, off + i) = file_pos su sc spo (ob, off) + i"
proof -
  have lt: "off mod su + i < su" using assms by simp
  have "off + i = off div su * su + (off mod su + i)" by simp
  then have "(off + i) div su = off div su" "(off + i) mod su = off mod su + i"
    by (metis div_mod_add(1) [OF lt], metis div_mod_add(2) [OF lt])
  then show ?thesis by (simp add: file_pos_def)
qed

lemma to_file_loop_bytes:
  assumes "su > 0" "b = off mod su"
  shows "buffer_bytes (to_file_loop su sc spo ob off b len exts) =
    buffer_bytes exts @ map (\<lambda>o'. file_pos su sc spo (ob, o')) [off ..< off + len]"
  using assms(2)
proof (induction len arbitrary: off b exts rule: less_induct)
  case (less len)
  show ?case
  proof (cases "len = 0")
    case True
    then show ?thesis by (simp add: to_file_loop.simps)
  next
    case False
    define n where "n = min len (su - off mod su)"
    let ?fp = "\<lambda>o'. file_pos su sc spo (ob, o')"
    have b: "b < su" "b = off mod su" using assms(1) less.prems by simp_all
    have n: "0 < n" "n \<le> len" "n \<le> su - off mod su" using False b by (auto simp: n_def)
    have step: "to_file_loop su sc spo ob off b len exts =
        to_file_loop su sc spo ob (off + n) 0 (len - n) (exts @ [(?fp off, n)])"
      using False b by (subst to_file_loop.simps) (simp add: n_def file_pos_def Let_def)
    have bytes: "[?fp off ..< ?fp off + n] = map ?fp [off ..< off + n]"
      using file_pos_add [OF assms(1)] n(3) by (intro nth_equalityI) auto
    have split: "[off ..< off + len] = [off ..< off + n] @ [off + n ..< off + len]"
      using upt_add_eq_append [of off "off + n" "len - n"] n(2) by simp
    show ?thesis
    proof (cases "len = n")
      case True
      then show ?thesis unfolding step by (simp add: to_file_loop.simps bytes)
    next
      case False
      then have "n = su - off mod su" using n(2) by (simp add: n_def min_def split: if_splits)
      moreover have "off div su * su + off mod su = off" "off mod su < su" using b by simp_all
      ultimately have "off + n = (off div su + 1) * su" unfolding add_mult_distrib by linarith
      then have "(off + n) mod su = 0" by simp
      with less.IH [of "len - n" 0 "off + n" "exts @ [(?fp off, n)]"] n show ?thesis
        unfolding step split by (simp add: bytes)
    qed
  qed
qed

text \<open>
  C29: \<^verbatim>\<open>extent_to_file\<close> inverts the layout: the file ranges it returns for an extent of an object are
  the file positions of the extent's bytes, in order, and laying them out again gives the extent.
\<close>

theorem extent_to_file_inverse:
  assumes "layout_is_valid l" "off + len \<le> object_size l"
  shows "\<exists>exts. extent_to_file l ob off len [] = Some exts \<and>
    map (layout_of l) (buffer_bytes exts) = map (Pair ob) [off ..< off + len]"
proof -
  note v = layout_validD [OF assms(1)]
  let ?fp = "\<lambda>o'. file_pos (stripe_unit l) (stripe_count l) (object_size l div stripe_unit l) (ob, o')"
  have "layout_of l (?fp o') = (ob, o')" if "o' < off + len" for o'
    using layout_file_pos [OF v(1-3), of o' ob] that assms(2) v(4) by (simp add: layout_of_def)
  then have "map (layout_of l) (map ?fp [off ..< off + len]) = map (Pair ob) [off ..< off + len]" by simp
  then show ?thesis
    using v to_file_loop_bytes [OF v(1) refl, of "stripe_count l" "object_size l div stripe_unit l" ob off len "[]"]
    by (simp add: extent_to_file_def)
qed

lemma extent_to_file_inverse_witness:
  "\<exists>exts. extent_to_file ex_layout 4 65000 2000 [] = Some exts \<and>
    map (layout_of ex_layout) (buffer_bytes exts) = map (Pair 4) [65000 ..< 67000]"
  using extent_to_file_inverse [OF ex_layout_valid, of 65000 2000 4] by (simp add: ex_layout_def)

end
