(* ===== verification/StriperRead.thy ===== *)
theory StriperRead
  imports StriperExtents "HOL-Library.Multiset"
begin

text \<open>
  \<^verbatim>\<open>Striper::StripedReadResult\<close>: the replies to the reads of all extents of a range, added in any
  order and assembled, give the bytes of the range.
\<close>

section \<open>Partial results\<close>

text \<open>Data that was read short stands for the same data with zeros behind it.\<close>

definition padded :: "nat \<Rightarrow> u8 list \<Rightarrow> u8 list" where
  "padded n d = d @ replicate (n - length d) 0"

text \<open>All entries hold the content \<open>c\<close> of the buffer range they stand for.\<close>

definition holds :: "(nat \<Rightarrow> u8) \<Rightarrow> (nat, u8 list \<times> nat) omap \<Rightarrow> bool" where
  "holds c ps \<longleftrightarrow> (\<forall>(b, d, n) \<in> set ps. length d \<le> n \<and> padded n d = map c [b ..< b + n])"

definition ranges :: "(nat, u8 list \<times> nat) omap \<Rightarrow> (nat \<times> nat) list" where
  "ranges ps = map (\<lambda>(b, d, n). (b, n)) ps"

lemma set_omap_put_new:
  assumes "k \<notin> fst ` set m"
  shows "set (omap_put k v m) = insert (k, v) (set m)"
  using assms by (induction k v m rule: omap_put.induct) auto

lemma put_partial_new:
  assumes "b \<notin> fst ` set (partial r)"
  shows "partial (put_partial r b d n) = omap_put b (d, n) (partial r)"
    "total_intended_len (put_partial r b d n) = total_intended_len r + n"
proof -
  have "map_of (partial r) b = None" using assms by (simp add: map_of_eq_None_iff)
  then show "partial (put_partial r b d n) = omap_put b (d, n) (partial r)"
    "total_intended_len (put_partial r b d n) = total_intended_len r + n"
    by (simp_all add: put_partial_def partial_at_def)
qed

text \<open>The state of a result that holds the ranges \<open>B\<close>.\<close>

definition read_ok :: "(nat \<Rightarrow> u8) \<Rightarrow> (nat \<times> nat) set \<Rightarrow> striped_read \<Rightarrow> bool" where
  "read_ok c B r \<longleftrightarrow> omap_wf (partial r) \<and> holds c (partial r) \<and> set (ranges (partial r)) = B \<and>
     total_intended_len r = sum_list (map snd (ranges (partial r)))"

lemma read_ok_empty: "read_ok c {} empty_read"
  by (simp add: read_ok_def empty_read_def holds_def ranges_def)

lemma keys_of_ranges: "fst ` set ps = fst ` set (ranges ps)"
  by (force simp: ranges_def)

lemma sum_ranges_put:
  "k \<notin> fst ` set m \<Longrightarrow> sum_list (map snd (ranges (omap_put k (d, n) m))) = n + sum_list (map snd (ranges m))"
  by (induction k "(d, n)" m rule: omap_put.induct) (auto simp: ranges_def)

lemma read_ok_put:
  assumes "read_ok c B r" "b \<notin> fst ` B" "length d \<le> n" "padded n d = map c [b ..< b + n]"
  shows "read_ok c (insert (b, n) B) (put_partial r b d n)"
proof -
  have new: "b \<notin> fst ` set (partial r)"
    using assms(1,2) keys_of_ranges [of "partial r"] by (simp add: read_ok_def)
  have "set (ranges (omap_put b (d, n) (partial r))) = insert (b, n) B"
    using assms(1) set_omap_put_new [OF new, of "(d, n)"] by (auto simp: read_ok_def ranges_def)
  with assms show ?thesis
    by (auto simp: read_ok_def put_partial_new [OF new] holds_def set_omap_put_new [OF new] sum_ranges_put [OF new])
qed

text \<open>A reply \<open>bl\<close> to an extent with buffer extents \<open>be\<close>.\<close>

lemma add_partial_result_ok:
  assumes "read_ok c B r" "padded (length (buffer_bytes be)) bl = map c (buffer_bytes be)"
    "length bl \<le> length (buffer_bytes be)" "distinct (map fst be)" "fst ` set be \<inter> fst ` B = {}"
  shows "read_ok c (set be \<union> B) (add_partial_result bl be r)"
  using assms
proof (induction bl be r arbitrary: B rule: add_partial_result.induct)
  case (1 bl r)
  then show ?case by simp
next
  case (2 bl b n be r)
  define k where "k = min (length bl) n"
  have pad: "padded (n + length (buffer_bytes be)) bl = map c [b ..< b + n] @ map c (buffer_bytes be)"
    using "2.prems"(2) by simp
  have "padded n (take k bl) = take n (padded (n + length (buffer_bytes be)) bl)"
    by (simp add: padded_def k_def min_def)
  also have "\<dots> = map c [b ..< b + n]" unfolding pad by simp
  finally have p1: "padded n (take k bl) = map c [b ..< b + n]" .
  have "padded (length (buffer_bytes be)) (drop k bl) = drop n (padded (n + length (buffer_bytes be)) bl)"
    by (simp add: padded_def k_def min_def add.commute)
  also have "\<dots> = map c (buffer_bytes be)" unfolding pad by simp
  finally have p2: "padded (length (buffer_bytes be)) (drop k bl) = map c (buffer_bytes be)" .
  have ok: "read_ok c (insert (b, n) B) (put_partial r b (take k bl) n)"
    using "2.prems" p1 by (intro read_ok_put) (auto simp: k_def)
  have "read_ok c (set be \<union> insert (b, n) B) (add_partial_result (drop k bl) be (put_partial r b (take k bl) n))"
    using "2.prems"(3-5) p2 by (intro "2.IH" [OF k_def ok p2]) (auto simp: k_def)
  then show ?case by (simp add: k_def Let_def)
qed

section \<open>Ranges that fill the buffer\<close>

fun chain :: "nat \<Rightarrow> (nat, u8 list \<times> nat) omap \<Rightarrow> nat \<Rightarrow> bool" where
  "chain a [] z \<longleftrightarrow> a = z"
| "chain a ((b, d, n) # ps) z \<longleftrightarrow> b = a \<and> chain (b + n) ps z"

lemma chain_append: "chain a (ps @ qs) z \<longleftrightarrow> (\<exists>y. chain a ps y \<and> chain y qs z)"
  by (induction ps arbitrary: a) auto

lemma chain_le: "chain a ps z \<Longrightarrow> a \<le> z"
  by (induction ps arbitrary: a) fastforce+

lemma chain_end: "chain a ps z \<Longrightarrow> ps \<noteq> [] \<Longrightarrow> fst (last ps) + snd (snd (last ps)) = z"
  by (induction ps arbitrary: a) (auto split: if_splits)

lemma chain_total: "chain a ps z \<Longrightarrow> sum_list (map snd (ranges ps)) = z - a"
proof (induction ps arbitrary: a)
  case (Cons p ps)
  then show ?case using chain_le by (cases p) (fastforce simp: ranges_def)
qed (simp add: ranges_def)

text \<open>Ranges in order, disjoint, none empty, that make up \<open>[a, z)\<close> follow each other without gaps.\<close>

lemma chain_of_cover:
  assumes "omap_wf ps" "\<forall>(b, n) \<in> set (ranges ps). 0 < n" "distinct (buffer_bytes (ranges ps))"
    "set (buffer_bytes (ranges ps)) = {a ..< z}" "a \<le> z"
  shows "chain a ps z"
  using assms
proof (induction ps arbitrary: a)
  case Nil
  then show ?case by (simp add: ranges_def)
next
  case (Cons p ps)
  obtain b d n where p: "p = (b, d, n)" by (cases p)
  let ?rest = "set (buffer_bytes (ranges ps))"
  have n: "0 < n" and wf: "omap_wf ps" "\<forall>q \<in> set ps. b < fst q"
    and all: "{b ..< b + n} \<union> ?rest = {a ..< z}" and disj: "{b ..< b + n} \<inter> ?rest = {}"
    using Cons.prems by (auto simp: p ranges_def)
  have rest: "b < x" if "x \<in> ?rest" for x
    using that wf(2) by (force simp: buffer_bytes_def ranges_def)
  have "b \<in> {b ..< b + n} \<union> ?rest" using n by simp
  then have bz: "b \<in> {a ..< z}" unfolding all .
  then have "a \<in> {b ..< b + n} \<union> ?rest" unfolding all by simp
  then have "b \<le> a" using rest by fastforce
  with bz have b: "b = a" by simp
  have "?rest = {b + n ..< z}"
  proof (intro equalityI subsetI)
    fix x assume x: "x \<in> ?rest"
    then have "x \<in> {a ..< z}" "x \<notin> {b ..< b + n}" using all disj by auto
    then show "x \<in> {b + n ..< z}" using b by auto
  next
    fix x assume "x \<in> {b + n ..< z}"
    then have "x \<in> {b ..< b + n} \<union> ?rest" unfolding all using b by auto
    with \<open>x \<in> {b + n ..< z}\<close> show "x \<in> ?rest" by auto
  qed
  moreover have "b + n \<le> z"
  proof -
    have "b + (n - 1) \<in> {b ..< b + n} \<union> ?rest" using n by (intro UnI1) auto
    then show ?thesis unfolding all using n by auto
  qed
  ultimately have "chain (b + n) ps z"
    using Cons.prems wf by (intro Cons.IH) (auto simp: p ranges_def)
  with b p show ?case by simp
qed

section \<open>Assembly\<close>

lemma assemble_rev_chain:
  assumes "chain a ps z" "holds c ps"
  shows "assemble_rev True (rev ps) z acc = Some (map c [a ..< z] @ acc)"
  using assms
proof (induction ps arbitrary: z acc rule: rev_induct)
  case Nil
  then show ?case by simp
next
  case (snoc p ps)
  obtain b d n where p: "p = (b, d, n)" by (cases p)
  then have ch: "chain a ps b" "b + n = z" using snoc.prems(1) by (auto simp: chain_append)
  have d: "length d \<le> n" "padded n d = map c [b ..< b + n]" and h: "holds c ps"
    using snoc.prems(2) by (auto simp: holds_def p)
  have "assemble_rev True (rev (ps @ [p])) z acc = assemble_rev True (rev ps) b (padded n d @ acc)"
    using d(1) ch(2) by (simp add: p padded_def)
  also have "\<dots> = Some (map c [a ..< b] @ map c [b ..< b + n] @ acc)"
    using snoc.IH [OF ch(1) h] by (simp add: d(2))
  also have "map c [a ..< b] @ map c [b ..< b + n] @ acc = map c [a ..< z] @ acc"
    using chain_le [OF ch(1)] ch(2) upt_add_eq_append [of a b n] by simp
  finally show ?case .
qed

lemma assemble_result_chain:
  assumes "chain a (partial r) z" "partial r \<noteq> []"
  shows "assemble_result zt bl r = do { bl \<leftarrow> assemble_rev zt (rev (partial r)) z bl; Some (bl, r\<lparr>partial := []\<rparr>) }"
    "length buf = total_intended_len r \<Longrightarrow> assemble_result_buf buf r =
      do { buf \<leftarrow> assemble_buf_rev (rev (partial r)) z (length buf) buf; Some (buf, r\<lparr>partial := []\<rparr>) }"
proof -
  obtain ofs d n ps where rev: "rev (partial r) = (ofs, d, n) # ps"
    using assms(2) by (cases "rev (partial r)") auto
  then have "last (partial r) = (ofs, d, n)" by (metis last_snoc rev.simps(2) rev_rev_ident)
  then have "ofs + n = z" using chain_end [OF assms] by simp
  then show "assemble_result zt bl r = do { bl \<leftarrow> assemble_rev zt (rev (partial r)) z bl; Some (bl, r\<lparr>partial := []\<rparr>) }"
    "length buf = total_intended_len r \<Longrightarrow> assemble_result_buf buf r =
      do { buf \<leftarrow> assemble_buf_rev (rev (partial r)) z (length buf) buf; Some (buf, r\<lparr>partial := []\<rparr>) }"
    unfolding assemble_result_def assemble_result_buf_def rev by simp_all
qed

lemma write_at_end:
  assumes "length xs = n" "n \<le> k" "k \<le> length buf"
  shows "write_at (k - n) xs buf = Some (take (k - n) buf @ xs @ drop k buf)"
  using assms by (simp add: write_at_def)

lemma assemble_buf_chain:
  assumes "chain 0 ps z" "holds c ps" "length buf = z + length acc" "drop z buf = acc"
  shows "assemble_buf_rev (rev ps) z z buf = Some (map c [0 ..< z] @ acc)"
  using assms
proof (induction ps arbitrary: z acc buf rule: rev_induct)
  case Nil
  then show ?case by simp
next
  case (snoc p ps)
  obtain b d n where p: "p = (b, d, n)" by (cases p)
  then have ch: "chain 0 ps b" "b + n = z" using snoc.prems(1) by (auto simp: chain_append)
  have d: "length d \<le> n" "padded n d = map c [b ..< b + n]" and h: "holds c ps"
    using snoc.prems(2) by (auto simp: holds_def p)
  have pad: "(if length d < n then d @ replicate (n - length d) 0 else d) = padded n d"
    using d(1) by (simp add: padded_def)
  let ?buf = "take b buf @ padded n d @ acc"
  have zn: "z - n = b" using ch(2) by simp
  have "write_at (z - n) (padded n d) buf = Some ?buf"
    using write_at_end [of "padded n d" n z buf] ch(2) snoc.prems(3,4) d zn by simp
  then have "assemble_buf_rev (rev (ps @ [p])) z z buf = assemble_buf_rev (rev ps) b b ?buf"
    using ch(2) by (auto simp: p pad)
  also have "\<dots> = Some (map c [0 ..< b] @ padded n d @ acc)"
    using snoc.prems(3) ch by (intro snoc.IH [OF ch(1) h]) auto
  also have "map c [0 ..< b] @ padded n d @ acc = map c [0 ..< z] @ acc"
    using ch(2) upt_add_eq_append [of 0 b n] by (simp add: d(2))
  finally show ?case .
qed

section \<open>The buffer ranges of the extents\<close>

lemma mset_buffer_bytes: "mset xs = mset ys \<Longrightarrow> mset (buffer_bytes xs) = mset (buffer_bytes ys)"
proof -
  have "mset (buffer_bytes xs) = (\<Sum>(b, n) \<in># mset xs. mset [b ..< b + n])" for xs
    by (induction xs) auto
  then show "mset xs = mset ys \<Longrightarrow> mset (buffer_bytes xs) = mset (buffer_bytes ys)" by simp
qed

lemma distinct_starts:
  assumes "distinct (buffer_bytes bes)" "\<forall>(b, n) \<in> set bes. 0 < n"
  shows "distinct (map fst bes)"
  using assms
proof (induction bes)
  case (Cons p bes)
  obtain b n where p: "p = (b, n)" by (cases p)
  have "b \<notin> fst ` set bes"
  proof
    assume "b \<in> fst ` set bes"
    then obtain n' where "(b, n') \<in> set bes" "0 < n'" using Cons.prems(2) by auto
    then have "b \<in> set (buffer_bytes bes)" by (force simp: buffer_bytes_def)
    moreover have "b \<in> {b ..< b + n}" using Cons.prems(2) p by simp
    moreover have "{b ..< b + n} \<inter> set (buffer_bytes bes) = {}" using Cons.prems(1) p by simp
    ultimately show False by blast
  qed
  with Cons p show ?case by simp
qed simp

lemma read_ok_chain:
  assumes "read_ok c (set bes) r" "distinct (buffer_bytes bes)" "\<forall>(b, n) \<in> set bes. 0 < n"
    "set (buffer_bytes bes) = {0 ..< z}"
  shows "chain 0 (partial r) z"
proof -
  have wf: "omap_wf (partial r)" and set: "set (ranges (partial r)) = set bes"
    using assms(1) by (auto simp: read_ok_def)
  have "map fst (ranges (partial r)) = map fst (partial r)" by (auto simp: ranges_def)
  then have "distinct (map fst (ranges (partial r)))" using omap_distinct [OF wf] by simp
  then have "distinct (ranges (partial r))" "distinct bes"
    using distinct_starts [OF assms(2,3)] by (simp_all add: distinct_map)
  with set have "mset (ranges (partial r)) = mset bes" by (simp add: set_eq_iff_mset_eq_distinct [symmetric])
  then have m: "mset (buffer_bytes (ranges (partial r))) = mset (buffer_bytes bes)" by (rule mset_buffer_bytes)
  show ?thesis
    using wf assms(2-4) set m mset_eq_imp_distinct_iff [OF m] mset_eq_setD [OF m]
    by (intro chain_of_cover) auto
qed

lemma extents_bytes_distinct:
  assumes "distinct (map oe_objectno es)" "list_all ext_ok es"
  shows "distinct (map fst (concat (map ext_bytes es)))"
  using assms
proof (induction es)
  case (Cons e es)
  have fst_e: "map fst (ext_bytes e) = map (Pair (oe_objectno e)) [oe_offset e ..< oe_offset e + oe_length e]"
    using Cons.prems(2) by (simp add: ext_bytes_def ext_ok_def)
  have ob: "fst (fst x) = oe_objectno e'" if "x \<in> set (ext_bytes e')" for x e'
    using that by (auto simp: ext_bytes_def set_zip)
  have "fst x \<noteq> fst y" if "x \<in> set (ext_bytes e)" "e' \<in> set es" "y \<in> set (ext_bytes e')" for x y e'
    using ob [OF that(1)] ob [OF that(3)] that(2) Cons.prems(1) by (metis distinct.simps(2) image_eqI list.set_map list.simps(9))
  then have "fst ` set (ext_bytes e) \<inter> fst ` set (concat (map ext_bytes es)) = {}"
    by (simp only: set_concat set_map) blast
  moreover have "distinct (map fst (ext_bytes e))" unfolding fst_e by (simp add: distinct_map inj_on_def)
  ultimately show ?case using Cons by simp
qed simp

lemma extents_buffer:
  assumes "list_all ext_ok es" "distinct (map oe_objectno es)" "layout_is_valid l"
    and bytes: "(\<Union>e \<in> set es. set (ext_bytes e)) = {(layout_of l x, x - offset) |x. offset \<le> x \<and> x < offset + len}"
  shows "distinct (buffer_bytes (concat (map oe_buffer_extents es)))"
    "set (buffer_bytes (concat (map oe_buffer_extents es))) = {0 ..< len}"
proof -
  let ?L = "concat (map ext_bytes es)"
  have L: "set ?L = {(layout_of l x, x - offset) |x. offset \<le> x \<and> x < offset + len}" using bytes by simp
  have "map snd (ext_bytes e) = buffer_bytes (oe_buffer_extents e)" if "ext_ok e" for e
    using that by (simp add: ext_bytes_def ext_ok_def)
  then have snd: "map snd ?L = buffer_bytes (concat (map oe_buffer_extents es))"
    using assms(1) by (induction es) auto
  have "inj_on snd (set ?L)"
    unfolding L by (auto simp: inj_on_def) (metis Pair_inject eq_diff_iff)+
  moreover have "distinct ?L" using extents_bytes_distinct [OF assms(2,1)] by (rule distinct_map [THEN iffD1, THEN conjunct1])
  ultimately show "distinct (buffer_bytes (concat (map oe_buffer_extents es)))"
    unfolding snd [symmetric] by (simp add: distinct_map)
  have "set (map snd ?L) = {0 ..< len}"
  proof -
    have "b \<in> snd ` {(layout_of l x, x - offset) |x. offset \<le> x \<and> x < offset + len}" if "b < len" for b
      using that by (intro image_eqI [of _ _ "(layout_of l (b + offset), b)"]) auto
    then show ?thesis unfolding set_map L by auto
  qed
  then show "set (buffer_bytes (concat (map oe_buffer_extents es))) = {0 ..< len}" unfolding snd .
qed

section \<open>The whole read\<close>

text \<open>The replies: each may be short, and then the object has zeros behind what was read.\<close>

definition reply_ok :: "(nat \<times> nat \<Rightarrow> u8) \<Rightarrow> (object_extent \<Rightarrow> u8 list) \<Rightarrow> object_extent \<Rightarrow> bool" where
  "reply_ok data reply e \<longleftrightarrow> length (reply e) \<le> oe_length e \<and>
     padded (oe_length e) (reply e) = map (\<lambda>i. data (oe_objectno e, oe_offset e + i)) [0 ..< oe_length e]"

definition add_all :: "(object_extent \<Rightarrow> u8 list) \<Rightarrow> object_extent list \<Rightarrow> striped_read \<Rightarrow> striped_read" where
  "add_all reply es = fold (\<lambda>e. add_partial_result (reply e) (oe_buffer_extents e)) es"

lemma reply_content:
  assumes "ext_ok e" "reply_ok data reply e"
    and bytes: "set (ext_bytes e) \<subseteq> {(layout_of l x, x - offset) |x. offset \<le> x \<and> x < offset + len}"
  shows "padded (length (buffer_bytes (oe_buffer_extents e))) (reply e) =
    map (\<lambda>b. data (layout_of l (b + offset))) (buffer_bytes (oe_buffer_extents e))"
proof -
  have len: "length (buffer_bytes (oe_buffer_extents e)) = oe_length e" using assms(1) by (simp add: ext_ok_def)
  have "data (oe_objectno e, oe_offset e + i) = data (layout_of l (buffer_bytes (oe_buffer_extents e) ! i + offset))"
    if "i < oe_length e" for i
  proof -
    have "((oe_objectno e, oe_offset e + i), buffer_bytes (oe_buffer_extents e) ! i) \<in> set (ext_bytes e)"
      using that len by (force simp: ext_bytes_def set_zip)
    with bytes obtain x where "layout_of l x = (oe_objectno e, oe_offset e + i)"
      "x - offset = buffer_bytes (oe_buffer_extents e) ! i" "offset \<le> x" by force
    then show ?thesis by (metis le_add_diff_inverse2)
  qed
  with assms(2) len show ?thesis
    by (simp add: reply_ok_def list_eq_iff_nth_eq)
qed

lemma add_all_ok:
  assumes "read_ok c B r" "distinct (map fst (concat (map oe_buffer_extents es)))"
    "fst ` set (concat (map oe_buffer_extents es)) \<inter> fst ` B = {}"
    "list_all (\<lambda>e. length (reply e) \<le> length (buffer_bytes (oe_buffer_extents e)) \<and>
       padded (length (buffer_bytes (oe_buffer_extents e))) (reply e) = map c (buffer_bytes (oe_buffer_extents e))) es"
  shows "read_ok c (set (concat (map oe_buffer_extents es)) \<union> B) (add_all reply es r)"
  using assms
proof (induction es arbitrary: r B)
  case Nil
  then show ?case by (simp add: add_all_def)
next
  case (Cons e es)
  let ?be = "oe_buffer_extents e"
  have "read_ok c (set ?be \<union> B) (add_partial_result (reply e) ?be r)"
    using Cons.prems by (intro add_partial_result_ok) auto
  moreover have "fst ` set (concat (map oe_buffer_extents es)) \<inter> fst ` (set ?be \<union> B) = {}"
    using Cons.prems(2,3) by (simp add: image_Un Int_Un_distrib inf_commute) blast
  ultimately have "read_ok c (set (concat (map oe_buffer_extents es)) \<union> (set ?be \<union> B))
      (add_all reply es (add_partial_result (reply e) ?be r))"
    using Cons.prems(2,4) by (intro Cons.IH) auto
  then show ?case by (simp add: add_all_def Un_ac)
qed

text \<open>
  C27: a striped read gives back the file. Take the extents of a range, read each of them (a reply
  may be cut short where the object holds only zeros), add the replies in any order and assemble:
  both ways of assembling succeed and return exactly the bytes of the range, each taken from the
  place the layout gives it.
\<close>

theorem striped_read_roundtrip:
  assumes "layout_is_valid l" "0 < len" "inj fmt"
    and "file_to_extents fmt l offset len t [] 0 = Some exts" "mset es = mset exts"
    and "list_all (reply_ok data reply) exts" "length buf = len"
  shows "assemble_result True [] (add_all reply es empty_read) =
      Some (map (\<lambda>x. data (layout_of l x)) [offset ..< offset + len], (add_all reply es empty_read)\<lparr>partial := []\<rparr>) \<and>
    assemble_result_buf buf (add_all reply es empty_read) =
      Some (map (\<lambda>x. data (layout_of l x)) [offset ..< offset + len], (add_all reply es empty_read)\<lparr>partial := []\<rparr>)"
proof -
  let ?c = "\<lambda>b. data (layout_of l (b + offset))" and ?r = "add_all reply es empty_read"
  let ?bes = "concat (map oe_buffer_extents es)"
  have set: "set es = set exts" using assms(5) by (rule mset_eq_setD)
  note x = file_to_extents_spec [OF assms(1-3), of offset t 0, unfolded assms(4)]
  have ok: "list_all ext_ok es" and pos: "\<forall>(b, n) \<in> set ?bes. 0 < n"
    and bytes: "(\<Union>e \<in> set es. set (ext_bytes e)) = {(layout_of l x, x - offset) |x. offset \<le> x \<and> x < offset + len}"
    using x set by (auto simp: list_all_iff ext_ok_def)
  have "distinct (map oe_objectno es)"
    using x mset_eq_imp_distinct_iff [of "map oe_objectno es" "map oe_objectno exts"] assms(5) by simp
  note b = extents_buffer [OF ok this assms(1) bytes]
  have "list_all (\<lambda>e. length (reply e) \<le> length (buffer_bytes (oe_buffer_extents e)) \<and>
       padded (length (buffer_bytes (oe_buffer_extents e))) (reply e) = map ?c (buffer_bytes (oe_buffer_extents e))) es"
    using assms(6) ok set bytes reply_content [of _ data reply l offset len]
    by (fastforce simp: list_all_iff reply_ok_def ext_ok_def)
  then have r: "read_ok ?c (set ?bes) ?r"
    using add_all_ok [OF read_ok_empty distinct_starts [OF b(1) pos], of reply] by simp
  note ch = read_ok_chain [OF r b(1) pos b(2)]
  have h: "holds ?c (partial ?r)" and total: "total_intended_len ?r = len"
    using r chain_total [OF ch] by (simp_all add: read_ok_def)
  have ne: "partial ?r \<noteq> []" using ch assms(2) by (cases "partial ?r") auto
  have "map ?c [0 ..< len] = map (\<lambda>x. data (layout_of l x)) [offset ..< offset + len]"
    by (rule nth_equalityI) (auto simp: add.commute)
  then show ?thesis
    using assms(7) total assemble_rev_chain [OF ch h, of "[]"] assemble_buf_chain [OF ch h, of buf "[]"]
    by (simp add: assemble_result_chain [OF ch ne])
qed

definition ex_data :: "nat \<times> nat \<Rightarrow> u8" where
  "ex_data = (\<lambda>(ob, off). of_nat (7 * ob + off))"

definition ex_reply :: "object_extent \<Rightarrow> u8 list" where
  "ex_reply e = map (\<lambda>i. ex_data (oe_objectno e, oe_offset e + i)) [0 ..< oe_length e]"

lemma striped_read_roundtrip_witness:
  "\<exists>exts r. file_to_extents_ino 1099511627776 ex_layout 131070 5 0 [] = Some exts \<and>
    assemble_result True [] (add_all ex_reply (rev exts) empty_read) =
      Some (map (\<lambda>x. ex_data (layout_of ex_layout x)) [131070 ..< 131075], r)"
proof -
  let ?fmt = "ino_format 1099511627776"
  obtain exts where f: "file_to_extents ?fmt ex_layout 131070 5 0 [] 0 = Some exts"
    using file_to_extents_spec [OF ex_layout_valid, of 5 ?fmt 131070 0 0] by (auto simp: inj_ino_format)
  have "list_all (reply_ok ex_data ex_reply) exts"
    by (simp add: list_all_iff reply_ok_def ex_reply_def padded_def)
  with striped_read_roundtrip [OF ex_layout_valid _ inj_ino_format f, of "rev exts" ex_data ex_reply "replicate 5 0"] f
  show ?thesis by (simp add: file_to_extents_ino_def)
qed

end
