(* ===== verification/ClsLock.thy ===== *)
theory ClsLock
  imports Prelude "HOL-Library.List_Lexorder" "HOL-Library.Char_ord" "HOL-Library.Product_Lexorder"
    "HOL-Library.Word" "HOL-Library.Signed_Division"
begin

unbundle bit_operations_syntax

text \<open>
  \<^verbatim>\<open>cls/lock/cls_lock.cc\<close> and \<^verbatim>\<open>cls/lock/cls_lock_types.h\<close>: advisory locks on an object, kept in its
  extended attributes and run inside the OSD. A method takes its context (the two readings of the
  clock, the origin of the request and the outcome of the attribute accesses), the request (\<open>None\<close>
  when it does not decode) and the object, and returns the error code and the object. A time is
  \<^verbatim>\<open>utime_t\<close>: seconds and nanoseconds of 32 bits, with the wrap-around of \<^verbatim>\<open>operator+=\<close>.
\<close>

section \<open>Types\<close>

datatype cls_lock_type = LOCK_NONE | LOCK_EXCLUSIVE | LOCK_SHARED | LOCK_unknown nat

text \<open>\<^verbatim>\<open>entity_name_t\<close>: a type and a number, ordered in this order.\<close>

type_synonym entity_name = "nat \<times> int"

text \<open>\<^verbatim>\<open>locker_id_t\<close>: the client's name and its cookie, in the order of \<^verbatim>\<open>operator<\<close>.\<close>

type_synonym locker_id = "entity_name \<times> string"

type_synonym utime = "32 word \<times> 32 word"

record locker_info =
  expiration :: utime
  addr :: string
  li_description :: string

record lock_info =
  lockers :: "(locker_id, locker_info) omap"
  lock_type :: cls_lock_type
  tag :: string

definition empty_lock :: lock_info where
  "empty_lock = \<lparr>lockers = [], lock_type = LOCK_NONE, tag = []\<rparr>"

text \<open>An attribute: an encoded lock, or bytes that are not one.\<close>

datatype attr = A_lock lock_info | A_bytes string

record cls_obj =
  obj_exists :: bool
  xattrs :: "(string, attr) omap"

record lock_op =
  lo_name :: string
  lo_type :: cls_lock_type
  lo_duration :: utime
  lo_description :: string
  lo_flags :: "8 word"
  lo_cookie :: string
  lo_tag :: string

record assert_op =
  ao_name :: string
  ao_type :: cls_lock_type
  ao_cookie :: string
  ao_tag :: string

text \<open>
  The context of a call. \<open>hc_getxattr\<close> and \<open>hc_setxattr\<close> are errors of the attribute accesses, no
  error unless negative: a read may fail in ways other than a missing object or attribute, and a
  write when the attribute is too large or its name too long.
\<close>

record hctx =
  hc_now :: utime
  hc_now_expiration :: utime
  hc_name :: entity_name
  hc_addr :: string
  hc_getxattr :: int
  hc_setxattr :: int

definition ENOENT :: int where "ENOENT = 2"
definition EIO :: int where "EIO = 5"
definition EBUSY :: int where "EBUSY = 16"
definition EEXIST :: int where "EEXIST = 17"
definition EINVAL :: int where "EINVAL = 22"
definition ENODATA :: int where "ENODATA = 61"

lemmas errno_defs = ENOENT_def EIO_def EBUSY_def EEXIST_def EINVAL_def ENODATA_def

definition LOCK_FLAG_RENEW :: "8 word" where "LOCK_FLAG_RENEW = 1"

section \<open>Times\<close>

text \<open>
  \<^verbatim>\<open>sec()\<close> reads the seconds as \<^verbatim>\<open>time_t\<close> and \<^verbatim>\<open>nsec()\<close> the nanoseconds as \<^verbatim>\<open>int\<close>, so they compare as
  unsigned and as signed values. The sum of two \<^verbatim>\<open>int\<close> is that of the integers as long as the
  nanoseconds of both are below a second, which is all the properties use.
\<close>

definition utime_is_zero :: "utime \<Rightarrow> bool" where
  "utime_is_zero t = (fst t = 0 \<and> snd t = 0)"

definition utime_less :: "utime \<Rightarrow> utime \<Rightarrow> bool" where
  "utime_less a b = (fst a < fst b \<or> fst a = fst b \<and> sint (snd a) < sint (snd b))"

definition utime_add :: "utime \<Rightarrow> utime \<Rightarrow> utime" where
  "utime_add l r =
     (fst l + word_of_int (uint (fst r) + (sint (snd l) + sint (snd r)) sdiv 1000000000),
      (snd l + snd r) mod 1000000000)"

section \<open>Access to the attributes\<close>

text \<open>The name of an attribute is passed as a C string.\<close>

definition c_str :: "string \<Rightarrow> string" where
  "c_str s = takeWhile (\<lambda>c. c \<noteq> char_of (0 :: nat)) s"

definition lock_key :: "string \<Rightarrow> string" where
  "lock_key name = c_str (''lock.'' @ name)"

definition cls_cxx_getxattr :: "hctx \<Rightarrow> string \<Rightarrow> cls_obj \<Rightarrow> int + attr" where
  "cls_cxx_getxattr h key obj =
     (if hc_getxattr h < 0 \<and> hc_getxattr h \<noteq> - ENOENT \<and> hc_getxattr h \<noteq> - ENODATA then Inl (hc_getxattr h)
      else if \<not> obj_exists obj then Inl (- ENOENT)
      else case map_of (xattrs obj) key of None \<Rightarrow> Inl (- ENODATA) | Some a \<Rightarrow> Inr a)"

definition cls_cxx_setxattr :: "hctx \<Rightarrow> string \<Rightarrow> attr \<Rightarrow> cls_obj \<Rightarrow> int \<times> cls_obj" where
  "cls_cxx_setxattr h key a obj =
     (if hc_setxattr h < 0 then (hc_setxattr h, obj)
      else (0, obj\<lparr>obj_exists := True, xattrs := omap_put key a (xattrs obj)\<rparr>))"

section \<open>Methods\<close>

definition expired :: "utime \<Rightarrow> locker_info \<Rightarrow> bool" where
  "expired now info = (\<not> utime_is_zero (expiration info) \<and> utime_less (expiration info) now)"

text \<open>The loop that drops the lockers whose time is over.\<close>

definition trim_expired :: "utime \<Rightarrow> lock_info \<Rightarrow> lock_info" where
  "trim_expired now l = l\<lparr>lockers := filter (\<lambda>e. \<not> expired now (snd e)) (lockers l)\<rparr>"

definition read_lock :: "hctx \<Rightarrow> string \<Rightarrow> cls_obj \<Rightarrow> int + lock_info" where
  "read_lock h name obj =
     (case cls_cxx_getxattr h (lock_key name) obj of
        Inl r \<Rightarrow> if r = - ENODATA then Inr empty_lock else Inl r
      | Inr (A_bytes _) \<Rightarrow> Inl (- EIO)
      | Inr (A_lock l) \<Rightarrow> Inr (trim_expired (hc_now h) l))"

definition write_lock :: "hctx \<Rightarrow> string \<Rightarrow> lock_info \<Rightarrow> cls_obj \<Rightarrow> int \<times> cls_obj" where
  "write_lock h name l obj = cls_cxx_setxattr h (lock_key name) (A_lock l) obj"

text \<open>\<^verbatim>\<open>lock_obj\<close> goes on after \<^verbatim>\<open>-ENOENT\<close> with the lock it declared.\<close>

definition read_or_new :: "hctx \<Rightarrow> string \<Rightarrow> cls_obj \<Rightarrow> int + lock_info" where
  "read_or_new h name obj =
     (case read_lock h name obj of
        Inl r \<Rightarrow> if r < 0 \<and> r \<noteq> - ENOENT then Inl r else Inr empty_lock
      | Inr l \<Rightarrow> Inr l)"

text \<open>The entry of the client itself is taken out before the remaining lockers are looked at.\<close>

definition lock_obj :: "hctx \<Rightarrow> lock_op \<Rightarrow> cls_obj \<Rightarrow> int \<times> cls_obj" where
  "lock_obj h op obj =
     (let fail_if_exists = (lo_flags op AND LOCK_FLAG_RENEW = 0) in
      if lo_type op \<noteq> LOCK_EXCLUSIVE \<and> lo_type op \<noteq> LOCK_SHARED then (- EINVAL, obj)
      else if lo_name op = [] then (- EINVAL, obj)
      else case read_or_new h (lo_name op) obj of
        Inl r \<Rightarrow> (r, obj)
      | Inr linfo \<Rightarrow>
          let id = (hc_name h, lo_cookie op) in
          if lockers linfo \<noteq> [] \<and> lo_tag op \<noteq> tag linfo then (- EBUSY, obj)
          else if map_of (lockers linfo) id \<noteq> None \<and> fail_if_exists then (- EEXIST, obj)
          else let others = omap_del id (lockers linfo) in
            if others \<noteq> [] \<and> lo_type op = LOCK_EXCLUSIVE then (- EBUSY, obj)
            else if others \<noteq> [] \<and> lock_type linfo \<noteq> lo_type op then (- EBUSY, obj)
            else let
              ex = (if \<not> utime_is_zero (lo_duration op)
                    then utime_add (hc_now_expiration h) (lo_duration op) else (0, 0));
              info = \<lparr>expiration = ex, addr = hc_addr h, li_description = lo_description op\<rparr>
            in write_lock h (lo_name op)
                 (linfo\<lparr>lock_type := lo_type op, tag := lo_tag op, lockers := omap_put id info others\<rparr>) obj)"

definition cls_lock_op :: "hctx \<Rightarrow> lock_op option \<Rightarrow> cls_obj \<Rightarrow> int \<times> cls_obj" where
  "cls_lock_op h req obj = (case req of None \<Rightarrow> (- EINVAL, obj) | Some op \<Rightarrow> lock_obj h op obj)"

definition remove_lock :: "hctx \<Rightarrow> string \<Rightarrow> entity_name \<Rightarrow> string \<Rightarrow> cls_obj \<Rightarrow> int \<times> cls_obj" where
  "remove_lock h name locker cookie obj =
     (case read_lock h name obj of
        Inl r \<Rightarrow> (r, obj)
      | Inr linfo \<Rightarrow>
          if map_of (lockers linfo) (locker, cookie) = None then (- ENOENT, obj)
          else write_lock h name (linfo\<lparr>lockers := omap_del (locker, cookie) (lockers linfo)\<rparr>) obj)"

definition unlock_op :: "hctx \<Rightarrow> (string \<times> string) option \<Rightarrow> cls_obj \<Rightarrow> int \<times> cls_obj" where
  "unlock_op h req obj =
     (case req of None \<Rightarrow> (- EINVAL, obj)
      | Some (name, cookie) \<Rightarrow> remove_lock h name (hc_name h) cookie obj)"

definition break_lock :: "hctx \<Rightarrow> (string \<times> entity_name \<times> string) option \<Rightarrow> cls_obj \<Rightarrow> int \<times> cls_obj" where
  "break_lock h req obj =
     (case req of None \<Rightarrow> (- EINVAL, obj)
      | Some (name, locker, cookie) \<Rightarrow> remove_lock h name locker cookie obj)"

text \<open>\<^verbatim>\<open>get_info\<close>: the reply has the fields of a lock, and its lockers are inserted one by one.\<close>

definition get_info :: "hctx \<Rightarrow> string option \<Rightarrow> cls_obj \<Rightarrow> int + lock_info" where
  "get_info h req obj =
     (case req of None \<Rightarrow> Inl (- EINVAL)
      | Some name \<Rightarrow> (case read_lock h name obj of
          Inl r \<Rightarrow> Inl r
        | Inr linfo \<Rightarrow> Inr \<lparr>lockers = fold (\<lambda>e. omap_put (fst e) (snd e)) (lockers linfo) [],
                            lock_type = lock_type linfo, tag = tag linfo\<rparr>))"

definition list_locks :: "hctx \<Rightarrow> cls_obj \<Rightarrow> int + string list" where
  "list_locks h obj =
     (if hc_getxattr h < 0 then Inl (hc_getxattr h)
      else if \<not> obj_exists obj then Inl (- ENOENT)
      else Inr (concat (map (\<lambda>e. if take 5 (fst e) = ''lock.'' then [drop 5 (fst e)] else []) (xattrs obj))))"

text \<open>The checks that \<^verbatim>\<open>assert_locked\<close> and \<^verbatim>\<open>set_cookie\<close> both start with: the lock, if the client holds it as asked.\<close>

definition held_as :: "hctx \<Rightarrow> assert_op \<Rightarrow> cls_obj \<Rightarrow> int + lock_info" where
  "held_as h op obj =
     (if ao_type op \<noteq> LOCK_EXCLUSIVE \<and> ao_type op \<noteq> LOCK_SHARED then Inl (- EINVAL)
      else if ao_name op = [] then Inl (- EINVAL)
      else case read_lock h (ao_name op) obj of
        Inl r \<Rightarrow> Inl r
      | Inr linfo \<Rightarrow>
          if lockers linfo = [] then Inl (- EBUSY)
          else if lock_type linfo \<noteq> ao_type op then Inl (- EBUSY)
          else if tag linfo \<noteq> ao_tag op then Inl (- EBUSY)
          else if map_of (lockers linfo) (hc_name h, ao_cookie op) = None then Inl (- EBUSY)
          else Inr linfo)"

definition assert_locked :: "hctx \<Rightarrow> assert_op option \<Rightarrow> cls_obj \<Rightarrow> int" where
  "assert_locked h req obj =
     (case req of None \<Rightarrow> - EINVAL
      | Some op \<Rightarrow> (case held_as h op obj of Inl r \<Rightarrow> r | Inr _ \<Rightarrow> 0))"

text \<open>\<^verbatim>\<open>set_cookie\<close>: the request of \<^verbatim>\<open>assert_locked\<close> and the new cookie.\<close>

definition set_cookie :: "hctx \<Rightarrow> (assert_op \<times> string) option \<Rightarrow> cls_obj \<Rightarrow> int \<times> cls_obj" where
  "set_cookie h req obj =
     (case req of None \<Rightarrow> (- EINVAL, obj)
      | Some (op, new_cookie) \<Rightarrow> (case held_as h op obj of
          Inl r \<Rightarrow> (r, obj)
        | Inr linfo \<Rightarrow>
            if map_of (lockers linfo) (hc_name h, new_cookie) \<noteq> None then (- EBUSY, obj)
            else let
              info = the (map_of (lockers linfo) (hc_name h, ao_cookie op));
              ls = omap_put (hc_name h, new_cookie) info (omap_del (hc_name h, ao_cookie op) (lockers linfo))
            in write_lock h (ao_name op) (linfo\<lparr>lockers := ls\<rparr>) obj))"

end
