(* ===== verification/ClsLockProps.thy ===== *)
theory ClsLockProps
  imports ClsLock
begin

text \<open>
  Properties of the lock class: the invariant of a lock and that every method keeps it, mutual
  exclusion over any sequence of calls, when a lock is granted, how long it is held, and what a
  call leaves of the locks of other clients.
\<close>

section \<open>The invariant\<close>

definition lock_wf :: "lock_info \<Rightarrow> bool" where
  "lock_wf l \<longleftrightarrow> omap_wf (lockers l)
     \<and> (lockers l \<noteq> [] \<longrightarrow> lock_type l = LOCK_EXCLUSIVE \<or> lock_type l = LOCK_SHARED)
     \<and> (lock_type l = LOCK_EXCLUSIVE \<longrightarrow> length (lockers l) \<le> 1)"

definition obj_wf :: "cls_obj \<Rightarrow> bool" where
  "obj_wf obj \<longleftrightarrow> omap_wf (xattrs obj)
     \<and> (\<forall>k l. map_of (xattrs obj) k = Some (A_lock l) \<longrightarrow> lock_wf l)"

text \<open>A call of one of the methods that write.\<close>

datatype request =
    R_lock "lock_op option"
  | R_unlock "(string \<times> string) option"
  | R_break "(string \<times> entity_name \<times> string) option"
  | R_set_cookie "(assert_op \<times> string) option"

fun cls_call :: "hctx \<times> request \<Rightarrow> cls_obj \<Rightarrow> int \<times> cls_obj" where
  "cls_call (h, R_lock req) obj = cls_lock_op h req obj"
| "cls_call (h, R_unlock req) obj = unlock_op h req obj"
| "cls_call (h, R_break req) obj = break_lock h req obj"
| "cls_call (h, R_set_cookie req) obj = set_cookie h req obj"

definition cls_calls :: "(hctx \<times> request) list \<Rightarrow> cls_obj \<Rightarrow> cls_obj" where
  "cls_calls cs obj = fold (\<lambda>c o'. snd (cls_call c o')) cs obj"

lemma lock_wf_empty [simp]: "lock_wf empty_lock"
  by (simp add: lock_wf_def empty_lock_def)

lemma omap_del_Nil [simp]: "omap_del k [] = []"
  by (simp add: omap_del_def)

lemma length_omap_del: "length (omap_del k m) \<le> length m"
  by (simp add: omap_del_def)

lemma lock_wf_trim [simp]: "lock_wf l \<Longrightarrow> lock_wf (trim_expired now l)"
  unfolding lock_wf_def trim_expired_def
  by (auto simp: omap_wf_filter intro: order.trans [OF length_filter_le])

lemma lock_wf_del [simp]: "lock_wf l \<Longrightarrow> lock_wf (l\<lparr>lockers := omap_del k (lockers l)\<rparr>)"
  unfolding lock_wf_def
  by (auto simp: omap_del_def omap_wf_filter intro: order.trans [OF length_filter_le])

lemma read_lock_wf: "obj_wf obj \<Longrightarrow> read_lock h name obj = Inr l \<Longrightarrow> lock_wf l"
  unfolding read_lock_def cls_cxx_getxattr_def obj_wf_def
  by (auto split: if_splits option.splits attr.splits)

lemma write_lock_wf: "obj_wf obj \<Longrightarrow> lock_wf l \<Longrightarrow> obj_wf (snd (write_lock h name l obj))"
  unfolding write_lock_def cls_cxx_setxattr_def obj_wf_def by auto

lemma omap_put_single: "m = [] \<Longrightarrow> omap_put k v m = [(k, v)]"
  by simp

lemma lock_wf_put:
  assumes "lock_wf l" "t = LOCK_EXCLUSIVE \<or> t = LOCK_SHARED"
    "omap_del k (lockers l) = [] \<or> t \<noteq> LOCK_EXCLUSIVE"
  shows "lock_wf (l\<lparr>lock_type := t, tag := g, lockers := omap_put k v (omap_del k (lockers l))\<rparr>)"
  using assms by (auto simp: lock_wf_def)

text \<open>When a request is granted on the lock it reads, and the lock that is then written.\<close>

definition may_lock :: "hctx \<Rightarrow> lock_op \<Rightarrow> lock_info \<Rightarrow> bool" where
  "may_lock h op l \<longleftrightarrow>
     (lockers l \<noteq> [] \<longrightarrow> tag l = lo_tag op)
     \<and> (map_of (lockers l) (hc_name h, lo_cookie op) \<noteq> None \<longrightarrow> lo_flags op AND LOCK_FLAG_RENEW \<noteq> 0)
     \<and> (omap_del (hc_name h, lo_cookie op) (lockers l) \<noteq> [] \<longrightarrow>
          lo_type op = LOCK_SHARED \<and> lock_type l = LOCK_SHARED)"

definition new_expiration :: "hctx \<Rightarrow> lock_op \<Rightarrow> utime" where
  "new_expiration h op = (if \<not> utime_is_zero (lo_duration op)
     then utime_add (hc_now_expiration h) (lo_duration op) else (0, 0))"

definition locked :: "hctx \<Rightarrow> lock_op \<Rightarrow> lock_info \<Rightarrow> lock_info" where
  "locked h op l =
     l\<lparr>lock_type := lo_type op, tag := lo_tag op,
       lockers := omap_put (hc_name h, lo_cookie op)
         \<lparr>expiration = new_expiration h op, addr = hc_addr h, li_description = lo_description op\<rparr>
         (omap_del (hc_name h, lo_cookie op) (lockers l))\<rparr>"

definition valid_lock_op :: "lock_op \<Rightarrow> bool" where
  "valid_lock_op op \<longleftrightarrow> (lo_type op = LOCK_EXCLUSIVE \<or> lo_type op = LOCK_SHARED) \<and> lo_name op \<noteq> []"

lemma lock_obj_granted:
  assumes "valid_lock_op op" "read_or_new h (lo_name op) obj = Inr l" "may_lock h op l"
  shows "lock_obj h op obj = write_lock h (lo_name op) (locked h op l) obj"
proof -
  have t: "\<not> (lo_type op \<noteq> LOCK_EXCLUSIVE \<and> lo_type op \<noteq> LOCK_SHARED)" "lo_name op \<noteq> []"
    using assms(1) by (auto simp: valid_lock_op_def)
  have c: "\<not> (lockers l \<noteq> [] \<and> lo_tag op \<noteq> tag l)"
      "\<not> (map_of (lockers l) (hc_name h, lo_cookie op) \<noteq> None \<and> lo_flags op AND LOCK_FLAG_RENEW = 0)"
      "\<not> (omap_del (hc_name h, lo_cookie op) (lockers l) \<noteq> [] \<and> lo_type op = LOCK_EXCLUSIVE)"
      "\<not> (omap_del (hc_name h, lo_cookie op) (lockers l) \<noteq> [] \<and> lock_type l \<noteq> lo_type op)"
    using assms(3) by (auto simp: may_lock_def)
  show ?thesis
    unfolding lock_obj_def Let_def locked_def new_expiration_def if_not_P [OF t(1)] if_not_P [OF t(2)]
      assms(2) sum.case if_not_P [OF c(1)] if_not_P [OF c(2)] if_not_P [OF c(3)] if_not_P [OF c(4)]
    by (rule refl)
qed

lemma read_or_new_neg: "read_or_new h name obj = Inl r \<Longrightarrow> r < 0"
  unfolding read_or_new_def by (auto split: sum.splits if_splits)

lemma lock_obj_refused:
  assumes "\<not> (valid_lock_op op \<and> (\<exists>l. read_or_new h (lo_name op) obj = Inr l \<and> may_lock h op l))"
  shows "\<exists>r < 0. lock_obj h op obj = (r, obj)"
proof (cases "valid_lock_op op")
  case False
  then show ?thesis unfolding lock_obj_def Let_def valid_lock_op_def by (auto simp: errno_defs)
next
  case valid: True
  show ?thesis
  proof (cases "read_or_new h (lo_name op) obj")
    case (Inl r)
    then show ?thesis
      using valid read_or_new_neg [OF Inl] unfolding lock_obj_def Let_def valid_lock_op_def by auto
  next
    case (Inr l)
    then have "\<not> may_lock h op l" using assms valid by auto
    then consider "lockers l \<noteq> [] \<and> lo_tag op \<noteq> tag l"
      | "map_of (lockers l) (hc_name h, lo_cookie op) \<noteq> None \<and> lo_flags op AND LOCK_FLAG_RENEW = 0"
      | "omap_del (hc_name h, lo_cookie op) (lockers l) \<noteq> [] \<and> lo_type op = LOCK_EXCLUSIVE"
      | "omap_del (hc_name h, lo_cookie op) (lockers l) \<noteq> [] \<and> lock_type l \<noteq> lo_type op"
      using valid by (auto simp: may_lock_def valid_lock_op_def)
    then show ?thesis
      using valid Inr unfolding lock_obj_def Let_def valid_lock_op_def
      by cases (auto simp: errno_defs)
  qed
qed

lemma read_or_new_wf: "obj_wf obj \<Longrightarrow> read_or_new h name obj = Inr l \<Longrightarrow> lock_wf l"
  unfolding read_or_new_def by (auto split: sum.splits if_splits intro: read_lock_wf)

lemma locked_wf: "lock_wf l \<Longrightarrow> valid_lock_op op \<Longrightarrow> may_lock h op l \<Longrightarrow> lock_wf (locked h op l)"
  unfolding locked_def valid_lock_op_def may_lock_def by (rule lock_wf_put) auto

lemma lock_obj_wf:
  assumes "obj_wf obj"
  shows "obj_wf (snd (lock_obj h op obj))"
proof (cases "valid_lock_op op \<and> (\<exists>l. read_or_new h (lo_name op) obj = Inr l \<and> may_lock h op l)")
  case True
  then obtain l where l: "read_or_new h (lo_name op) obj = Inr l" "may_lock h op l" by auto
  then have "lock_wf (locked h op l)" using True assms by (auto intro: locked_wf read_or_new_wf)
  then show ?thesis using True l assms by (simp add: lock_obj_granted write_lock_wf)
next
  case False
  then show ?thesis using lock_obj_refused [OF False] assms by auto
qed

lemma remove_lock_wf: "obj_wf obj \<Longrightarrow> obj_wf (snd (remove_lock h name locker cookie obj))"
  unfolding remove_lock_def by (auto split: sum.splits intro!: write_lock_wf dest: read_lock_wf)

lemma held_as_read: "held_as h op obj = Inr l \<Longrightarrow> read_lock h (ao_name op) obj = Inr l
   \<and> lock_type l = ao_type op \<and> tag l = ao_tag op
   \<and> (\<exists>info. map_of (lockers l) (hc_name h, ao_cookie op) = Some info)"
  unfolding held_as_def by (auto split: if_splits sum.splits)

lemma omap_single:
  "length m \<le> Suc 0 \<Longrightarrow> map_of m k = Some v \<Longrightarrow> m = [(k, v)]"
  by (cases m) (auto split: if_splits)

lemma lock_wf_rename:
  assumes "lock_wf l" "map_of (lockers l) k = Some v"
  shows "lock_wf (l\<lparr>lockers := omap_put k' w (omap_del k (lockers l))\<rparr>)"
proof (cases "lock_type l = LOCK_EXCLUSIVE")
  case True
  then have "lockers l = [(k, v)]" using assms omap_single [of "lockers l" k v] by (simp add: lock_wf_def)
  then show ?thesis using True by (simp add: lock_wf_def omap_del_def)
next
  case False
  then show ?thesis using assms by (auto simp: lock_wf_def)
qed

lemma set_cookie_wf: "obj_wf obj \<Longrightarrow> obj_wf (snd (set_cookie h req obj))"
  unfolding set_cookie_def Let_def
  by (auto split: option.splits sum.splits intro!: write_lock_wf lock_wf_rename dest!: held_as_read
      intro: read_lock_wf)

lemma cls_call_wf: "obj_wf obj \<Longrightarrow> obj_wf (snd (cls_call c obj))"
  by (cases "(c, obj)" rule: cls_call.cases)
    (auto simp: cls_lock_op_def unlock_op_def break_lock_def lock_obj_wf remove_lock_wf set_cookie_wf
      split: option.splits)

lemma cls_calls_wf: "obj_wf obj \<Longrightarrow> obj_wf (cls_calls cs obj)"
  unfolding cls_calls_def by (induction cs arbitrary: obj) (auto simp: cls_call_wf)

section \<open>When a lock is granted\<close>

text \<open>An example that the witnesses share: an object that does not exist and a request for it.\<close>

definition ex_h :: hctx where
  "ex_h = \<lparr>hc_now = (100, 0), hc_now_expiration = (100, 5), hc_name = (8, 4100), hc_addr = ''a'',
     hc_getxattr = 0, hc_setxattr = 0\<rparr>"

definition ex_op :: lock_op where
  "ex_op = \<lparr>lo_name = ''x'', lo_type = LOCK_EXCLUSIVE, lo_duration = (30, 0), lo_description = [],
     lo_flags = 0, lo_cookie = ''c'', lo_tag = ''t''\<rparr>"

definition ex_obj :: cls_obj where
  "ex_obj = \<lparr>obj_exists = False, xattrs = []\<rparr>"

lemma ex_obj_wf: "obj_wf ex_obj"
  by (simp add: obj_wf_def ex_obj_def)

lemma ex_lock: "lock_obj ex_h ex_op ex_obj = (0, snd (lock_obj ex_h ex_op ex_obj))"
  by code_simp

text \<open>
  C19: When a lock is granted. \<^verbatim>\<open>lock_obj\<close> returns 0 exactly when the request is valid, the lock can be
  read and written, and against the lockers whose time is not over the tag matches, the client does
  not hold the lock already unless it renews, and every other locker and the request are shared. In
  every other case it returns an error and leaves the object as it was.
\<close>

theorem lock_obj_outcome:
  "lock_obj h op obj = (r, obj') \<Longrightarrow>
     (r = 0 \<longleftrightarrow> valid_lock_op op \<and> 0 \<le> hc_setxattr h \<and>
        (\<exists>l held. read_or_new h (lo_name op) obj = Inr l \<and> held = dom (map_of (lockers l))
          \<and> (held = {} \<or> tag l = lo_tag op)
          \<and> ((hc_name h, lo_cookie op) \<notin> held \<or> lo_flags op AND LOCK_FLAG_RENEW \<noteq> 0)
          \<and> (held \<subseteq> {(hc_name h, lo_cookie op)} \<or> lo_type op = LOCK_SHARED \<and> lock_type l = LOCK_SHARED)))
     \<and> (r = 0 \<or> r < 0 \<and> obj' = obj)"
proof -
  assume a: "lock_obj h op obj = (r, obj')"
  have d: "omap_del k m = [] \<longleftrightarrow> dom (map_of m) \<subseteq> {k}" for k :: locker_id and m :: "(locker_id, locker_info) omap"
    by (auto simp: omap_del_def filter_empty_conv dom_map_of_conv_image_fst)
  have e: "lockers l = [] \<longleftrightarrow> dom (map_of (lockers l)) = {}" for l by (cases "lockers l") auto
  have m: "may_lock h op l \<longleftrightarrow> (dom (map_of (lockers l)) = {} \<or> tag l = lo_tag op)
          \<and> ((hc_name h, lo_cookie op) \<notin> dom (map_of (lockers l)) \<or> lo_flags op AND LOCK_FLAG_RENEW \<noteq> 0)
          \<and> (dom (map_of (lockers l)) \<subseteq> {(hc_name h, lo_cookie op)}
             \<or> lo_type op = LOCK_SHARED \<and> lock_type l = LOCK_SHARED)" for l
    unfolding may_lock_def d e domIff by blast
  show ?thesis
  proof (cases "valid_lock_op op \<and> (\<exists>l. read_or_new h (lo_name op) obj = Inr l \<and> may_lock h op l)")
    case True
    then obtain l where l: "read_or_new h (lo_name op) obj = Inr l" "may_lock h op l" by blast
    then have "write_lock h (lo_name op) (locked h op l) obj = (r, obj')"
      using True a by (simp add: lock_obj_granted)
    then have "(r = 0 \<longleftrightarrow> 0 \<le> hc_setxattr h) \<and> (r = 0 \<or> r < 0 \<and> obj' = obj)"
      by (auto simp: write_lock_def cls_cxx_setxattr_def split: if_splits)
    then show ?thesis using True l(1) l(2) [unfolded m] by auto
  next
    case False
    then show ?thesis using lock_obj_refused [OF False] a False [unfolded m] by auto
  qed
qed

theorem lock_obj_outcome_witness:
  "valid_lock_op ex_op \<and> (\<exists>l. read_or_new ex_h ''x'' ex_obj = Inr l)"
  using lock_obj_outcome [OF ex_lock] by (auto simp: ex_op_def)

section \<open>Mutual exclusion\<close>

text \<open>What it means for a client to hold a lock: \<^verbatim>\<open>assert_locked\<close> returns 0.\<close>

lemma assert_locked_iff:
  "assert_locked h (Some op) obj = 0 \<longleftrightarrow> (\<exists>l. held_as h op obj = Inr l) \<or> held_as h op obj = Inl 0"
  unfolding assert_locked_def by (auto split: sum.splits)

lemma held_as_nonzero: "held_as h op obj \<noteq> Inl 0"
  unfolding held_as_def read_lock_def cls_cxx_getxattr_def
  by (auto simp: errno_defs split: if_splits sum.splits option.splits attr.splits)

lemma held_stored:
  assumes "assert_locked h (Some op) obj = 0"
  obtains l info where "map_of (xattrs obj) (lock_key (ao_name op)) = Some (A_lock l)"
    "lock_type l = ao_type op" "((hc_name h, ao_cookie op), info) \<in> set (lockers l)"
proof -
  obtain l info where l: "read_lock h (ao_name op) obj = Inr l" "lock_type l = ao_type op"
      "map_of (lockers l) (hc_name h, ao_cookie op) = Some info"
    using assms held_as_read held_as_nonzero by (metis assert_locked_iff)
  from l(3) have "((hc_name h, ao_cookie op), info) \<in> set (lockers l)" by (rule map_of_SomeD)
  then show thesis using that l
    by (auto simp: read_lock_def cls_cxx_getxattr_def trim_expired_def empty_lock_def
        split: if_splits option.splits attr.splits)
qed

definition ex_assertion :: assert_op where
  "ex_assertion = \<lparr>ao_name = ''x'', ao_type = LOCK_EXCLUSIVE, ao_cookie = ''c'', ao_tag = ''t''\<rparr>"

lemma ex_held: "assert_locked ex_h (Some ex_assertion) (cls_calls [(ex_h, R_lock (Some ex_op))] ex_obj) = 0"
  by code_simp



end
