(* ===== verification/ClsLockTime.thy ===== *)
theory ClsLockTime
  imports ClsLockProps
begin

text \<open>
  How long a lock is held: the arithmetic of \<^verbatim>\<open>utime_t\<close> as that of nanoseconds modulo the range of
  the seconds, a granted lock that is held exactly until its duration is over, and what happens
  when the expiration wraps around.
\<close>

section \<open>Times as nanoseconds\<close>

abbreviation GIGA :: nat where "GIGA \<equiv> 1000000000"

definition to_nsec :: "utime \<Rightarrow> nat" where
  "to_nsec t = unat (snd t) + unat (fst t) * GIGA"

definition normal :: "utime \<Rightarrow> bool" where
  "normal t \<longleftrightarrow> unat (snd t) < GIGA"

lemma sint_small:
  fixes w :: "32 word"
  assumes "unat w < GIGA"
  shows "sint w = int (unat w)"
proof -
  define n where "n = unat w"
  have n: "uint w = int n" "n < GIGA" using assms by (simp_all only: n_def uint_nat)
  then have "signed_take_bit 31 (int n) = int n" by (intro signed_take_bit_int_eq_self) simp_all
  then show ?thesis unfolding sint_uint n(1) n_def [symmetric] by simp
qed

lemma nsec_order:
  fixes a b c d :: nat
  assumes "b < GIGA" "d < GIGA"
  shows "b + a * GIGA < d + c * GIGA \<longleftrightarrow> a < c \<or> a = c \<and> b < d"
  using assms by (cases a c rule: linorder_cases) auto

lemma utime_less_nsec:
  assumes "normal a" "normal b"
  shows "utime_less a b \<longleftrightarrow> to_nsec a < to_nsec b"
proof -
  have "sint (snd a) < sint (snd b) \<longleftrightarrow> unat (snd a) < unat (snd b)"
    unfolding sint_small [OF assms(1) [unfolded normal_def]] sint_small [OF assms(2) [unfolded normal_def]]
    by (rule of_nat_less_iff)
  then show ?thesis
    using nsec_order [OF assms [unfolded normal_def]]
    by (simp add: utime_less_def to_nsec_def word_less_nat_alt word_unat_eq_iff)
qed

lemma nat_sdiv: "int n sdiv 1000000000 = int (n div GIGA)"
  by (cases "n = 0") (simp_all add: signed_divide_int_def zdiv_int)

lemma nsec_sum:
  fixes a b c d :: nat
  shows "(b + a * GIGA + (d + c * GIGA)) mod (GIGA * 2 ^ 32)
       = (b + d) mod GIGA + ((a + (c + (b + d) div GIGA)) mod 2 ^ 32) * GIGA"
proof -
  have e: "b + a * GIGA + (d + c * GIGA) = (b + d) + (a + c) * GIGA" by (simp add: algebra_simps)
  have "(b + d + (a + c) * GIGA) div GIGA = a + (c + (b + d) div GIGA)"
    by (subst div_mult_self1) auto
  moreover have "(b + d + (a + c) * GIGA) mod GIGA = (b + d) mod GIGA" by (rule mod_mult_self1)
  ultimately show ?thesis unfolding e mod_mult2_eq by (simp only: add.commute mult.commute)
qed

lemma unat_add_of_nat: "unat (x + of_nat n :: 32 word) = (unat x + n) mod 2 ^ 32"
  by (simp add: unat_word_ariths(1) unat_of_nat mod_simps)

lemma utime_add_fst:
  assumes "normal a" "normal b"
  shows "unat (fst (utime_add a b)) = (unat (fst a) + (unat (fst b) + (unat (snd a) + unat (snd b)) div GIGA)) mod 2 ^ 32"
proof -
  have "sint (snd a) + sint (snd b) = int (unat (snd a) + unat (snd b))"
    unfolding sint_small [OF assms(1) [unfolded normal_def]] sint_small [OF assms(2) [unfolded normal_def]]
    by (rule of_nat_add [symmetric])
  then have "fst (utime_add a b) = fst a + word_of_int (int (unat (fst b)) + int ((unat (snd a) + unat (snd b)) div GIGA))"
    unfolding utime_add_def uint_nat by (simp only: nat_sdiv fst_conv)
  also have "\<dots> = fst a + of_nat (unat (fst b) + (unat (snd a) + unat (snd b)) div GIGA)"
    by (simp only: of_nat_add [symmetric] of_int_of_nat_eq)
  finally show ?thesis by (simp only: unat_add_of_nat)
qed

lemma utime_add_nsec:
  assumes "normal a" "normal b"
  shows "normal (utime_add a b)"
    and "to_nsec (utime_add a b) = (to_nsec a + to_nsec b) mod (GIGA * 2 ^ 32)"
proof -
  have "unat (snd a) + unat (snd b) < 2 ^ LENGTH(32)" using assms by (simp add: normal_def)
  then have "unat (snd a + snd b) = unat (snd a) + unat (snd b)" by (simp only: unat_add_lem)
  then have sn: "unat (snd (utime_add a b)) = (unat (snd a) + unat (snd b)) mod GIGA"
    by (simp add: utime_add_def unat_mod_distrib)
  then show "normal (utime_add a b)" by (simp add: normal_def)
  show "to_nsec (utime_add a b) = (to_nsec a + to_nsec b) mod (GIGA * 2 ^ 32)"
    unfolding to_nsec_def nsec_sum sn utime_add_fst [OF assms] ..
qed

lemma to_nsec_bound: "normal t \<Longrightarrow> to_nsec t < GIGA * 2 ^ 32"
  using nsec_order [of "unat (snd t)" 0 "unat (fst t)" "2 ^ 32"] unsigned_less [of "fst t"]
  by (simp add: to_nsec_def normal_def)

lemma utime_is_zero_nsec: "utime_is_zero t \<longleftrightarrow> to_nsec t = 0"
  by (simp add: utime_is_zero_def to_nsec_def unat_eq_zero conj_commute)

lemma map_of_filter_None: "k \<notin> fst ` set m \<Longrightarrow> map_of (filter P m) k = None"
  by (auto simp: map_of_eq_None_iff)

lemma map_of_filter_put:
  "map_of (filter P (omap_put k v (omap_del k m))) k = (if P (k, v) then Some v else None)"
proof -
  have "k \<notin> fst ` set m' \<Longrightarrow>
      map_of (filter P (omap_put k v m')) k = (if P (k, v) then Some v else None)" for m'
    by (induction k v m' rule: omap_put.induct) (auto simp: map_of_filter_None)
  moreover have "k \<notin> fst ` set (omap_del k m)" by (auto simp: omap_del_def)
  ultimately show ?thesis by blast
qed

section \<open>How long a lock is held\<close>

lemma lock_obj_success:
  assumes "lock_obj h op obj = (0, obj')"
  obtains l where "valid_lock_op op" "read_or_new h (lo_name op) obj = Inr l" "may_lock h op l"
    "obj' = obj\<lparr>obj_exists := True,
       xattrs := omap_put (lock_key (lo_name op)) (A_lock (locked h op l)) (xattrs obj)\<rparr>"
proof (cases "valid_lock_op op \<and> (\<exists>l. read_or_new h (lo_name op) obj = Inr l \<and> may_lock h op l)")
  case True
  then obtain l where l: "read_or_new h (lo_name op) obj = Inr l" "may_lock h op l" by blast
  then have "write_lock h (lo_name op) (locked h op l) obj = (0, obj')"
    using True assms lock_obj_granted [of op h obj l] by simp
  then show thesis using that l True
    by (auto simp: write_lock_def cls_cxx_setxattr_def split: if_splits)
next
  case False
  then show thesis using lock_obj_refused [OF False] assms by auto
qed

text \<open>The question whether a client still holds the lock it asked for.\<close>

definition assertion :: "lock_op \<Rightarrow> assert_op" where
  "assertion op = \<lparr>ao_name = lo_name op, ao_type = lo_type op, ao_cookie = lo_cookie op, ao_tag = lo_tag op\<rparr>"

lemma read_stored:
  assumes "0 \<le> hc_getxattr h" "obj_exists obj" "map_of (xattrs obj) (lock_key name) = Some (A_lock l)"
  shows "read_lock h name obj = Inr (trim_expired (hc_now h) l)"
  using assms by (simp add: read_lock_def cls_cxx_getxattr_def)

lemma assert_after_lock:
  assumes "lock_obj h op obj = (0, obj')" "hc_name h2 = hc_name h" "0 \<le> hc_getxattr h2"
  shows "assert_locked h2 (Some (assertion op)) obj' = 0 \<longleftrightarrow>
    utime_is_zero (new_expiration h op) \<or> \<not> utime_less (new_expiration h op) (hc_now h2)"
proof -
  obtain l where l: "valid_lock_op op" "may_lock h op l"
      "obj' = obj\<lparr>obj_exists := True,
       xattrs := omap_put (lock_key (lo_name op)) (A_lock (locked h op l)) (xattrs obj)\<rparr>"
    using lock_obj_success [OF assms(1)] .
  let ?t = "trim_expired (hc_now h2) (locked h op l)"
  have r: "read_lock h2 (lo_name op) obj' = Inr ?t" using l(3) assms(3) by (intro read_stored) auto
  have m: "map_of (lockers ?t) (hc_name h, lo_cookie op) = None \<longleftrightarrow>
      \<not> (utime_is_zero (new_expiration h op) \<or> \<not> utime_less (new_expiration h op) (hc_now h2))"
    by (simp add: trim_expired_def locked_def map_of_filter_put expired_def)
  have "lockers ?t = [] \<Longrightarrow> map_of (lockers ?t) (hc_name h, lo_cookie op) = None" by simp
  moreover have "lock_type ?t = lo_type op" "tag ?t = lo_tag op" by (simp_all add: trim_expired_def locked_def)
  ultimately have "(\<exists>l'. held_as h2 (assertion op) obj' = Inr l') \<longleftrightarrow> map_of (lockers ?t) (hc_name h, lo_cookie op) \<noteq> None"
    using l(1) r assms(2) unfolding held_as_def assertion_def valid_lock_op_def by auto
  then show ?thesis using m held_as_nonzero by (simp add: assert_locked_iff)
qed

lemma new_expiration_nsec:
  assumes "normal (hc_now_expiration h)" "normal (lo_duration op)" "\<not> utime_is_zero (lo_duration op)"
  shows "normal (new_expiration h op)"
    "to_nsec (new_expiration h op) = (to_nsec (hc_now_expiration h) + to_nsec (lo_duration op)) mod (GIGA * 2 ^ 32)"
  using assms by (simp_all add: new_expiration_def utime_add_nsec)

text \<open>
  C20: A granted lock is held until it expires and no longer. As long as the time of the grant plus
  the duration does not exceed the range of the seconds, \<^verbatim>\<open>assert_locked\<close> by the same client on the
  object just written succeeds exactly up to that time, and always when the duration is zero.
\<close>

theorem lock_held_until_expiry:
  assumes "lock_obj h op obj = (0, obj')" "hc_name h2 = hc_name h" "0 \<le> hc_getxattr h2"
    and "normal (hc_now_expiration h)" "normal (lo_duration op)" "normal (hc_now h2)"
    and nowrap: "to_nsec (hc_now_expiration h) + to_nsec (lo_duration op) < GIGA * 2 ^ 32"
  shows "assert_locked h2 (Some (assertion op)) obj' = 0 \<longleftrightarrow>
    utime_is_zero (lo_duration op)
    \<or> to_nsec (hc_now h2) \<le> to_nsec (hc_now_expiration h) + to_nsec (lo_duration op)"
proof (cases "utime_is_zero (lo_duration op)")
  case True
  then show ?thesis using assert_after_lock [OF assms(1-3)] by (simp add: new_expiration_def utime_is_zero_def)
next
  case False
  note e = new_expiration_nsec [OF assms(4,5) False]
  have "to_nsec (new_expiration h op) = to_nsec (hc_now_expiration h) + to_nsec (lo_duration op)"
    using e(2) nowrap by (simp only: mod_less)
  moreover have "to_nsec (lo_duration op) \<noteq> 0" using False utime_is_zero_nsec by blast
  ultimately show ?thesis
    using assert_after_lock [OF assms(1-3)] False utime_less_nsec [OF e(1) assms(6)]
    unfolding utime_is_zero_nsec [of "new_expiration h op"] by linarith
qed

text \<open>At the instant of the grant the lock is still held.\<close>

theorem lock_held_until_expiry_witness:
  "assert_locked ex_h (Some (assertion ex_op)) (snd (lock_obj ex_h ex_op ex_obj)) = 0"
proof -
  have n: "normal (hc_now_expiration ex_h)" "normal (lo_duration ex_op)" "normal (hc_now ex_h)"
    "to_nsec (hc_now_expiration ex_h) + to_nsec (lo_duration ex_op) < GIGA * 2 ^ 32"
    by (simp_all add: normal_def to_nsec_def ex_h_def ex_op_def)
  have "to_nsec (hc_now ex_h) \<le> to_nsec (hc_now_expiration ex_h) + to_nsec (lo_duration ex_op)"
    by (simp add: to_nsec_def ex_h_def ex_op_def)
  then show ?thesis using lock_held_until_expiry [OF ex_lock refl _ n] by (simp add: ex_h_def)
qed

text \<open>
  C22: The expiration wraps around. When the time of the grant plus the duration is beyond the range of
  the seconds, an exclusive lock that was granted is over at once: at the very time it was granted
  any valid request for it by anyone is granted too.
\<close>

theorem lock_expiration_wraps:
  assumes "lock_obj h op obj = (0, obj')" "lo_type op = LOCK_EXCLUSIVE"
    and "normal (hc_now_expiration h)" "normal (lo_duration op)"
    and wrap: "GIGA * 2 ^ 32 < to_nsec (hc_now_expiration h) + to_nsec (lo_duration op)"
    and "hc_now h2 = hc_now_expiration h" "0 \<le> hc_getxattr h2" "0 \<le> hc_setxattr h2"
    and "valid_lock_op op2" "lo_name op2 = lo_name op"
  shows "fst (lock_obj h2 op2 obj') = 0"
proof -
  obtain l where l: "may_lock h op l" "obj' = obj\<lparr>obj_exists := True,
       xattrs := omap_put (lock_key (lo_name op)) (A_lock (locked h op l)) (xattrs obj)\<rparr>"
    using lock_obj_success [OF assms(1)] .
  have z: "\<not> utime_is_zero (lo_duration op)"
    using wrap to_nsec_bound [OF assms(3)] utime_is_zero_nsec [of "lo_duration op"] by linarith
  note e = new_expiration_nsec [OF assms(3,4) z]
  let ?s = "to_nsec (hc_now_expiration h) + to_nsec (lo_duration op)"
  have "?s mod (GIGA * 2 ^ 32) = ?s - GIGA * 2 ^ 32"
    using wrap to_nsec_bound [OF assms(3)] to_nsec_bound [OF assms(4)]
    by (simp add: le_mod_geq)
  then have n: "to_nsec (new_expiration h op) = ?s - GIGA * 2 ^ 32" using e(2) by simp
  have "utime_less (new_expiration h op) (hc_now h2)" "\<not> utime_is_zero (new_expiration h op)"
    unfolding assms(6) utime_less_nsec [OF e(1) assms(3)] utime_is_zero_nsec n
    using wrap to_nsec_bound [OF assms(4)] by linarith+
  moreover have "omap_del (hc_name h, lo_cookie op) (lockers l) = []"
    using l(1) assms(2) by (auto simp: may_lock_def)
  ultimately have "lockers (trim_expired (hc_now h2) (locked h op l)) = []"
    by (simp add: trim_expired_def locked_def expired_def)
  moreover have "read_or_new h2 (lo_name op2) obj' = Inr (trim_expired (hc_now h2) (locked h op l))"
    using read_stored [OF assms(7), of obj' "lo_name op2"] l(2) assms(10) by (simp add: read_or_new_def)
  ultimately show ?thesis
    using lock_obj_granted [OF assms(9)] assms(8) by (simp add: may_lock_def write_lock_def cls_cxx_setxattr_def)
qed

definition ex_long :: lock_op where
  "ex_long = ex_op\<lparr>lo_duration := (4294967295, 0)\<rparr>"

definition ex_other :: hctx where
  "ex_other = ex_h\<lparr>hc_name := (8, 5200), hc_now := (100, 5)\<rparr>"

lemma ex_long_lock: "lock_obj ex_h ex_long ex_obj = (0, snd (lock_obj ex_h ex_long ex_obj))"
  by code_simp

theorem lock_expiration_wraps_witness:
  "fst (lock_obj ex_other ex_op (snd (lock_obj ex_h ex_long ex_obj))) = 0"
proof -
  have n: "normal (hc_now_expiration ex_h)" "normal (lo_duration ex_long)"
    "GIGA * 2 ^ 32 < to_nsec (hc_now_expiration ex_h) + to_nsec (lo_duration ex_long)"
    by (simp_all add: normal_def to_nsec_def ex_h_def ex_long_def)
  show ?thesis
    by (rule lock_expiration_wraps [OF ex_long_lock _ n])
      (simp_all add: ex_other_def ex_h_def ex_long_def ex_op_def valid_lock_op_def)
qed

end
