(* ===== verification/ClsLockOthers.thy ===== *)
theory ClsLockOthers
  imports ClsLockTime
begin

text \<open>
  What a call leaves of the locks of other clients, and that unlocking undoes locking.
\<close>

section \<open>Locks of other clients\<close>

lemma map_of_filterD:
  "omap_wf m \<Longrightarrow> map_of (filter P m) k = Some v \<Longrightarrow> map_of m k = Some v"
  by (induction m) (fastforce split: if_splits dest: map_of_SomeD)+

lemma read_lock_key: "lock_key n = lock_key n' \<Longrightarrow> read_lock h n obj = read_lock h n' obj"
  by (simp add: read_lock_def)

text \<open>A lock with lockers was read from an attribute, which still has them.\<close>

lemma read_lock_stored:
  assumes "obj_wf obj" "read_lock h name obj = Inr l" "map_of (lockers l) idk = Some info"
  obtains l' where "map_of (xattrs obj) (lock_key name) = Some (A_lock l')"
    "map_of (lockers l') idk = Some info" "lock_type l' = lock_type l" "tag l' = tag l"
proof -
  obtain l' where l': "map_of (xattrs obj) (lock_key name) = Some (A_lock l')" "l = trim_expired (hc_now h) l'"
    using assms(2,3) by (auto simp: read_lock_def cls_cxx_getxattr_def empty_lock_def
        split: if_splits option.splits attr.splits)
  moreover have "omap_wf (lockers l')" using assms(1) l'(1) by (auto simp: obj_wf_def lock_wf_def)
  ultimately show thesis using that assms(3) map_of_filterD [of "lockers l'"] by (simp add: trim_expired_def)
qed

text \<open>A locker that stays as it is.\<close>

definition keeps :: "locker_id \<Rightarrow> lock_info \<Rightarrow> lock_info \<Rightarrow> bool" where
  "keeps idk l l' \<longleftrightarrow> (\<forall>info. map_of (lockers l) idk = Some info \<longrightarrow>
     map_of (lockers l') idk = Some info \<and> lock_type l' = lock_type l \<and> tag l' = tag l)"

definition still_held :: "cls_obj \<Rightarrow> string \<Rightarrow> locker_id \<Rightarrow> locker_info \<Rightarrow> lock_info \<Rightarrow> bool" where
  "still_held obj name idk info l =
     (case map_of (xattrs obj) (lock_key name) of
        Some (A_lock l') \<Rightarrow> map_of (lockers l') idk = Some info \<and> lock_type l' = lock_type l \<and> tag l' = tag l
      | _ \<Rightarrow> False)"

lemma still_held_same:
  "obj_wf obj \<Longrightarrow> read_lock h name obj = Inr l \<Longrightarrow> map_of (lockers l) idk = Some info
   \<Longrightarrow> still_held obj name idk info l"
  by (erule (2) read_lock_stored) (simp add: still_held_def)

lemma write_lock_frame:
  assumes "obj_wf obj" "read_lock h name obj = Inr l" "map_of (lockers l) idk = Some info"
    and "read_lock h n obj = Inr l0" "keeps idk l0 l1"
  shows "still_held (snd (write_lock h n l1 obj)) name idk info l"
proof (cases "lock_key n = lock_key name \<and> \<not> hc_setxattr h < 0")
  case True
  then have "l0 = l" using assms(2,4) read_lock_key [of n name h obj] by simp
  then show ?thesis
    using True assms(3,5) by (simp add: still_held_def write_lock_def cls_cxx_setxattr_def keeps_def)
next
  case False
  then show ?thesis
    using still_held_same [OF assms(1-3)]
    by (auto simp: still_held_def write_lock_def cls_cxx_setxattr_def)
qed

lemma map_of_omap_del_other: "map_of m k = Some v \<Longrightarrow> k \<noteq> k' \<Longrightarrow> omap_del k' m \<noteq> []"
  by (metis fun_upd_other map_of.simps(1) map_of_omap_del option.distinct(1))

lemma locked_keeps:
  assumes "may_lock h op l" "fst idk \<noteq> hc_name h"
  shows "keeps idk l (locked h op l)"
proof -
  have ne: "idk \<noteq> (hc_name h, lo_cookie op)" using assms(2) by (cases idk) auto
  then have "map_of (lockers l) idk = Some info \<Longrightarrow>
      omap_del (hc_name h, lo_cookie op) (lockers l) \<noteq> [] \<and> lockers l \<noteq> []" for info
    using map_of_omap_del_other by fastforce
  then show ?thesis using assms(1) ne unfolding keeps_def may_lock_def by (auto simp: locked_def)
qed

lemma lock_obj_frame:
  assumes "obj_wf obj" "read_lock h name obj = Inr l" "map_of (lockers l) idk = Some info"
    and "fst idk \<noteq> hc_name h"
  shows "still_held (snd (lock_obj h op obj)) name idk info l"
proof (cases "valid_lock_op op \<and> (\<exists>l. read_or_new h (lo_name op) obj = Inr l \<and> may_lock h op l)")
  case True
  then obtain l0 where l0: "read_or_new h (lo_name op) obj = Inr l0" "may_lock h op l0" by blast
  have "obj_exists obj" using assms(2) by (auto simp: read_lock_def cls_cxx_getxattr_def errno_defs split: if_splits)
  then have "read_lock h (lo_name op) obj = Inr l0"
    using l0(1) by (auto simp: read_or_new_def read_lock_def cls_cxx_getxattr_def errno_defs
        split: if_splits option.splits attr.splits)
  then show ?thesis
    using True l0 write_lock_frame [OF assms(1-3) _ locked_keeps [OF l0(2) assms(4)]]
    by (simp add: lock_obj_granted)
next
  case False
  then show ?thesis using lock_obj_refused [OF False] still_held_same [OF assms(1-3)] by auto
qed

lemma remove_lock_frame:
  assumes "obj_wf obj" "read_lock h name obj = Inr l" "map_of (lockers l) idk = Some info"
    and "fst idk = locker \<Longrightarrow> snd idk \<noteq> cookie"
  shows "still_held (snd (remove_lock h n locker cookie obj)) name idk info l"
proof -
  have "keeps idk l0 (l0\<lparr>lockers := omap_del (locker, cookie) (lockers l0)\<rparr>)" for l0
    using assms(4) by (cases idk) (auto simp: keeps_def)
  then show ?thesis
    using still_held_same [OF assms(1-3)] write_lock_frame [OF assms(1-3)]
    by (simp add: remove_lock_def split: sum.split)
qed

lemma set_cookie_frame:
  assumes "obj_wf obj" "read_lock h name obj = Inr l" "map_of (lockers l) idk = Some info"
    and "fst idk \<noteq> hc_name h"
  shows "still_held (snd (set_cookie h req obj)) name idk info l"
proof -
  have "keeps idk l0 (l0\<lparr>lockers := omap_put (hc_name h, c) v (omap_del (hc_name h, c') (lockers l0))\<rparr>)" for l0 c c' v
    using assms(4) by (auto simp: keeps_def)
  then show ?thesis
    using still_held_same [OF assms(1-3)] write_lock_frame [OF assms(1-3)]
    by (auto simp: set_cookie_def Let_def dest: held_as_read split: sum.split option.split)
qed

text \<open>
  C18: A client cannot take away the lock of another. Whatever it calls, a locker of any lock of the
  object that is another client's and is not over stays, with its information, and so do the type
  and the tag of that lock; the only exception is a \<^verbatim>\<open>break_lock\<close> that names this locker.
\<close>

theorem locks_of_others_kept:
  assumes "obj_wf obj" "read_lock h name obj = Inr l" "map_of (lockers l) idk = Some info"
    and "fst idk \<noteq> hc_name h"
    and "\<And>n. req \<noteq> R_break (Some (n, idk))"
  shows "still_held (snd (cls_call (h, req) obj)) name idk info l"
proof (cases req)
  case (R_unlock r)
  then show ?thesis
    using assms(4) remove_lock_frame [OF assms(1-3)] still_held_same [OF assms(1-3)]
    by (auto simp: unlock_op_def split: option.split)
next
  case (R_break r)
  show ?thesis
  proof (cases r)
    case None
    then show ?thesis using R_break still_held_same [OF assms(1-3)] by (simp add: break_lock_def)
  next
    case (Some q)
    then obtain n locker cookie where q: "r = Some (n, locker, cookie)" by (cases q) auto
    then have "fst idk = locker \<Longrightarrow> snd idk \<noteq> cookie" using R_break assms(5) [of n] by auto
    from remove_lock_frame [OF assms(1-3) this] show ?thesis
      using R_break q by (simp add: break_lock_def)
  qed
qed (use assms(4) lock_obj_frame [OF assms(1-3)] set_cookie_frame [OF assms(1-3)] still_held_same [OF assms(1-3)]
      in \<open>auto simp: cls_lock_op_def split: option.split\<close>)

definition ex_held_lock :: lock_info where
  "ex_held_lock = \<lparr>lockers = [(((8, 4100), ''c''), \<lparr>expiration = (130, 5), addr = ''a'', li_description = []\<rparr>)],
     lock_type = LOCK_EXCLUSIVE, tag = ''t''\<rparr>"

theorem locks_of_others_kept_witness:
  "still_held (snd (cls_call (ex_other, R_lock (Some ex_op)) (snd (lock_obj ex_h ex_op ex_obj))))
     ''x'' ((8, 4100), ''c'') \<lparr>expiration = (130, 5), addr = ''a'', li_description = []\<rparr> ex_held_lock"
proof (rule locks_of_others_kept)
  show "obj_wf (snd (lock_obj ex_h ex_op ex_obj))" by (rule lock_obj_wf [OF ex_obj_wf])
  show "read_lock ex_other ''x'' (snd (lock_obj ex_h ex_op ex_obj)) = Inr ex_held_lock" by code_simp
qed (simp_all add: ex_held_lock_def ex_other_def)

section \<open>Unlocking\<close>

lemma omap_del_filter: "omap_del k (filter P m) = filter P (omap_del k m)"
  by (simp add: omap_del_def conj_commute)

lemma omap_del_put: "omap_del k (omap_put k v m) = omap_del k m"
  by (induction k v m rule: omap_put.induct) (auto simp: omap_del_def)

lemma omap_del_absent: "map_of m k = None \<Longrightarrow> omap_del k m = m"
  by (auto simp: omap_del_def map_of_eq_None_iff filter_id_conv)

text \<open>
  C21: Unlocking undoes locking. If a lock was granted to a client that did not hold it, and the client
  unlocks it while it still holds it, the unlock succeeds and the lock has again the lockers it had
  before, without those whose time is over.
\<close>

theorem lock_unlock_roundtrip:
  assumes "lock_obj h op obj = (0, obj')" "read_or_new h (lo_name op) obj = Inr l"
    and "map_of (lockers l) (hc_name h, lo_cookie op) = None"
    and "hc_name h2 = hc_name h" "0 \<le> hc_getxattr h2" "0 \<le> hc_setxattr h2"
    and "assert_locked h2 (Some (assertion op)) obj' = 0"
  shows "\<exists>obj'' l''. unlock_op h2 (Some (lo_name op, lo_cookie op)) obj' = (0, obj'')
    \<and> read_lock h2 (lo_name op) obj'' = Inr l''
    \<and> lockers l'' = lockers (trim_expired (hc_now h2) l)"
proof -
  let ?idk = "(hc_name h, lo_cookie op)" and ?t = "trim_expired (hc_now h2) (locked h op l)"
  have o': "obj' = obj\<lparr>obj_exists := True,
       xattrs := omap_put (lock_key (lo_name op)) (A_lock (locked h op l)) (xattrs obj)\<rparr>"
    using lock_obj_success [OF assms(1)] assms(2) by (metis sum.inject(2))
  have r: "read_lock h2 (lo_name op) obj' = Inr ?t" using o' assms(5) by (intro read_stored) auto
  have "map_of (lockers ?t) ?idk \<noteq> None"
    using assms(4,7) r held_as_read [of h2 "assertion op" obj'] held_as_nonzero [of h2 "assertion op" obj']
    by (auto simp: assert_locked_iff assertion_def)
  moreover have "omap_del ?idk (lockers ?t) = lockers (trim_expired (hc_now h2) l)"
    using assms(3) by (simp add: trim_expired_def locked_def omap_del_filter omap_del_put omap_del_absent)
  ultimately show ?thesis
    using r assms(4-6) read_stored [OF assms(5)]
    by (auto simp: unlock_op_def remove_lock_def write_lock_def cls_cxx_setxattr_def trim_expired_def)
qed

theorem lock_unlock_roundtrip_witness:
  "\<exists>obj'' l''. unlock_op ex_h (Some (''x'', ''c'')) (snd (lock_obj ex_h ex_op ex_obj)) = (0, obj'')
    \<and> read_lock ex_h ''x'' obj'' = Inr l'' \<and> lockers l'' = []"
proof -
  have r: "read_or_new ex_h (lo_name ex_op) ex_obj = Inr empty_lock" by code_simp
  have a: "assert_locked ex_h (Some (assertion ex_op)) (snd (lock_obj ex_h ex_op ex_obj)) = 0" by code_simp
  show ?thesis
    using lock_unlock_roundtrip [OF ex_lock r _ refl _ _ a]
    by (simp add: empty_lock_def trim_expired_def ex_h_def ex_op_def)
qed

end
