(* ===== verification/Flock.thy ===== *)
theory Flock
  imports Prelude "HOL-Library.Monad_Syntax"
begin

text \<open>
  \<^verbatim>\<open>mds/flock.cc\<close> and \<^verbatim>\<open>mds/flock.h\<close>: the advisory byte range locks of an inode, and the two
  handlers of \<^verbatim>\<open>mds/Server.cc\<close> that change and query them. A \<^verbatim>\<open>multimap\<close> keyed by the start of
  its locks is the list of its entries in order. An entry of \<^verbatim>\<open>held_locks\<close> has a number that
  stands for the iterator to it; its lock is the one the iterator points to, since an entry changes
  only when it is visited itself. Offsets are naturals below \<open>2 ^ 64\<close> with the wrap-around of
  the code written out.
\<close>

section \<open>Locks\<close>

definition CEPH_LOCK_FCNTL :: nat where "CEPH_LOCK_FCNTL = 1"
definition CEPH_LOCK_FLOCK :: nat where "CEPH_LOCK_FLOCK = 2"
definition CEPH_LOCK_FCNTL_INTR :: nat where "CEPH_LOCK_FCNTL_INTR = 3"
definition CEPH_LOCK_FLOCK_INTR :: nat where "CEPH_LOCK_FLOCK_INTR = 4"
definition CEPH_LOCK_SHARED :: nat where "CEPH_LOCK_SHARED = 1"
definition CEPH_LOCK_EXCL :: nat where "CEPH_LOCK_EXCL = 2"
definition CEPH_LOCK_UNLOCK :: nat where "CEPH_LOCK_UNLOCK = 4"

lemmas lock_consts = CEPH_LOCK_FCNTL_def CEPH_LOCK_FLOCK_def CEPH_LOCK_FCNTL_INTR_def
  CEPH_LOCK_FLOCK_INTR_def CEPH_LOCK_SHARED_def CEPH_LOCK_EXCL_def CEPH_LOCK_UNLOCK_def

record filelock =
  fl_start :: nat
  fl_length :: nat
  fl_client :: nat
  fl_owner :: nat
  fl_pid :: nat
  fl_type :: nat

text \<open>64 bit addition and subtraction, and the conversion of a 64 bit value to \<^verbatim>\<open>int\<close> and back.\<close>

definition wadd :: "nat \<Rightarrow> nat \<Rightarrow> nat" where
  "wadd a b = (a + b) mod 2 ^ 64"

definition wsub :: "nat \<Rightarrow> nat \<Rightarrow> nat" where
  "wsub a b = (a + (2 ^ 64 - b mod 2 ^ 64)) mod 2 ^ 64"

definition through_int :: "nat \<Rightarrow> nat" where
  "through_int x = (let y = x mod 2 ^ 32 in if y < 2 ^ 31 then y else y + (2 ^ 64 - 2 ^ 32))"

definition UINT64_MAX :: nat where "UINT64_MAX = 2 ^ 64 - 1"

definition filelock_owner_equal :: "filelock \<Rightarrow> filelock \<Rightarrow> bool" where
  "filelock_owner_equal l r =
     (if fl_client l \<noteq> fl_client r \<or> fl_owner l \<noteq> fl_owner r then False
      else if fl_owner l div 2 ^ 63 mod 2 = 1 then True
      else fl_pid l = fl_pid r)"

definition filelock_owner_compare :: "filelock \<Rightarrow> filelock \<Rightarrow> int" where
  "filelock_owner_compare l r =
     (if fl_client l \<noteq> fl_client r then (if fl_client l > fl_client r then 1 else - 1)
      else if fl_owner l \<noteq> fl_owner r then (if fl_owner l > fl_owner r then 1 else - 1)
      else if fl_owner l div 2 ^ 63 mod 2 = 1 then 0
      else if fl_pid l \<noteq> fl_pid r then (if fl_pid l > fl_pid r then 1 else - 1)
      else 0)"

definition filelock_compare :: "filelock \<Rightarrow> filelock \<Rightarrow> int" where
  "filelock_compare l r =
     (let ret = filelock_owner_compare l r in
      if ret \<noteq> 0 then ret
      else if fl_start l \<noteq> fl_start r then (if fl_start l > fl_start r then 1 else - 1)
      else if fl_length l \<noteq> fl_length r then (if fl_length l > fl_length r then 1 else - 1)
      else if fl_type l \<noteq> fl_type r then (if fl_type l > fl_type r then 1 else - 1)
      else 0)"

section \<open>The state\<close>

type_synonym lock_node = "nat \<times> filelock"

record lock_state =
  ls_type :: nat
  held_locks :: "lock_node list"
  next_node :: nat
  waiting_locks :: "filelock list"
  client_held_lock_counts :: "nat \<Rightarrow> int option"
  client_waiting_lock_counts :: "nat \<Rightarrow> int option"

text \<open>The lock states by their address, and the waiting locks of all of them with the address of the state.\<close>

record lock_world =
  lw_state :: "nat \<Rightarrow> lock_state"
  global_waiting_locks :: "(filelock \<times> nat) list"

definition new_lock_state :: "nat \<Rightarrow> lock_state" where
  "new_lock_state ty = \<lparr>ls_type = ty, held_locks = [], next_node = 0, waiting_locks = [],
     client_held_lock_counts = (\<lambda>_. None), client_waiting_lock_counts = (\<lambda>_. None)\<rparr>"

definition set_state :: "nat \<Rightarrow> lock_state \<Rightarrow> lock_world \<Rightarrow> lock_world" where
  "set_state p st w = w\<lparr>lw_state := (lw_state w)(p := st)\<rparr>"

text \<open>\<^verbatim>\<open>operator[]\<close> of a map of counters and what the code does with it.\<close>

definition counter_get :: "(nat \<Rightarrow> int option) \<Rightarrow> nat \<Rightarrow> int" where
  "counter_get m c = (case m c of None \<Rightarrow> 0 | Some n \<Rightarrow> n)"

definition counter_inc :: "nat \<Rightarrow> (nat \<Rightarrow> int option) \<Rightarrow> nat \<Rightarrow> int option" where
  "counter_inc c m = m(c \<mapsto> counter_get m c + 1)"

definition counter_dec :: "nat \<Rightarrow> (nat \<Rightarrow> int option) \<Rightarrow> nat \<Rightarrow> int option" where
  "counter_dec c m = m(c \<mapsto> counter_get m c - 1)"

definition counter_drop :: "nat \<Rightarrow> (nat \<Rightarrow> int option) \<Rightarrow> nat \<Rightarrow> int option" where
  "counter_drop c m = (if counter_get m c = 0 then m(c := None) else m)"

text \<open>Insertion into a multimap goes after the entries with the same key.\<close>

definition held_insert :: "filelock \<Rightarrow> lock_state \<Rightarrow> lock_state" where
  "held_insert l st =
     st\<lparr>held_locks := takeWhile (\<lambda>n. fl_start (snd n) \<le> fl_start l) (held_locks st)
          @ (next_node st, l) # dropWhile (\<lambda>n. fl_start (snd n) \<le> fl_start l) (held_locks st),
        next_node := Suc (next_node st)\<rparr>"

definition held_erase :: "nat \<Rightarrow> lock_state \<Rightarrow> lock_state" where
  "held_erase i st = st\<lparr>held_locks := filter (\<lambda>n. fst n \<noteq> i) (held_locks st)\<rparr>"

definition held_set_length :: "nat \<Rightarrow> nat \<Rightarrow> lock_state \<Rightarrow> lock_state" where
  "held_set_length i len st =
     st\<lparr>held_locks := map (\<lambda>n. if fst n = i then (i, (snd n)\<lparr>fl_length := len\<rparr>) else n) (held_locks st)\<rparr>"

definition held_count_inc :: "nat \<Rightarrow> lock_state \<Rightarrow> lock_state" where
  "held_count_inc c st = st\<lparr>client_held_lock_counts := counter_inc c (client_held_lock_counts st)\<rparr>"

definition held_count_dec :: "nat \<Rightarrow> lock_state \<Rightarrow> lock_state" where
  "held_count_dec c st = st\<lparr>client_held_lock_counts := counter_dec c (client_held_lock_counts st)\<rparr>"

definition held_count_drop :: "nat \<Rightarrow> lock_state \<Rightarrow> lock_state" where
  "held_count_drop c st = st\<lparr>client_held_lock_counts := counter_drop c (client_held_lock_counts st)\<rparr>"

section \<open>Waiting locks\<close>

fun rgw_loop :: "filelock \<Rightarrow> nat \<Rightarrow> (filelock \<times> nat) list \<Rightarrow> (filelock \<times> nat) list" where
  "rgw_loop fl p [] = []"
| "rgw_loop fl p (e # es) =
     (if filelock_compare (fst e) fl \<noteq> 0 then e # es
      else if snd e = p then es
      else e # rgw_loop fl p es)"

definition remove_global_waiting :: "filelock \<Rightarrow> nat \<Rightarrow> lock_world \<Rightarrow> lock_world" where
  "remove_global_waiting fl p w =
     w\<lparr>global_waiting_locks :=
        takeWhile (\<lambda>e. filelock_compare (fst e) fl < 0) (global_waiting_locks w)
        @ rgw_loop fl p (dropWhile (\<lambda>e. filelock_compare (fst e) fl < 0) (global_waiting_locks w))\<rparr>"

definition lock_state_destroy :: "nat \<Rightarrow> lock_world \<Rightarrow> lock_world" where
  "lock_state_destroy p w =
     (if ls_type (lw_state w p) = CEPH_LOCK_FCNTL
      then fold (\<lambda>l. remove_global_waiting l p) (waiting_locks (lw_state w p)) w else w)"

text \<open>
  The scan of \<^verbatim>\<open>is_waiting\<close> and \<^verbatim>\<open>remove_waiting\<close> from the first lock with the start: the locks before
  the one found, this one and those after it.
\<close>

fun waiting_scan :: "filelock \<Rightarrow> filelock list \<Rightarrow> filelock list \<Rightarrow> (filelock list \<times> filelock \<times> filelock list) option" where
  "waiting_scan fl a [] = None"
| "waiting_scan fl a (x # xs) =
     (if fl_start x > fl_start fl then None
      else if fl_length x = fl_length fl \<and> filelock_owner_equal x fl then Some (a, x, xs)
      else waiting_scan fl (a @ [x]) xs)"

definition waiting_find :: "filelock \<Rightarrow> filelock list \<Rightarrow> (filelock list \<times> filelock \<times> filelock list) option" where
  "waiting_find fl ws =
     (case dropWhile (\<lambda>x. fl_start x < fl_start fl) ws of
        [] \<Rightarrow> None
      | x # xs \<Rightarrow> if fl_start x \<noteq> fl_start fl then None
          else waiting_scan fl (takeWhile (\<lambda>x. fl_start x < fl_start fl) ws) (x # xs))"

definition is_waiting :: "filelock \<Rightarrow> lock_state \<Rightarrow> bool" where
  "is_waiting fl st = (waiting_find fl (waiting_locks st) \<noteq> None)"

definition remove_waiting :: "nat \<Rightarrow> filelock \<Rightarrow> lock_world \<Rightarrow> lock_world" where
  "remove_waiting p fl w =
     (let st = lw_state w p in
      case waiting_find fl (waiting_locks st) of
        None \<Rightarrow> w
      | Some (a, x, b) \<Rightarrow>
          let w1 = (if ls_type st = CEPH_LOCK_FCNTL then remove_global_waiting x p w else w)
          in set_state p (st\<lparr>waiting_locks := a @ b,
               client_waiting_lock_counts :=
                 counter_drop (fl_client fl) (counter_dec (fl_client fl) (client_waiting_lock_counts st))\<rparr>) w1)"

definition add_waiting :: "nat \<Rightarrow> filelock \<Rightarrow> lock_world \<Rightarrow> lock_world" where
  "add_waiting p fl w =
     (let st = lw_state w p;
          ws = waiting_locks st;
          st1 = st\<lparr>waiting_locks := takeWhile (\<lambda>x. fl_start x \<le> fl_start fl) ws @ fl # dropWhile (\<lambda>x. fl_start x \<le> fl_start fl) ws,
                   client_waiting_lock_counts := counter_inc (fl_client fl) (client_waiting_lock_counts st)\<rparr>;
          w1 = set_state p st1 w;
          g = global_waiting_locks w
      in if ls_type st = CEPH_LOCK_FCNTL
         then w1\<lparr>global_waiting_locks := takeWhile (\<lambda>e. filelock_compare (fst e) fl \<le> 0) g
                @ (fl, p) # dropWhile (\<lambda>e. filelock_compare (fst e) fl \<le> 0) g\<rparr>
         else w1)"

section \<open>Searching the held locks\<close>

text \<open>
  The entries from the iterator that \<^verbatim>\<open>get_last_before\<close> returns down to the first: with no entry
  up to \<open>e\<close> it stays at the first.
\<close>

definition get_last_before :: "nat \<Rightarrow> lock_node list \<Rightarrow> lock_node list" where
  "get_last_before e ls =
     (let before = takeWhile (\<lambda>n. fl_start (snd n) \<le> e) ls
      in if before \<noteq> [] then rev before else take 1 ls)"

definition share_space_range :: "filelock \<Rightarrow> nat \<Rightarrow> nat \<Rightarrow> bool" where
  "share_space_range it s e =
     ((fl_start it \<ge> s \<and> fl_start it \<le> e)
      \<or> (fl_start it < s \<and> (wsub (wadd (fl_start it) (fl_length it)) 1 \<ge> s \<or> fl_length it = 0)))"

definition share_space :: "filelock \<Rightarrow> filelock \<Rightarrow> bool" where
  "share_space it l =
     share_space_range it (fl_start l)
       (if fl_length l \<noteq> 0 then wadd (fl_start l) (wsub (fl_length l) 1) else UINT64_MAX)"

definition neighbor_check_lock :: "filelock \<Rightarrow> filelock" where
  "neighbor_check_lock l =
     (if fl_start l \<noteq> 0
      then (let l1 = l\<lparr>fl_start := fl_start l - 1\<rparr>
            in if fl_length l1 \<noteq> 0 then l1\<lparr>fl_length := wadd (fl_length l1) 2\<rparr> else l1)
      else (if fl_length l \<noteq> 0 then l\<lparr>fl_length := wadd (fl_length l) 1\<rparr> else l))"

text \<open>The loop down the held locks; the results are built by \<^verbatim>\<open>push_front\<close>.\<close>

fun overlap_loop :: "filelock \<Rightarrow> bool \<Rightarrow> lock_node list \<Rightarrow> lock_node list \<Rightarrow> lock_node list \<Rightarrow> lock_node list \<times> lock_node list" where
  "overlap_loop l want [] ov nb = (ov, nb)"
| "overlap_loop l want (it # rest) ov nb =
     (let r = (if share_space (snd it) l then (it # ov, nb)
               else if want \<and> filelock_owner_equal (neighbor_check_lock l) (snd it)
                       \<and> share_space (snd it) (neighbor_check_lock l)
               then (ov, it # nb) else (ov, nb))
      in if fl_start (snd it) < fl_start l \<and> fl_type (snd it) = CEPH_LOCK_EXCL then r
         else overlap_loop l want rest (fst r) (snd r))"

definition get_overlapping_locks :: "filelock \<Rightarrow> bool \<Rightarrow> lock_state \<Rightarrow> lock_node list \<times> lock_node list" where
  "get_overlapping_locks l want st =
     (let endpoint = (if fl_length l \<noteq> 0 then wadd (fl_start l) (fl_length l) else UINT64_MAX)
      in overlap_loop l want (get_last_before endpoint (held_locks st)) [] [])"

text \<open>\<^verbatim>\<open>split_by_owner\<close>: the locks of others and those of the owner, both in order.\<close>

definition split_by_owner :: "filelock \<Rightarrow> lock_node list \<Rightarrow> lock_node list \<times> lock_node list" where
  "split_by_owner ow ls = (filter (\<lambda>n. \<not> filelock_owner_equal (snd n) ow) ls,
     filter (\<lambda>n. filelock_owner_equal (snd n) ow) ls)"

definition contains_exclusive_lock :: "lock_node list \<Rightarrow> lock_node option" where
  "contains_exclusive_lock ls = find (\<lambda>n. fl_type (snd n) = CEPH_LOCK_EXCL) ls"

section \<open>Deadlock detection\<close>

definition MAX_DEADLK_DEPTH :: nat where "MAX_DEADLK_DEPTH = 5"

text \<open>The first loop: the conflicting locks, of which one may close the circle, and the set of their owners.\<close>

definition deadlock_conflicts :: "filelock \<Rightarrow> lock_node list \<Rightarrow> filelock list" where
  "deadlock_conflicts fl ov =
     map snd (filter (\<lambda>n. \<not> (fl_type fl = CEPH_LOCK_SHARED \<and> fl_type (snd n) = CEPH_LOCK_SHARED)) ov)"

definition owner_key :: "filelock \<Rightarrow> filelock" where
  "owner_key l = l\<lparr>fl_start := 0, fl_length := 0, fl_type := 0\<rparr>"

definition owner_set_insert :: "filelock \<Rightarrow> filelock list \<Rightarrow> filelock list" where
  "owner_set_insert l os =
     (let a = takeWhile (\<lambda>x. filelock_compare x l < 0) os; b = dropWhile (\<lambda>x. filelock_compare x l < 0) os
      in if b \<noteq> [] \<and> filelock_compare (hd b) l = 0 then os else a @ l # b)"

definition lock_owners :: "filelock list \<Rightarrow> filelock list" where
  "lock_owners cs = fold (\<lambda>l. owner_set_insert (owner_key l)) cs []"

text \<open>The waiting locks of an owner, from \<^verbatim>\<open>lower_bound\<close> as long as the owner is the same.\<close>

definition owner_waits :: "filelock \<Rightarrow> (filelock \<times> nat) list \<Rightarrow> (filelock \<times> nat) list" where
  "owner_waits ow g =
     takeWhile (\<lambda>e. filelock_owner_equal (fst e) ow) (dropWhile (\<lambda>e. filelock_compare (fst e) ow < 0) g)"

definition others_overlapping :: "filelock \<Rightarrow> lock_state \<Rightarrow> lock_node list" where
  "others_overlapping fl st = fst (split_by_owner fl (fst (get_overlapping_locks fl False st)))"

text \<open>
  \<^verbatim>\<open>is_deadlock\<close>: the first argument is the number of levels that are left, \<open>MAX_DEADLK_DEPTH - depth\<close>.
\<close>

primrec is_deadlock_at :: "nat \<Rightarrow> lock_world \<Rightarrow> nat \<Rightarrow> filelock \<Rightarrow> lock_node list \<Rightarrow> filelock option \<Rightarrow> bool" where
  "is_deadlock_at 0 w ty fl ov first =
     (ty = CEPH_LOCK_FCNTL
      \<and> (case first of None \<Rightarrow> False | Some f \<Rightarrow> list_ex (filelock_owner_equal f) (deadlock_conflicts fl ov)))"
| "is_deadlock_at (Suc n) w ty fl ov first =
     (ty = CEPH_LOCK_FCNTL
      \<and> ((case first of None \<Rightarrow> False | Some f \<Rightarrow> list_ex (filelock_owner_equal f) (deadlock_conflicts fl ov))
         \<or> list_ex (\<lambda>ow. list_ex (\<lambda>q.
               let ov' = others_overlapping (fst q) (lw_state w (snd q)) in
               ov' \<noteq> [] \<and> is_deadlock_at n w ty (fst q) ov' (Some (case first of None \<Rightarrow> fl | Some f \<Rightarrow> f)))
             (owner_waits ow (global_waiting_locks w)))
           (lock_owners (deadlock_conflicts fl ov))))"

definition is_deadlock :: "nat \<Rightarrow> filelock \<Rightarrow> lock_node list \<Rightarrow> lock_world \<Rightarrow> bool" where
  "is_deadlock p fl ov w = is_deadlock_at MAX_DEADLK_DEPTH w (ls_type (lw_state w p)) fl ov None"

section \<open>Changing the held locks\<close>

text \<open>One round of the first loop of \<^verbatim>\<open>adjust_locks\<close>; \<open>to_end\<close> is \<^verbatim>\<open>new_lock_to_end\<close>.\<close>

definition adjust_old :: "bool \<Rightarrow> lock_state \<times> filelock \<Rightarrow> lock_node \<Rightarrow> lock_state \<times> filelock" where
  "adjust_old to_end s it =
     (let st = fst s; nl = snd s; i = fst it; old = snd it;
          old_to_end = (fl_length old = 0);
          old_start = fl_start old;
          old_end = wsub (wadd old_start (fl_length old)) 1;
          new_start = fl_start nl;
          new_end = wsub (wadd new_start (fl_length nl)) 1;
          cl = fl_client old;
          erase = (\<lambda>st. held_count_dec cl (held_erase i st));
          cut = (\<lambda>st. if old_start < new_start then held_set_length i (wsub new_start old_start) st else erase st);
          extra = (\<lambda>l st. held_count_inc cl (held_insert l st));
          r = (if to_end \<or> old_to_end
               then if fl_type old = fl_type nl
                    then (erase st, nl\<lparr>fl_start := if new_start < old_start then new_start else old_start, fl_length := 0\<rparr>)
                    else if to_end then (cut st, nl)
                    else (cut (extra (old\<lparr>fl_start := wadd new_end 1\<rparr>) st), nl)
               else if fl_type old = fl_type nl
                    then let s' = (if old_start < new_start then old_start else new_start);
                             ne = through_int (if new_end > old_end then new_end else old_end)
                         in (erase st, nl\<lparr>fl_start := s', fl_length := wadd (wsub ne s') 1\<rparr>)
                    else let st1 = (if old_end > new_end
                                    then extra (old\<lparr>fl_start := wadd new_end 1,
                                           fl_length := wadd (wsub old_end (wadd new_end 1)) 1\<rparr>) st
                                    else st)
                         in (cut st1, nl))
      in (held_count_drop cl (fst r), snd r))"

text \<open>One round of the loop over the neighbours, which aborts on a neighbour on the wrong side.\<close>

definition adjust_neighbor :: "lock_state \<times> filelock \<Rightarrow> lock_node \<Rightarrow> (lock_state \<times> filelock) option" where
  "adjust_neighbor s it =
     (let st = fst s; nl = snd s; i = fst it; old = snd it; cl = fl_client old in
      if fl_type old = fl_type nl
      then do {
        nl' \<leftarrow> (if fl_length nl = 0
                then (if wadd (fl_start old) (fl_length old) = fl_start nl then Some (nl\<lparr>fl_start := fl_start old\<rparr>) else None)
                else if fl_length old = 0
                then (if wadd (fl_start nl) (fl_length nl) = fl_start old then Some (nl\<lparr>fl_length := 0\<rparr>) else None)
                else if wadd (fl_start old) (fl_length old) = fl_start nl
                then Some (nl\<lparr>fl_start := fl_start old, fl_length := wadd (fl_length old) (fl_length nl)\<rparr>)
                else if wadd (fl_start nl) (fl_length nl) = fl_start old
                then Some (nl\<lparr>fl_length := wadd (fl_length old) (fl_length nl)\<rparr>)
                else Some nl);
        Some (held_count_drop cl (held_count_dec cl (held_erase i st)), nl')
      }
      else Some (held_count_drop cl st, nl))"

definition adjust_locks :: "lock_node list \<Rightarrow> filelock \<Rightarrow> lock_node list \<Rightarrow> lock_state \<Rightarrow> (lock_state \<times> filelock) option" where
  "adjust_locks olds nl nbs st =
     fold_opt adjust_neighbor (fold (\<lambda>it s. adjust_old (fl_length nl = 0) s it) olds (st, nl)) nbs"

text \<open>
  \<^verbatim>\<open>add_lock\<close> on the state at \<open>p\<close>: whether the lock was set, whether there is a deadlock, the lock
  as it was set, and the states.
\<close>

definition block_lock :: "nat \<Rightarrow> filelock \<Rightarrow> lock_node list \<Rightarrow> bool \<Rightarrow> bool \<Rightarrow> lock_world \<Rightarrow> bool \<times> lock_world" where
  "block_lock p nl ov wait_on_fail replay w =
     (if wait_on_fail \<and> \<not> replay
      then if is_deadlock p nl ov w then (True, w) else (False, add_waiting p nl w)
      else (False, w))"

definition insert_lock :: "nat \<Rightarrow> filelock \<Rightarrow> lock_node list \<Rightarrow> lock_node list \<Rightarrow> lock_world \<Rightarrow> (filelock \<times> lock_world) option" where
  "insert_lock p nl self nbs w =
     (let w1 = remove_waiting p nl w in do {
        s \<leftarrow> adjust_locks self nl nbs (lw_state w1 p);
        Some (snd s, set_state p (held_count_inc (fl_client (snd s)) (held_insert (snd s) (fst s))) w1)
      })"

definition add_lock :: "nat \<Rightarrow> filelock \<Rightarrow> bool \<Rightarrow> bool \<Rightarrow> lock_world \<Rightarrow> (bool \<times> bool \<times> filelock \<times> lock_world) option" where
  "add_lock p nl wait_on_fail replay w =
     (let r = get_overlapping_locks nl True (lw_state w p);
          os = split_by_owner nl (fst r);
          ov = fst os; self = snd os; nbs = snd r
      in if ov \<noteq> [] \<and> (fl_type nl = CEPH_LOCK_EXCL \<or> contains_exclusive_lock ov \<noteq> None)
         then let b = block_lock p nl ov wait_on_fail replay w in Some (False, fst b, nl, snd b)
         else do {
           s \<leftarrow> insert_lock p nl self nbs w;
           Some (True, False, fst s, snd s)
         })"

definition look_for_lock :: "filelock \<Rightarrow> lock_state \<Rightarrow> filelock" where
  "look_for_lock testing st =
     (let ov = others_overlapping testing st in
      if ov \<noteq> []
      then if fl_type testing = CEPH_LOCK_EXCL then snd (hd ov)
           else case contains_exclusive_lock ov of
             Some b \<Rightarrow> snd b
           | None \<Rightarrow> testing\<lparr>fl_type := CEPH_LOCK_UNLOCK\<rparr>
      else testing\<lparr>fl_type := CEPH_LOCK_UNLOCK\<rparr>)"

text \<open>One round of the loop of \<^verbatim>\<open>remove_lock\<close>.\<close>

definition remove_one :: "filelock \<Rightarrow> lock_state \<Rightarrow> lock_node \<Rightarrow> lock_state" where
  "remove_one rl st it =
     (let i = fst it; old = snd it;
          removal_start = fl_start rl;
          removal_end = wsub (wadd removal_start (fl_length rl)) 1;
          old_end = wsub (wadd (fl_start old) (fl_length old)) 1;
          cl = fl_client old;
          erase = (\<lambda>st. held_count_dec cl (held_erase i st));
          cut = (\<lambda>st. if fl_start old < removal_start then held_set_length i (wsub removal_start (fl_start old)) st else erase st);
          extra = (\<lambda>l st. held_count_inc cl (held_insert l st));
          st1 = (if fl_length rl = 0 then cut st
                 else if fl_length old = 0
                 then cut (extra (old\<lparr>fl_start := wadd removal_end 1\<rparr>) st)
                 else cut (if old_end > removal_end
                           then extra (old\<lparr>fl_start := wadd removal_end 1,
                                  fl_length := wadd (wsub old_end (wadd removal_end 1)) 1\<rparr>) st
                           else st))
      in held_count_drop cl st1)"

definition remove_lock :: "filelock \<Rightarrow> lock_state \<Rightarrow> lock_state" where
  "remove_lock rl st =
     (let self = snd (split_by_owner rl (fst (get_overlapping_locks rl False st)))
      in fold (\<lambda>it st. remove_one rl st it) self st)"

definition remove_all_from :: "nat \<Rightarrow> nat \<Rightarrow> lock_world \<Rightarrow> bool \<times> lock_world" where
  "remove_all_from p client w =
     (let st = lw_state w p;
          cleared = (client_held_lock_counts st client \<noteq> None);
          st1 = (if cleared
                 then st\<lparr>held_locks := filter (\<lambda>n. fl_client (snd n) \<noteq> client) (held_locks st),
                         client_held_lock_counts := (client_held_lock_counts st)(client := None)\<rparr>
                 else st);
          w1 = set_state p st1 w
      in (cleared,
          if client_waiting_lock_counts st1 client \<noteq> None
          then let w2 = (if ls_type st1 = CEPH_LOCK_FCNTL
                         then fold (\<lambda>l. remove_global_waiting l p) (filter (\<lambda>l. fl_client l = client) (waiting_locks st1)) w1
                         else w1)
               in set_state p (st1\<lparr>waiting_locks := filter (\<lambda>l. fl_client l \<noteq> client) (waiting_locks st1),
                    client_waiting_lock_counts := (client_waiting_lock_counts st1)(client := None)\<rparr>) w2
          else w1))"

section \<open>The requests\<close>

text \<open>
  \<^verbatim>\<open>Server::handle_client_file_setlock\<close> and \<^verbatim>\<open>handle_client_file_readlock\<close>, once the inode is
  found and its \<^verbatim>\<open>flocklock\<close> is taken. The lock states of the inode are at \<open>ino_flock\<close> and
  \<open>ino_fcntl\<close>. The outcome is the reply, if one is sent, whether the request waits to be retried,
  whether the waiting requests of the inode are queued again, and the states.
\<close>

record setlock_result =
  sr_reply :: "int option"
  sr_was_waiting :: bool
  sr_added_waiter :: bool
  sr_queued_waiters :: bool
  sr_world :: lock_world

definition EINTR :: int where "EINTR = 4"
definition EWOULDBLOCK :: int where "EWOULDBLOCK = 11"
definition EDEADLK :: int where "EDEADLK = 35"
definition EOPNOTSUPP :: int where "EOPNOTSUPP = 95"
definition EINVAL_reply :: int where "EINVAL_reply = 22"

definition setlock_state :: "nat \<Rightarrow> nat \<Rightarrow> nat \<Rightarrow> (nat \<times> bool) option" where
  "setlock_state ino_flock ino_fcntl rule =
     (if rule = CEPH_LOCK_FLOCK_INTR then Some (ino_flock, True)
      else if rule = CEPH_LOCK_FLOCK then Some (ino_flock, False)
      else if rule = CEPH_LOCK_FCNTL_INTR then Some (ino_fcntl, True)
      else if rule = CEPH_LOCK_FCNTL then Some (ino_fcntl, False)
      else None)"

definition handle_client_file_setlock ::
  "nat \<Rightarrow> nat \<Rightarrow> nat \<Rightarrow> filelock \<Rightarrow> bool \<Rightarrow> bool \<Rightarrow> lock_world \<Rightarrow> setlock_result option" where
  "handle_client_file_setlock ino_flock ino_fcntl rule set_lock will_wait was_waiting w =
     (let res = (\<lambda>r ww add q w'. \<lparr>sr_reply = r, sr_was_waiting = ww, sr_added_waiter = add,
                   sr_queued_waiters = q, sr_world = w'\<rparr>) in
      case setlock_state ino_flock ino_fcntl rule of
        None \<Rightarrow> Some (res (Some (- EOPNOTSUPP)) was_waiting False False w)
      | Some (p, interrupt) \<Rightarrow>
          if fl_type set_lock = CEPH_LOCK_UNLOCK
          then if is_waiting set_lock (lw_state w p)
               then Some (res (Some 0) was_waiting False True (remove_waiting p set_lock w))
               else if \<not> interrupt
               then Some (res (Some 0) was_waiting False True (set_state p (remove_lock set_lock (lw_state w p)) w))
               else Some (res (Some 0) was_waiting False False w)
          else if was_waiting \<and> \<not> is_waiting set_lock (lw_state w p)
          then Some (res (Some (- EINTR)) was_waiting False False w)
          else do {
            (added, deadlock, set_lock', w') \<leftarrow> add_lock p set_lock will_wait was_waiting w;
            if added then Some (res (Some 0) was_waiting False False w')
            else if deadlock then Some (res (Some (- EDEADLK)) was_waiting False False w')
            else if \<not> will_wait then Some (res (Some (- EWOULDBLOCK)) was_waiting False False w')
            else do {
              check (is_waiting set_lock' (lw_state w' p));
              Some (res None True True False w')
            }
          })"

definition handle_client_file_readlock ::
  "nat \<Rightarrow> nat \<Rightarrow> nat \<Rightarrow> filelock \<Rightarrow> lock_world \<Rightarrow> int + filelock" where
  "handle_client_file_readlock ino_flock ino_fcntl rule checking_lock w =
     (if rule = CEPH_LOCK_FLOCK then Inr (look_for_lock checking_lock (lw_state w ino_flock))
      else if rule = CEPH_LOCK_FCNTL then Inr (look_for_lock checking_lock (lw_state w ino_fcntl))
      else Inl (- EINVAL_reply))"

end
