(* ===== verification/FlockInv.thy ===== *)
theory FlockInv
  imports Flock
begin

text \<open>
  The meaning of a set of held locks as the bytes each owner holds, the invariant of a lock state,
  that the search for overlapping locks is exact under it, and how the elementary changes of the
  held locks keep it.
\<close>

section \<open>Owners and bytes\<close>

lemma owner_equal_refl [simp]: "filelock_owner_equal l l"
  by (simp add: filelock_owner_equal_def)

lemma owner_equal_sym: "filelock_owner_equal l r \<longleftrightarrow> filelock_owner_equal r l"
  by (auto simp: filelock_owner_equal_def)

lemma owner_equal_trans: "filelock_owner_equal a b \<Longrightarrow> filelock_owner_equal b c \<Longrightarrow> filelock_owner_equal a c"
  by (auto simp: filelock_owner_equal_def split: if_splits)

lemma owner_equal_upd [simp]:
  "filelock_owner_equal (l\<lparr>fl_start := s\<rparr>) r = filelock_owner_equal l r"
  "filelock_owner_equal (l\<lparr>fl_length := n\<rparr>) r = filelock_owner_equal l r"
  "filelock_owner_equal l (r\<lparr>fl_start := s\<rparr>) = filelock_owner_equal l r"
  "filelock_owner_equal l (r\<lparr>fl_length := n\<rparr>) = filelock_owner_equal l r"
  by (simp_all add: filelock_owner_equal_def)

definition cover :: "filelock \<Rightarrow> nat set" where
  "cover l = {b. fl_start l \<le> b \<and> (fl_length l = 0 \<or> b < fl_start l + fl_length l)}"

text \<open>The offsets of a file are below \<open>2 ^ 63\<close>.\<close>

definition range_ok :: "filelock \<Rightarrow> bool" where
  "range_ok l \<longleftrightarrow> fl_start l < 2 ^ 63 \<and> (fl_length l \<noteq> 0 \<longrightarrow> fl_start l + fl_length l < 2 ^ 63)"

definition lock_ok :: "filelock \<Rightarrow> bool" where
  "lock_ok l \<longleftrightarrow> range_ok l \<and> (fl_type l = CEPH_LOCK_SHARED \<or> fl_type l = CEPH_LOCK_EXCL)"

lemma lock_ok_range [simp]: "lock_ok l \<Longrightarrow> range_ok l"
  by (simp add: lock_ok_def)

lemma start_in_cover [simp]: "fl_start l \<in> cover l"
  by (auto simp: cover_def)

text \<open>Two locks may be held together.\<close>

definition co_held :: "filelock \<Rightarrow> filelock \<Rightarrow> bool" where
  "co_held m n \<longleftrightarrow> cover m \<inter> cover n = {}
     \<or> \<not> filelock_owner_equal m n \<and> fl_type m = CEPH_LOCK_SHARED \<and> fl_type n = CEPH_LOCK_SHARED"

lemma co_held_sym: "co_held m n \<longleftrightarrow> co_held n m"
  by (auto simp: co_held_def owner_equal_sym)

lemma wadd_small: "a + b < 2 ^ 64 \<Longrightarrow> wadd a b = a + b"
  by (simp add: wadd_def)

lemma wsub_small:
  assumes "b \<le> a" "a < 2 ^ 64"
  shows "wsub a b = a - b"
proof -
  have "a + (2 ^ 64 - b mod 2 ^ 64) = (a - b) + 2 ^ 64" using assms by simp
  then have "wsub a b = (a - b) mod 2 ^ 64" unfolding wsub_def by (simp only: mod_add_self2)
  then show ?thesis using assms by simp
qed

lemma wend_small: "range_ok l \<Longrightarrow> fl_length l \<noteq> 0 \<Longrightarrow>
   wsub (wadd (fl_start l) (fl_length l)) 1 = fl_start l + fl_length l - 1"
  by (simp add: range_ok_def wadd_small wsub_small)

lemma wend_next: "range_ok l \<Longrightarrow> fl_length l \<noteq> 0 \<Longrightarrow>
   wadd (wsub (wadd (fl_start l) (fl_length l)) 1) 1 = fl_start l + fl_length l"
  by (simp add: range_ok_def wadd_small wsub_small)

lemma cover_meets:
  "cover it \<inter> {s..e} \<noteq> {} \<longleftrightarrow>
     fl_start it \<le> e \<and> s \<le> e \<and> (fl_length it = 0 \<or> s < fl_start it + fl_length it)"
proof
  assume "fl_start it \<le> e \<and> s \<le> e \<and> (fl_length it = 0 \<or> s < fl_start it + fl_length it)"
  then have "max (fl_start it) s \<in> cover it \<inter> {s..e}" by (auto simp: cover_def)
  then show "cover it \<inter> {s..e} \<noteq> {}" by blast
qed (auto simp: cover_def)

lemma share_space_range_iff:
  assumes "range_ok it" "s \<le> e"
  shows "share_space_range it s e \<longleftrightarrow> cover it \<inter> {s..e} \<noteq> {}"
  using assms wend_small [OF assms(1)] unfolding cover_meets share_space_range_def
  by (cases "fl_length it = 0") auto

lemma share_space_iff:
  assumes "range_ok it" "range_ok l"
  shows "share_space it l \<longleftrightarrow> cover it \<inter> cover l \<noteq> {}"
proof (cases "fl_length l = 0")
  case True
  have "cover it \<inter> {fl_start l..UINT64_MAX} \<noteq> {} \<longleftrightarrow> cover it \<inter> cover l \<noteq> {}"
  proof
    assume "cover it \<inter> cover l \<noteq> {}"
    then have "max (fl_start it) (fl_start l) \<in> cover it" using True by (auto simp: cover_def)
    moreover have "max (fl_start it) (fl_start l) \<le> UINT64_MAX"
      using assms by (auto simp: range_ok_def UINT64_MAX_def)
    ultimately have "max (fl_start it) (fl_start l) \<in> cover it \<inter> {fl_start l..UINT64_MAX}" by simp
    then show "cover it \<inter> {fl_start l..UINT64_MAX} \<noteq> {}" by blast
  qed (use True in \<open>auto simp: cover_def\<close>)
  moreover have "fl_start l \<le> UINT64_MAX" using assms(2) by (auto simp: range_ok_def UINT64_MAX_def)
  ultimately show ?thesis
    using True share_space_range_iff [OF assms(1), of "fl_start l" UINT64_MAX] by (simp add: share_space_def)
next
  case False
  have e: "wadd (fl_start l) (wsub (fl_length l) 1) = fl_start l + fl_length l - 1"
    using False assms(2) wsub_small [of 1 "fl_length l"] wadd_small [of "fl_start l" "fl_length l - 1"]
    by (auto simp: range_ok_def)
  have "cover l = {fl_start l..fl_start l + fl_length l - 1}" using False by (auto simp: cover_def)
  then show ?thesis
    using False share_space_range_iff [OF assms(1), of "fl_start l" "fl_start l + fl_length l - 1"]
    by (auto simp: share_space_def e [unfolded One_nat_def])
qed

text \<open>The bytes of a lock and one on either side of it.\<close>

definition cover_ext :: "filelock \<Rightarrow> nat set" where
  "cover_ext l = {b. fl_start l \<le> Suc b \<and> (fl_length l = 0 \<or> b \<le> fl_start l + fl_length l)}"

lemma share_neighbor_iff:
  assumes "range_ok it" "range_ok l"
  shows "share_space it (neighbor_check_lock l) \<longleftrightarrow> cover it \<inter> cover_ext l \<noteq> {}"
proof (cases "fl_length l = 0")
  case True
  then have "range_ok (neighbor_check_lock l)" "cover (neighbor_check_lock l) = cover_ext l"
    using assms(2) by (auto simp: neighbor_check_lock_def range_ok_def cover_def cover_ext_def)
  then show ?thesis using share_space_iff [OF assms(1)] by simp
next
  case False
  have "cover_ext l = {fl_start l - 1..fl_start l + fl_length l}" using False by (auto simp: cover_ext_def)
  moreover have "share_space it (neighbor_check_lock l) =
      share_space_range it (fl_start l - 1) (fl_start l + fl_length l)"
  proof (cases "fl_start l = 0")
    case True
    then have "wadd (fl_length l) 1 = fl_length l + 1" "wsub (fl_length l + 1) 1 = fl_length l"
      "wadd 0 (fl_length l) = fl_length l"
      using False assms(2) by (simp_all add: range_ok_def wadd_small wsub_small)
    then show ?thesis using True False by (simp add: share_space_def neighbor_check_lock_def)
  next
    case pos: False
    then have "wadd (fl_length l) 2 = fl_length l + 2" "wsub (fl_length l + 2) 1 = fl_length l + 1"
      "wadd (fl_start l - 1) (fl_length l + 1) = fl_start l + fl_length l"
      using False assms(2) by (simp_all add: range_ok_def wadd_small wsub_small)
    then show ?thesis using pos False by (simp add: share_space_def neighbor_check_lock_def)
  qed
  ultimately show ?thesis using share_space_range_iff [OF assms(1)] by simp
qed

section \<open>The invariant\<close>

definition held_wf :: "lock_node list \<Rightarrow> bool" where
  "held_wf ns \<longleftrightarrow> sorted (map (\<lambda>n. fl_start (snd n)) ns) \<and> distinct (map fst ns)
     \<and> (\<forall>n \<in> set ns. lock_ok (snd n))
     \<and> (\<forall>m \<in> set ns. \<forall>n \<in> set ns. fst m \<noteq> fst n \<longrightarrow> co_held (snd m) (snd n))"

lemma held_wf_nodes:
  assumes "held_wf ns"
  shows "sorted (map (\<lambda>n. fl_start (snd n)) ns)" "distinct (map fst ns)"
    and "\<And>n. n \<in> set ns \<Longrightarrow> lock_ok (snd n)"
    and "\<And>m n. m \<in> set ns \<Longrightarrow> n \<in> set ns \<Longrightarrow> fst m \<noteq> fst n \<Longrightarrow> co_held (snd m) (snd n)"
  using assms by (simp_all add: held_wf_def)

lemma held_wf_prefix: "held_wf (as @ bs) \<Longrightarrow> held_wf as"
  unfolding held_wf_def map_append sorted_append distinct_append set_append by blast

text \<open>An entry before another that starts where it still covers conflicts with an exclusive lock there.\<close>

lemma held_wf_blocked:
  assumes "held_wf (ms @ [x])" "m \<in> set ms" "fl_type (snd x) = CEPH_LOCK_EXCL"
    and "b \<in> cover (snd m)" "fl_start (snd x) \<le> b"
  shows False
proof -
  have ne: "fst m \<noteq> fst x"
    using held_wf_nodes(2) [OF assms(1)] assms(2) by (simp add: image_iff) metis
  have le: "fl_start (snd m) \<le> fl_start (snd x)"
    using held_wf_nodes(1) [OF assms(1)] assms(2) by (simp add: sorted_append)
  have "co_held (snd m) (snd x)" using held_wf_nodes(4) [OF assms(1), of m x] ne assms(2) by simp
  moreover have "fl_start (snd x) \<in> cover (snd m)"
    using assms(4,5) le by (auto simp: cover_def)
  ultimately show False using assms(3) start_in_cover [of "snd x"]
    by (auto simp: co_held_def lock_consts)
qed

lemma overlap_loop_exact:
  assumes "held_wf ns" "range_ok l"
  shows "overlap_loop l want (rev ns) ov nb =
    (filter (\<lambda>n. cover (snd n) \<inter> cover l \<noteq> {}) ns @ ov,
     filter (\<lambda>n. want \<and> cover (snd n) \<inter> cover l = {} \<and> filelock_owner_equal (snd n) l
       \<and> cover (snd n) \<inter> cover_ext l \<noteq> {}) ns @ nb)"
  using assms
proof (induction ns arbitrary: ov nb rule: rev_induct)
  case (snoc x ms)
  have wf: "held_wf ms" "lock_ok (snd x)" using held_wf_prefix [OF snoc.prems(1)] held_wf_nodes(3) [OF snoc.prems(1)] by simp_all
  have own: "filelock_owner_equal (neighbor_check_lock l) (snd x) = filelock_owner_equal (snd x) l"
    by (auto simp: neighbor_check_lock_def Let_def owner_equal_sym [of "snd x"])
  note sh = share_space_iff [OF lock_ok_range [OF wf(2)] snoc.prems(2)]
    share_neighbor_iff [OF lock_ok_range [OF wf(2)] snoc.prems(2)] own
  have stop: "cover (snd m) \<inter> cover l = {} \<and> cover (snd m) \<inter> cover_ext l = {}"
    if "fl_start (snd x) < fl_start l" "fl_type (snd x) = CEPH_LOCK_EXCL" "m \<in> set ms" for m
    using held_wf_blocked [OF snoc.prems(1) that(3,2)] that(1) by (fastforce simp: cover_def cover_ext_def)
  show ?case
  proof (cases "fl_start (snd x) < fl_start l \<and> fl_type (snd x) = CEPH_LOCK_EXCL")
    case True
    then have "filter (\<lambda>n. cover (snd n) \<inter> cover l \<noteq> {}) ms = []"
      "filter (\<lambda>n. want \<and> cover (snd n) \<inter> cover l = {} \<and> filelock_owner_equal (snd n) l
         \<and> cover (snd n) \<inter> cover_ext l \<noteq> {}) ms = []"
      using stop by (auto simp: filter_empty_conv)
    then show ?thesis using True by (simp add: Let_def sh)
  next
    case False
    then show ?thesis using snoc.IH [OF wf(1) snoc.prems(2)] by (auto simp: Let_def sh)
  qed
qed simp

definition overlapping :: "filelock \<Rightarrow> lock_node list \<Rightarrow> lock_node list" where
  "overlapping l ns = filter (\<lambda>n. cover (snd n) \<inter> cover l \<noteq> {}) ns"

definition neighbors :: "filelock \<Rightarrow> lock_node list \<Rightarrow> lock_node list" where
  "neighbors l ns = filter (\<lambda>n. cover (snd n) \<inter> cover l = {} \<and> filelock_owner_equal (snd n) l
     \<and> cover (snd n) \<inter> cover_ext l \<noteq> {}) ns"

lemma sorted_dropWhile_above:
  assumes "sorted (map f xs)" "x \<in> set (dropWhile (\<lambda>x. f x \<le> e) xs)"
  shows "(e::nat) < f x"
  using assms by (induction xs) (auto split: if_splits)

text \<open>The last start that \<^verbatim>\<open>get_overlapping_locks\<close> looks at, and that the entries above it do not matter.\<close>

definition search_end :: "filelock \<Rightarrow> nat" where
  "search_end l = (if fl_length l \<noteq> 0 then wadd (fl_start l) (fl_length l) else UINT64_MAX)"

lemma above_search_end:
  assumes "range_ok l" "range_ok m" "search_end l < fl_start m"
  shows "cover m \<inter> cover l = {} \<and> cover m \<inter> cover_ext l = {}"
proof -
  have "fl_length l \<noteq> 0" using assms by (auto simp: search_end_def range_ok_def UINT64_MAX_def split: if_splits)
  then have "fl_start l + fl_length l < fl_start m"
    using assms wadd_small [of "fl_start l" "fl_length l"] by (auto simp: search_end_def range_ok_def)
  then show ?thesis using \<open>fl_length l \<noteq> 0\<close> by (auto simp: cover_def cover_ext_def)
qed

text \<open>The search for overlapping locks and neighbours finds them all, in the order of the map.\<close>

lemma get_overlapping_exact:
  assumes "held_wf (held_locks st)" "range_ok l"
  shows "get_overlapping_locks l want st =
    (overlapping l (held_locks st), if want then neighbors l (held_locks st) else [])"
proof -
  let ?ns = "held_locks st"
  define B where "B = takeWhile (\<lambda>n. fl_start (snd n) \<le> search_end l) ?ns"
  define A where "A = dropWhile (\<lambda>n. fl_start (snd n) \<le> search_end l) ?ns"
  have split: "?ns = B @ A" by (simp add: A_def B_def)
  have "cover (snd n) \<inter> cover l = {} \<and> cover (snd n) \<inter> cover_ext l = {}" if "n \<in> set A" for n
  proof (rule above_search_end [OF assms(2)])
    show "range_ok (snd n)" using that split held_wf_nodes(3) [OF assms(1), of n] by simp
    show "search_end l < fl_start (snd n)"
      using that sorted_dropWhile_above [OF held_wf_nodes(1) [OF assms(1)]] by (simp add: A_def)
  qed
  then have none: "overlapping l ms = [] \<and> neighbors l ms = []" if "set ms \<subseteq> set A" for ms
    using that by (auto simp: overlapping_def neighbors_def filter_empty_conv)
  have loop: "overlap_loop l want (rev ms) [] [] = (overlapping l ms, if want then neighbors l ms else [])"
    if "held_wf ms" for ms
    using overlap_loop_exact [OF that assms(2)] by (simp add: overlapping_def neighbors_def)
  have ov: "overlapping l ?ns = overlapping l B" "neighbors l ?ns = neighbors l B"
    using none [OF subset_refl] split by (simp_all add: overlapping_def neighbors_def)
  have get: "get_overlapping_locks l want st = overlap_loop l want (if B \<noteq> [] then rev B else take 1 ?ns) [] []"
    by (simp add: get_overlapping_locks_def get_last_before_def Let_def B_def search_end_def)
  show ?thesis
  proof (cases "B = []")
    case True
    have "held_wf (take 1 ?ns)" using assms(1) by (metis append_take_drop_id held_wf_prefix)
    moreover have "rev (take 1 ?ns) = take 1 ?ns" by (cases ?ns) auto
    moreover have "set (take 1 ?ns) \<subseteq> set A" using True split by (metis append_Nil set_take_subset)
    ultimately show ?thesis using loop [of "take 1 ?ns"] none get ov True by (simp add: overlapping_def neighbors_def)
  next
    case False
    have "held_wf B" using assms(1) split held_wf_prefix by metis
    then show ?thesis using loop get ov False by simp
  qed
qed

end
