(* ===== verification/FlockStep.thy ===== *)
theory FlockStep
  imports FlockInv
begin

text \<open>
  The elementary changes of the held locks: taking a range out of one lock, which is what a round of
  \<^verbatim>\<open>remove_lock\<close> does and a round of \<^verbatim>\<open>adjust_locks\<close> for a lock of another type, and erasing a
  lock. Both keep the invariant of the lock state.
\<close>

section \<open>Counters\<close>

definition client_count :: "lock_node list \<Rightarrow> nat \<Rightarrow> nat" where
  "client_count ns c = length (filter (\<lambda>n. fl_client (snd n) = c) ns)"

text \<open>The counters have the right values; one may still be a zero to be dropped.\<close>

definition counts_eq :: "lock_state \<Rightarrow> bool" where
  "counts_eq st \<longleftrightarrow> (\<forall>c. counter_get (client_held_lock_counts st) c = int (client_count (held_locks st) c))"

definition counts_nonzero :: "lock_state \<Rightarrow> nat set \<Rightarrow> bool" where
  "counts_nonzero st S \<longleftrightarrow> (\<forall>c. c \<notin> S \<longrightarrow> client_held_lock_counts st c \<noteq> Some 0)"

lemma held_locks_count [simp]:
  "held_locks (held_count_inc c st) = held_locks st" "next_node (held_count_inc c st) = next_node st"
  "held_locks (held_count_dec c st) = held_locks st" "next_node (held_count_dec c st) = next_node st"
  "held_locks (held_count_drop c st) = held_locks st" "next_node (held_count_drop c st) = next_node st"
  by (simp_all add: held_count_inc_def held_count_dec_def held_count_drop_def)

lemma set_held_insert [simp]:
  "set (held_locks (held_insert l st)) = insert (next_node st, l) (set (held_locks st))"
  "next_node (held_insert l st) = Suc (next_node st)"
proof -
  have "set (takeWhile P xs) \<union> set (dropWhile P xs) = set xs" for P and xs :: "lock_node list"
    by (metis set_append takeWhile_dropWhile_id)
  then show "set (held_locks (held_insert l st)) = insert (next_node st, l) (set (held_locks st))"
    by (auto simp: held_insert_def)
qed (simp add: held_insert_def)

lemma set_held_erase [simp]:
  "set (held_locks (held_erase i st)) = {n \<in> set (held_locks st). fst n \<noteq> i}"
  "next_node (held_erase i st) = next_node st"
  by (auto simp: held_erase_def)

lemma set_held_set_length [simp]:
  "set (held_locks (held_set_length i len st)) =
     (\<lambda>n. if fst n = i then (i, (snd n)\<lparr>fl_length := len\<rparr>) else n) ` set (held_locks st)"
  "next_node (held_set_length i len st) = next_node st"
  by (simp_all add: held_set_length_def)

lemma client_count_split: "client_count (xs @ ys) c = client_count xs c + client_count ys c"
  by (simp add: client_count_def)

lemma client_count_insert:
  "client_count (held_locks (held_insert l st)) c =
     client_count (held_locks st) c + (if fl_client l = c then 1 else 0)"
proof -
  have "client_count (takeWhile P xs) c + client_count (dropWhile P xs) c = client_count xs c" for P xs
    by (metis client_count_split takeWhile_dropWhile_id)
  then show ?thesis
    by (simp add: held_insert_def client_count_split client_count_def [of "_ # _"])
      (simp add: client_count_def [symmetric])
qed

lemma client_count_erase:
  assumes "distinct (map fst ns)" "n \<in> set ns"
  shows "client_count ns c = client_count (filter (\<lambda>m. fst m \<noteq> fst n) ns) c + (if fl_client (snd n) = c then 1 else 0)"
proof -
  obtain xs ys where ns: "ns = xs @ n # ys" using assms(2) by (meson split_list)
  then have "filter (\<lambda>m. fst m \<noteq> fst n) xs = xs" "filter (\<lambda>m. fst m \<noteq> fst n) ys = ys"
    using assms(1) by (fastforce simp: filter_id_conv image_iff)+
  then show ?thesis by (simp add: ns client_count_def)
qed

lemma client_count_set_length [simp]:
  "client_count (held_locks (held_set_length i len st)) c = client_count (held_locks st) c"
proof -
  have "length (filter (\<lambda>n. fl_client (snd n) = c) (map (\<lambda>n. if fst n = i then (i, (snd n)\<lparr>fl_length := len\<rparr>) else n) ns))
      = length (filter (\<lambda>n. fl_client (snd n) = c) ns)" for ns :: "lock_node list"
    by (induction ns) auto
  then show ?thesis by (simp add: held_set_length_def client_count_def)
qed

lemma counter_get_upd [simp]:
  "counter_get (counter_inc c m) d = counter_get m d + (if c = d then 1 else 0)"
  "counter_get (counter_dec c m) d = counter_get m d - (if c = d then 1 else 0)"
  "counter_get (counter_drop c m) d = counter_get m d"
  by (auto simp: counter_get_def counter_inc_def counter_dec_def counter_drop_def split: option.splits)

lemma counts_extra:
  "counts_eq st \<Longrightarrow> counts_eq (held_count_inc (fl_client l) (held_insert l st))"
  "counts_eq st \<Longrightarrow> counts_nonzero st S \<Longrightarrow> counts_nonzero (held_count_inc (fl_client l) (held_insert l st)) S"
proof -
  assume a: "counts_eq st"
  have c: "client_held_lock_counts (held_insert l st) = client_held_lock_counts st" by (simp add: held_insert_def)
  show "counts_eq (held_count_inc (fl_client l) (held_insert l st))"
    using a by (simp add: counts_eq_def held_count_inc_def c client_count_insert)
  assume "counts_nonzero st S"
  moreover have "counter_get (client_held_lock_counts st) d + 1 \<noteq> 0" for d
    using a by (simp add: counts_eq_def)
  ultimately show "counts_nonzero (held_count_inc (fl_client l) (held_insert l st)) S"
    by (simp add: counts_nonzero_def held_count_inc_def c counter_inc_def)
qed

lemma counts_erase:
  assumes "counts_eq st" "distinct (map fst (held_locks st))" "n \<in> set (held_locks st)"
  shows "counts_eq (held_count_dec (fl_client (snd n)) (held_erase (fst n) st))"
  using assms client_count_erase [OF assms(2,3)]
  by (simp add: counts_eq_def held_count_dec_def held_erase_def)

lemma counts_nonzero_erase:
  "counts_nonzero st S \<Longrightarrow> counts_nonzero (held_count_dec c (held_erase i st)) (insert c S)"
  by (simp add: counts_nonzero_def held_count_dec_def held_erase_def counter_dec_def)

lemma counts_set_length:
  "counts_eq (held_set_length i len st) = counts_eq st"
  "counts_nonzero (held_set_length i len st) S = counts_nonzero st S"
proof -
  have c: "client_held_lock_counts (held_set_length i len st) = client_held_lock_counts st"
    by (simp add: held_set_length_def)
  show "counts_eq (held_set_length i len st) = counts_eq st" by (simp add: counts_eq_def c)
  show "counts_nonzero (held_set_length i len st) S = counts_nonzero st S" by (simp add: counts_nonzero_def c)
qed

lemma counts_drop:
  "counts_eq (held_count_drop c st) = counts_eq st"
  "counts_nonzero st {c} \<Longrightarrow> counts_nonzero (held_count_drop c st) {}"
proof -
  assume a: "counts_nonzero st {c}"
  show "counts_nonzero (held_count_drop c st) {}"
    unfolding counts_nonzero_def
  proof (intro allI impI)
    fix d
    show "client_held_lock_counts (held_count_drop c st) d \<noteq> Some 0"
      using a by (cases "d = c") (auto simp: counts_nonzero_def held_count_drop_def counter_drop_def counter_get_def)
  qed
qed (simp add: counts_eq_def held_count_drop_def)

lemma counts_nonzero_mono: "counts_nonzero st S \<Longrightarrow> S \<subseteq> T \<Longrightarrow> counts_nonzero st T"
  by (auto simp: counts_nonzero_def)

section \<open>The invariant of a lock state\<close>

definition flock_wf :: "lock_state \<Rightarrow> bool" where
  "flock_wf st \<longleftrightarrow> held_wf (held_locks st) \<and> (\<forall>n \<in> set (held_locks st). fst n < next_node st)
     \<and> counts_eq st \<and> counts_nonzero st {}"

text \<open>The order of the entries and that their numbers are distinct, under every change.\<close>

definition ids_ok :: "lock_state \<Rightarrow> bool" where
  "ids_ok st \<longleftrightarrow> sorted (map (\<lambda>n. fl_start (snd n)) (held_locks st)) \<and> distinct (map fst (held_locks st))
     \<and> (\<forall>n \<in> set (held_locks st). fst n < next_node st)"

lemma ids_ok_insert:
  assumes "ids_ok st"
  shows "ids_ok (held_insert l st)"
proof -
  let ?f = "\<lambda>n::lock_node. fl_start (snd n)" and ?ns = "held_locks st"
  define a where "a = takeWhile (\<lambda>n. ?f n \<le> fl_start l) ?ns"
  define b where "b = dropWhile (\<lambda>n. ?f n \<le> fl_start l) ?ns"
  have ns: "?ns = a @ b" by (simp add: a_def b_def)
  have "\<forall>n \<in> set a. ?f n \<le> fl_start l" unfolding a_def by (meson set_takeWhileD)
  moreover have "\<forall>n \<in> set b. fl_start l \<le> ?f n"
    using sorted_dropWhile_above [of ?f ?ns] assms by (auto simp: ids_ok_def b_def intro: less_imp_le)
  ultimately have "sorted (map ?f (a @ (next_node st, l) # b))"
    using assms unfolding ids_ok_def ns by (auto simp: sorted_append)
  moreover have "next_node st \<notin> fst ` set (a @ b)"
    using assms unfolding ids_ok_def ns by (metis imageE nat_less_le)
  then have "distinct (map fst (a @ (next_node st, l) # b))"
    using assms unfolding ids_ok_def ns by auto
  moreover have "\<forall>n \<in> set (held_locks (held_insert l st)). fst n < next_node (held_insert l st)"
    using assms by (auto simp: ids_ok_def)
  moreover have "held_locks (held_insert l st) = a @ (next_node st, l) # b"
    by (simp add: held_insert_def a_def b_def)
  ultimately show ?thesis by (simp add: ids_ok_def)
qed

lemma ids_ok_erase: "ids_ok st \<Longrightarrow> ids_ok (held_erase i st)"
  by (auto simp: ids_ok_def held_erase_def sorted_map sorted_wrt_filter distinct_map_filter)

lemma ids_ok_set_length: "ids_ok st \<Longrightarrow> ids_ok (held_set_length i len st)"
proof -
  let ?g = "\<lambda>n::lock_node. if fst n = i then (i, (snd n)\<lparr>fl_length := len\<rparr>) else n"
  have "map (\<lambda>n. fl_start (snd n)) (map ?g ns) = map (\<lambda>n. fl_start (snd n)) ns" "map fst (map ?g ns) = map fst ns" for ns
    by (induction ns) auto
  then show "ids_ok st \<Longrightarrow> ids_ok (held_set_length i len st)"
    by (simp add: ids_ok_def held_set_length_def del: map_map) auto
qed

lemma ids_ok_counts [simp]:
  "ids_ok (held_count_inc c st) = ids_ok st" "ids_ok (held_count_dec c st) = ids_ok st"
  "ids_ok (held_count_drop c st) = ids_ok st"
  by (simp_all add: ids_ok_def)

lemma flock_wf_iff:
  "flock_wf st \<longleftrightarrow> ids_ok st \<and> (\<forall>n \<in> set (held_locks st). lock_ok (snd n))
     \<and> (\<forall>m \<in> set (held_locks st). \<forall>n \<in> set (held_locks st). fst m \<noteq> fst n \<longrightarrow> co_held (snd m) (snd n))
     \<and> counts_eq st \<and> counts_nonzero st {}"
  unfolding flock_wf_def held_wf_def ids_ok_def by blast

section \<open>Taking a range out of a lock\<close>

definition same_holder :: "filelock \<Rightarrow> filelock \<Rightarrow> bool" where
  "same_holder l m \<longleftrightarrow> fl_client l = fl_client m \<and> fl_owner l = fl_owner m \<and> fl_pid l = fl_pid m
     \<and> fl_type l = fl_type m"

lemma same_holder_owner:
  "same_holder l m \<Longrightarrow> filelock_owner_equal l r = filelock_owner_equal m r"
  "same_holder l m \<Longrightarrow> filelock_owner_equal r l = filelock_owner_equal r m"
  by (simp_all add: same_holder_def filelock_owner_equal_def)

lemma co_held_mono: "co_held m n \<Longrightarrow> same_holder m' m \<Longrightarrow> cover m' \<subseteq> cover m \<Longrightarrow> co_held m' n"
  unfolding co_held_def by (simp only: same_holder_owner(1)) (auto simp: same_holder_def)

definition left_piece :: "filelock \<Rightarrow> filelock \<Rightarrow> filelock" where
  "left_piece rl old = old\<lparr>fl_length := fl_start rl - fl_start old\<rparr>"

definition right_piece :: "filelock \<Rightarrow> filelock \<Rightarrow> filelock" where
  "right_piece rl old = old\<lparr>fl_start := fl_start rl + fl_length rl,
     fl_length := if fl_length old = 0 then 0 else fl_start old + fl_length old - (fl_start rl + fl_length rl)\<rparr>"

definition has_left :: "filelock \<Rightarrow> filelock \<Rightarrow> bool" where
  "has_left rl old \<longleftrightarrow> fl_start old < fl_start rl"

definition has_right :: "filelock \<Rightarrow> filelock \<Rightarrow> bool" where
  "has_right rl old \<longleftrightarrow> fl_length rl \<noteq> 0
     \<and> (fl_length old = 0 \<or> fl_start rl + fl_length rl < fl_start old + fl_length old)"

lemma pieces_holder [simp]: "same_holder (left_piece rl old) old" "same_holder (right_piece rl old) old"
  by (simp_all add: same_holder_def left_piece_def right_piece_def)

lemma meet_bounds:
  assumes "cover old \<inter> cover rl \<noteq> {}"
  shows "fl_length rl = 0 \<or> fl_start old < fl_start rl + fl_length rl"
    "fl_length old = 0 \<or> fl_start rl < fl_start old + fl_length old"
  using assms by (auto simp: cover_def)

lemma pieces_cover:
  assumes "cover old \<inter> cover rl \<noteq> {}"
  shows "has_left rl old \<Longrightarrow> cover (left_piece rl old) = cover old \<inter> {..<fl_start rl}"
    and "has_right rl old \<Longrightarrow> cover (right_piece rl old) = cover old \<inter> {fl_start rl + fl_length rl..}"
    and "cover old - cover rl = (if has_left rl old then cover (left_piece rl old) else {})
           \<union> (if has_right rl old then cover (right_piece rl old) else {})"
proof -
  note m = meet_bounds [OF assms]
  show l: "has_left rl old \<Longrightarrow> cover (left_piece rl old) = cover old \<inter> {..<fl_start rl}"
    using m by (auto simp: has_left_def left_piece_def cover_def)
  show r: "has_right rl old \<Longrightarrow> cover (right_piece rl old) = cover old \<inter> {fl_start rl + fl_length rl..}"
    using m by (auto simp: has_right_def right_piece_def cover_def)
  have "cover old - cover rl = (cover old \<inter> {..<fl_start rl})
      \<union> (if fl_length rl \<noteq> 0 then cover old \<inter> {fl_start rl + fl_length rl..} else {})"
    by (auto simp: cover_def)
  moreover have "\<not> has_left rl old \<Longrightarrow> cover old \<inter> {..<fl_start rl} = {}"
    by (auto simp: has_left_def cover_def)
  moreover have "\<not> has_right rl old \<Longrightarrow> fl_length rl \<noteq> 0 \<Longrightarrow> cover old \<inter> {fl_start rl + fl_length rl..} = {}"
    by (auto simp: has_right_def cover_def)
  ultimately show "cover old - cover rl = (if has_left rl old then cover (left_piece rl old) else {})
           \<union> (if has_right rl old then cover (right_piece rl old) else {})"
    using l r by (auto simp: has_right_def)
qed

lemma pieces_ok:
  assumes "cover old \<inter> cover rl \<noteq> {}" "lock_ok old" "range_ok rl"
  shows "has_left rl old \<Longrightarrow> lock_ok (left_piece rl old)" "has_right rl old \<Longrightarrow> lock_ok (right_piece rl old)"
proof -
  note m = meet_bounds [OF assms(1)]
  show "has_left rl old \<Longrightarrow> lock_ok (left_piece rl old)"
    using assms(2,3) by (auto simp: has_left_def left_piece_def lock_ok_def range_ok_def)
  show "has_right rl old \<Longrightarrow> lock_ok (right_piece rl old)"
    using assms(2,3) m by (auto simp: has_right_def right_piece_def lock_ok_def range_ok_def)
qed

text \<open>A round of \<^verbatim>\<open>remove_lock\<close> without the arithmetic of the code.\<close>

definition split_node :: "filelock \<Rightarrow> lock_state \<Rightarrow> lock_node \<Rightarrow> lock_state" where
  "split_node rl st it =
     (let cl = fl_client (snd it);
          st1 = (if has_right rl (snd it) then held_count_inc cl (held_insert (right_piece rl (snd it)) st) else st);
          st2 = (if has_left rl (snd it) then held_set_length (fst it) (fl_start rl - fl_start (snd it)) st1
                 else held_count_dec cl (held_erase (fst it) st1))
      in held_count_drop cl st2)"

lemma remove_one_split:
  assumes "cover (snd it) \<inter> cover rl \<noteq> {}" "range_ok (snd it)" "range_ok rl"
  shows "remove_one rl st it = split_node rl st it"
proof -
  let ?old = "snd it"
  note m = meet_bounds [OF assms(1)]
  have s: "fl_start ?old < 2 ^ 64" "fl_start rl < 2 ^ 64" using assms(2,3) by (auto simp: range_ok_def)
  have l: "wsub (fl_start rl) (fl_start ?old) = fl_start rl - fl_start ?old" if "fl_start ?old < fl_start rl"
    using that s by (intro wsub_small) auto
  have rl: "wadd (wsub (wadd (fl_start rl) (fl_length rl)) 1) 1 = fl_start rl + fl_length rl"
    "wsub (wadd (fl_start rl) (fl_length rl)) 1 = fl_start rl + fl_length rl - 1" if "fl_length rl \<noteq> 0"
    using that wend_next [OF assms(3)] wend_small [OF assms(3)] by auto
  have old: "wsub (wadd (fl_start ?old) (fl_length ?old)) 1 = fl_start ?old + fl_length ?old - 1" if "fl_length ?old \<noteq> 0"
    using that wend_small [OF assms(2)] by auto
  have len: "wadd (wsub (fl_start ?old + fl_length ?old - 1) (fl_start rl + fl_length rl)) 1
      = fl_start ?old + fl_length ?old - (fl_start rl + fl_length rl)"
    if "fl_length ?old \<noteq> 0" "fl_start rl + fl_length rl < fl_start ?old + fl_length ?old"
    using that assms(2) wsub_small [of "fl_start rl + fl_length rl" "fl_start ?old + fl_length ?old - 1"]
      wadd_small [of "fl_start ?old + fl_length ?old - 1 - (fl_start rl + fl_length rl)" 1]
    by (auto simp: range_ok_def)
  have r0: "?old\<lparr>fl_start := e\<rparr> = ?old\<lparr>fl_start := e, fl_length := 0\<rparr>" if "fl_length ?old = 0" for e
    using that by (cases ?old) simp
  consider "fl_length rl = 0" | "fl_length rl \<noteq> 0" "fl_length ?old = 0" | "fl_length rl \<noteq> 0" "fl_length ?old \<noteq> 0"
    by blast
  then show ?thesis
  proof cases
    case 1
    then show ?thesis using l by (simp add: remove_one_def split_node_def Let_def has_left_def has_right_def)
  next
    case 2
    then show ?thesis using l rl
      by (simp add: remove_one_def split_node_def Let_def has_left_def has_right_def right_piece_def
          r0 [OF 2(2), symmetric])
  next
    case 3
    then show ?thesis using l rl old len
      by (simp add: remove_one_def split_node_def Let_def has_left_def has_right_def right_piece_def)
  qed
qed

text \<open>The entries after a change that replaces one entry by pieces of it.\<close>

definition replaces :: "lock_state \<Rightarrow> lock_node \<Rightarrow> lock_node set \<Rightarrow> lock_state \<Rightarrow> bool" where
  "replaces st it N st' \<longleftrightarrow> set (held_locks st') = (set (held_locks st) - {it}) \<union> N
     \<and> ls_type st' = ls_type st \<and> waiting_locks st' = waiting_locks st
     \<and> client_waiting_lock_counts st' = client_waiting_lock_counts st"

lemma unique_node: "distinct (map fst ns) \<Longrightarrow> m \<in> set ns \<Longrightarrow> n \<in> set ns \<Longrightarrow> fst m = fst n \<Longrightarrow> m = n"
  by (auto simp: distinct_map inj_on_def)

lemma flock_wf_replaces:
  assumes "flock_wf st" "it \<in> set (held_locks st)" "replaces st it N st'"
    and "ids_ok st'" "counts_eq st'" "counts_nonzero st' {}"
    and ok: "\<And>n. n \<in> N \<Longrightarrow> lock_ok (snd n) \<and> same_holder (snd n) (snd it) \<and> cover (snd n) \<subseteq> cover (snd it)"
    and disj: "\<And>m n. m \<in> N \<Longrightarrow> n \<in> N \<Longrightarrow> fst m \<noteq> fst n \<Longrightarrow> cover (snd m) \<inter> cover (snd n) = {}"
  shows "flock_wf st'"
proof -
  let ?H = "set (held_locks st)"
  have wf: "distinct (map fst (held_locks st))" "\<And>n. n \<in> ?H \<Longrightarrow> lock_ok (snd n)"
    "\<And>m n. m \<in> ?H \<Longrightarrow> n \<in> ?H \<Longrightarrow> fst m \<noteq> fst n \<Longrightarrow> co_held (snd m) (snd n)"
    using assms(1) by (auto simp: flock_wf_iff ids_ok_def)
  have H': "set (held_locks st') = (?H - {it}) \<union> N" using assms(3) by (simp add: replaces_def)
  have ne: "fst m \<noteq> fst it" if "m \<in> ?H - {it}" for m
    using that unique_node [OF wf(1), of m it] assms(2) by auto
  have mix: "co_held (snd n) (snd m)" if "n \<in> N" "m \<in> ?H - {it}" for m n
    using co_held_mono [of "snd it" "snd m" "snd n"] wf(3) [of it m] ne [of m] that ok [of n] assms(2) by auto
  have "lock_ok (snd n)" if "n \<in> set (held_locks st')" for n
    using that H' wf(2) [of n] ok [of n] by blast
  moreover have "co_held (snd m) (snd n)" if mn: "m \<in> set (held_locks st')" "n \<in> set (held_locks st')" "fst m \<noteq> fst n" for m n
  proof -
    consider "m \<in> ?H - {it}" "n \<in> ?H - {it}" | "m \<in> N" "n \<in> ?H - {it}" | "m \<in> ?H - {it}" "n \<in> N" | "m \<in> N" "n \<in> N"
      using mn(1,2) unfolding H' Un_iff by argo
    then show ?thesis
    proof cases
      case 1
      then show ?thesis using wf(3) [of m n] mn(3) by simp
    next
      case 2
      then show ?thesis by (rule mix)
    next
      case 3
      then show ?thesis using mix [of n m] co_held_sym by blast
    next
      case 4
      then show ?thesis using disj [OF 4 mn(3)] by (simp add: co_held_def)
    qed
  qed
  ultimately show ?thesis using assms(4-6) by (simp add: flock_wf_iff)
qed

definition pieces :: "filelock \<Rightarrow> lock_state \<Rightarrow> lock_node \<Rightarrow> lock_node set" where
  "pieces rl st it = (if has_left rl (snd it) then {(fst it, left_piece rl (snd it))} else {})
     \<union> (if has_right rl (snd it) then {(next_node st, right_piece rl (snd it))} else {})"

lemma split_node_replaces:
  assumes "ids_ok st" "it \<in> set (held_locks st)"
  shows "replaces st it (pieces rl st it) (split_node rl st it)"
proof -
  let ?i = "fst it"
  define st1 where "st1 = (if has_right rl (snd it) then held_count_inc (fl_client (snd it)) (held_insert (right_piece rl (snd it)) st) else st)"
  have fresh: "?i \<noteq> next_node st" using assms by (auto simp: ids_ok_def)
  have it: "m = it" if "m \<in> set (held_locks st)" "fst m = ?i" for m
    using that assms unique_node [of "held_locks st" m it] by (simp add: ids_ok_def)
  have "set (held_locks st1) = set (held_locks st) \<union> (if has_right rl (snd it) then {(next_node st, right_piece rl (snd it))} else {})"
    by (simp add: st1_def)
  then have "set (held_locks (split_node rl st it)) = (set (held_locks st) - {it}) \<union> pieces rl st it"
    using it fresh assms(2)
    by (auto simp: split_node_def Let_def st1_def [symmetric] pieces_def left_piece_def image_iff split: if_splits)
  moreover have "ls_type (split_node rl st it) = ls_type st \<and> waiting_locks (split_node rl st it) = waiting_locks st
     \<and> client_waiting_lock_counts (split_node rl st it) = client_waiting_lock_counts st"
    by (simp add: split_node_def Let_def held_count_inc_def held_count_dec_def held_count_drop_def held_insert_def
        held_erase_def held_set_length_def)
  ultimately show ?thesis by (simp add: replaces_def)
qed

end
