(* ===== verification/FlockHold.thy ===== *)
theory FlockHold
  imports FlockStep
begin

text \<open>
  What the changes of the held locks mean for the bytes an owner holds, and the properties of
  \<^verbatim>\<open>remove_lock\<close> and \<^verbatim>\<open>look_for_lock\<close>.
\<close>

section \<open>The changes keep the invariant\<close>

lemma flock_wf_parts:
  assumes "flock_wf st"
  shows "ids_ok st" "counts_eq st" "counts_nonzero st {}" "held_wf (held_locks st)"
    and "distinct (map fst (held_locks st))"
    and "\<And>n. n \<in> set (held_locks st) \<Longrightarrow> lock_ok (snd n)"
    and "\<And>m n. m \<in> set (held_locks st) \<Longrightarrow> n \<in> set (held_locks st) \<Longrightarrow> m \<noteq> n \<Longrightarrow> co_held (snd m) (snd n)"
proof -
  show d: "distinct (map fst (held_locks st))" using assms by (simp add: flock_wf_iff ids_ok_def)
  fix m n assume "m \<in> set (held_locks st)" "n \<in> set (held_locks st)" "m \<noteq> n"
  then show "co_held (snd m) (snd n)"
    using assms unique_node [OF d, of m n] unfolding flock_wf_iff by blast
qed (use assms in \<open>simp_all add: flock_wf_iff, simp_all add: flock_wf_def\<close>)

lemma split_node_wf:
  assumes "flock_wf st" "it \<in> set (held_locks st)" "cover (snd it) \<inter> cover rl \<noteq> {}" "range_ok rl"
  shows "flock_wf (split_node rl st it)"
proof -
  let ?cl = "fl_client (snd it)" and ?r = "right_piece rl (snd it)"
  note wf = flock_wf_parts [OF assms(1)]
  define st1 where "st1 = (if has_right rl (snd it) then held_count_inc ?cl (held_insert ?r st) else st)"
  have cl: "fl_client ?r = ?cl" by (simp add: right_piece_def)
  have st1: "ids_ok st1" "counts_eq st1" "counts_nonzero st1 {}" "it \<in> set (held_locks st1)"
    using wf(1-3) assms(2) counts_extra(1) [of st ?r] counts_extra(2) [of st "{}" ?r] by (auto simp: st1_def ids_ok_insert cl)
  then have nz: "counts_nonzero st1 {?cl}" and d: "distinct (map fst (held_locks st1))"
    using counts_nonzero_mono [of st1 "{}" "{?cl}"] by (simp_all add: ids_ok_def)
  define st2 where "st2 = (if has_left rl (snd it) then held_set_length (fst it) (fl_start rl - fl_start (snd it)) st1
     else held_count_dec ?cl (held_erase (fst it) st1))"
  have "ids_ok st2" using st1(1) by (simp add: st2_def ids_ok_erase ids_ok_set_length)
  moreover have "counts_eq st2" using st1(2) counts_erase [OF st1(2) d st1(4)] by (simp add: st2_def counts_set_length)
  moreover have "counts_nonzero st2 {?cl}"
    using nz counts_nonzero_erase [OF nz, of ?cl] by (simp add: st2_def counts_set_length)
  moreover have "split_node rl st it = held_count_drop ?cl st2"
    by (simp add: split_node_def Let_def st1_def st2_def)
  ultimately have sn: "ids_ok (split_node rl st it)" "counts_eq (split_node rl st it)" "counts_nonzero (split_node rl st it) {}"
    by (simp_all add: counts_drop)
  note pc = pieces_cover(1,2) [OF assms(3)] and po = pieces_ok [OF assms(3) wf(6) [OF assms(2)] assms(4)]
  have mem: "n \<in> pieces rl st it \<longleftrightarrow> has_left rl (snd it) \<and> n = (fst it, left_piece rl (snd it))
      \<or> has_right rl (snd it) \<and> n = (next_node st, right_piece rl (snd it))" for n
    by (simp add: pieces_def)
  have ok: "lock_ok (snd n) \<and> same_holder (snd n) (snd it) \<and> cover (snd n) \<subseteq> cover (snd it)" if "n \<in> pieces rl st it" for n
    using that unfolding mem by (elim disjE conjE) (simp_all add: pc po)
  have disj: "cover (snd m) \<inter> cover (snd n) = {}"
    if "m \<in> pieces rl st it" "n \<in> pieces rl st it" "fst m \<noteq> fst n" for m n
    using that unfolding mem by (elim disjE conjE) (auto simp: pc)
  show ?thesis
    by (rule flock_wf_replaces [OF assms(1,2) split_node_replaces [OF wf(1) assms(2)] sn ok disj])
qed

text \<open>Erasing an entry, as the code does it when two locks are unified.\<close>

definition erase_node :: "lock_state \<Rightarrow> lock_node \<Rightarrow> lock_state" where
  "erase_node st it = held_count_drop (fl_client (snd it)) (held_count_dec (fl_client (snd it)) (held_erase (fst it) st))"

lemma erase_node_replaces:
  assumes "ids_ok st" "it \<in> set (held_locks st)"
  shows "replaces st it {} (erase_node st it)"
proof -
  have "m = it" if "m \<in> set (held_locks st)" "fst m = fst it" for m
    using that assms unique_node [of "held_locks st" m it] by (simp add: ids_ok_def)
  then have "set (held_locks (erase_node st it)) = set (held_locks st) - {it}" by (auto simp: erase_node_def)
  then show ?thesis
    by (simp add: replaces_def erase_node_def held_count_dec_def held_count_drop_def held_erase_def)
qed

lemma erase_node_wf:
  assumes "flock_wf st" "it \<in> set (held_locks st)"
  shows "flock_wf (erase_node st it)"
proof -
  note wf = flock_wf_parts [OF assms(1)]
  have "counts_eq (erase_node st it)"
    using counts_erase [OF wf(2,5) assms(2)] by (simp add: erase_node_def counts_drop)
  moreover have "counts_nonzero (erase_node st it) {}"
    using counts_nonzero_erase [OF wf(3)] by (simp add: erase_node_def counts_drop)
  moreover have "ids_ok (erase_node st it)" using wf(1) by (simp add: erase_node_def ids_ok_erase)
  ultimately show ?thesis
    using flock_wf_replaces [OF assms erase_node_replaces [OF wf(1) assms(2)]] by simp
qed

section \<open>The bytes that are held\<close>

definition holds :: "lock_node set \<Rightarrow> filelock \<Rightarrow> nat \<Rightarrow> nat \<Rightarrow> bool" where
  "holds ns ow t b \<longleftrightarrow> (\<exists>n \<in> ns. filelock_owner_equal (snd n) ow \<and> fl_type (snd n) = t \<and> b \<in> cover (snd n))"

lemma holds_Un: "holds (A \<union> B) ow t b \<longleftrightarrow> holds A ow t b \<or> holds B ow t b"
  by (auto simp: holds_def)

lemma holds_single: "holds {n} ow t b \<longleftrightarrow> filelock_owner_equal (snd n) ow \<and> fl_type (snd n) = t \<and> b \<in> cover (snd n)"
  by (simp add: holds_def)

lemma holds_remove: "it \<in> H \<Longrightarrow> holds H ow t b \<longleftrightarrow> holds (H - {it}) ow t b \<or> holds {it} ow t b"
  by (auto simp: holds_def)

lemma holds_pieces:
  assumes "cover (snd it) \<inter> cover rl \<noteq> {}"
  shows "holds (pieces rl st it) ow t b \<longleftrightarrow> holds {it} ow t b \<and> b \<notin> cover rl"
proof -
  have "b \<in> cover (snd it) - cover rl \<longleftrightarrow> has_left rl (snd it) \<and> b \<in> cover (left_piece rl (snd it))
      \<or> has_right rl (snd it) \<and> b \<in> cover (right_piece rl (snd it))"
    unfolding pieces_cover(3) [OF assms] by auto
  moreover have "filelock_owner_equal (left_piece rl (snd it)) ow = filelock_owner_equal (snd it) ow"
    "filelock_owner_equal (right_piece rl (snd it)) ow = filelock_owner_equal (snd it) ow"
    "fl_type (left_piece rl (snd it)) = fl_type (snd it)" "fl_type (right_piece rl (snd it)) = fl_type (snd it)"
    by (simp_all add: left_piece_def right_piece_def)
  ultimately show ?thesis unfolding holds_def pieces_def by auto
qed

lemma pieces_new:
  assumes "ids_ok st" "it \<in> set (held_locks st)" "S \<subseteq> set (held_locks st) - {it}"
  shows "pieces rl st it \<inter> S = {}"
proof -
  have "fst n \<noteq> fst it \<and> fst n \<noteq> next_node st" if "n \<in> S" for n
    using that assms unique_node [of "held_locks st" n it] by (fastforce simp: ids_ok_def)
  then have "(fst it, x) \<notin> S" "(next_node st, x) \<notin> S" for x by (metis fst_conv)+
  then show ?thesis by (simp add: pieces_def)
qed

lemma replaces_others:
  assumes "replaces st it N st'" "S \<subseteq> set (held_locks st) - {it}"
  shows "S \<subseteq> set (held_locks st')"
  using assms by (auto simp: replaces_def)

section \<open>Removing a lock\<close>

lemma remove_fold:
  assumes "flock_wf st" "range_ok rl" "distinct rs" "set rs \<subseteq> set (held_locks st)"
    and "\<And>r. r \<in> set rs \<Longrightarrow> cover (snd r) \<inter> cover rl \<noteq> {}"
  shows "flock_wf (fold (\<lambda>it st. remove_one rl st it) rs st)
    \<and> (\<forall>ow t b. holds (set (held_locks (fold (\<lambda>it st. remove_one rl st it) rs st))) ow t b \<longleftrightarrow>
         holds (set (held_locks st) - set rs) ow t b \<or> holds (set rs) ow t b \<and> b \<notin> cover rl)
    \<and> waiting_locks (fold (\<lambda>it st. remove_one rl st it) rs st) = waiting_locks st"
  using assms
proof (induction rs arbitrary: st)
  case (Cons it rs)
  let ?H = "set (held_locks st)" and ?st = "split_node rl st it"
  have it: "it \<in> ?H" "cover (snd it) \<inter> cover rl \<noteq> {}" using Cons.prems(4,5) by auto
  note wf = flock_wf_parts [OF Cons.prems(1)]
  have one: "remove_one rl st it = ?st"
    using it(2) wf(6) [OF it(1)] Cons.prems(2) by (intro remove_one_split) auto
  have rep: "replaces st it (pieces rl st it) ?st" by (rule split_node_replaces [OF wf(1) it(1)])
  have rs: "set rs \<subseteq> ?H - {it}" using Cons.prems(3,4) by auto
  have "set (held_locks ?st) - set rs = (?H - {it} - set rs) \<union> pieces rl st it"
    using rep pieces_new [OF wf(1) it(1) rs] by (auto simp: replaces_def)
  moreover have e: "?H - {it} - set rs = ?H - set (it # rs)" by auto
  ultimately have h: "holds (set (held_locks ?st) - set rs) ow t b \<longleftrightarrow>
      holds (?H - set (it # rs)) ow t b \<or> holds {it} ow t b \<and> b \<notin> cover rl" for ow t b
    using e by (simp only: holds_Un holds_pieces [OF it(2)])
  have "holds (set (it # rs)) ow t b \<longleftrightarrow> holds {it} ow t b \<or> holds (set rs) ow t b" for ow t b
    using holds_Un [of "{it}" "set rs"] by simp
  moreover have "waiting_locks ?st = waiting_locks st" using rep by (simp add: replaces_def)
  moreover have "distinct rs" "\<And>r. r \<in> set rs \<Longrightarrow> cover (snd r) \<inter> cover rl \<noteq> {}"
    using Cons.prems(3,5) by auto
  ultimately show ?case
    using Cons.IH [OF split_node_wf [OF Cons.prems(1) it Cons.prems(2)] Cons.prems(2) _ replaces_others [OF rep rs]]
    by (simp add: one h) blast
qed (simp add: holds_def)

lemma distinct_held: "flock_wf st \<Longrightarrow> distinct (held_locks st)"
  using flock_wf_parts(5) by (simp add: distinct_map)

lemma remove_lock_spec:
  assumes "flock_wf st" "range_ok rl"
  shows "flock_wf (remove_lock rl st)"
    and "holds (set (held_locks (remove_lock rl st))) ow t b \<longleftrightarrow>
      holds (set (held_locks st)) ow t b \<and> \<not> (filelock_owner_equal rl ow \<and> b \<in> cover rl)"
    and "waiting_locks (remove_lock rl st) = waiting_locks st"
proof -
  let ?H = "held_locks st"
  define rs where "rs = filter (\<lambda>n. filelock_owner_equal (snd n) rl) (overlapping rl ?H)"
  have rl: "remove_lock rl st = fold (\<lambda>it st. remove_one rl st it) rs st"
    using get_overlapping_exact [OF flock_wf_parts(4) [OF assms(1)] assms(2), of False]
    by (simp add: remove_lock_def split_by_owner_def rs_def)
  have rs: "set rs = {n \<in> set ?H. filelock_owner_equal (snd n) rl \<and> cover (snd n) \<inter> cover rl \<noteq> {}}" "distinct rs"
    using distinct_held [OF assms(1)] by (auto simp: rs_def overlapping_def)
  have sub: "set rs \<subseteq> set ?H" "\<And>r. r \<in> set rs \<Longrightarrow> cover (snd r) \<inter> cover rl \<noteq> {}" using rs(1) by auto
  note f = remove_fold [OF assms rs(2) sub, folded rl]
  show "flock_wf (remove_lock rl st)" "waiting_locks (remove_lock rl st) = waiting_locks st" using f by blast+
  have own: "filelock_owner_equal n ow \<Longrightarrow> filelock_owner_equal rl ow \<longleftrightarrow> filelock_owner_equal n rl" for n
    using owner_equal_sym owner_equal_trans by blast
  have "holds (set ?H - set rs) ow t b \<or> holds (set rs) ow t b \<and> b \<notin> cover rl \<longleftrightarrow>
      holds (set ?H) ow t b \<and> \<not> (filelock_owner_equal rl ow \<and> b \<in> cover rl)"
    unfolding holds_def rs(1) using own by blast
  then show "holds (set (held_locks (remove_lock rl st))) ow t b \<longleftrightarrow>
      holds (set ?H) ow t b \<and> \<not> (filelock_owner_equal rl ow \<and> b \<in> cover rl)" using f by blast
qed

end
