(* ===== verification/FlockAdd.thy ===== *)
theory FlockAdd
  imports FlockHold
begin

text \<open>
  \<^verbatim>\<open>add_lock\<close>: while \<^verbatim>\<open>adjust_locks\<close> makes room for the new lock, the bytes that are held once the
  new lock is inserted stay the same: its own locks of the same type are united with it, those of
  the other type are cut.
\<close>

section \<open>Making room\<close>

definition view :: "lock_node set \<Rightarrow> filelock \<Rightarrow> filelock \<Rightarrow> nat \<Rightarrow> nat \<Rightarrow> bool" where
  "view H nl ow t b \<longleftrightarrow>
     (if filelock_owner_equal nl ow \<and> b \<in> cover nl then t = fl_type nl else holds H ow t b)"

text \<open>The state between the rounds: \<open>R\<close> are the locks of the same owner that still overlap the new one.\<close>

definition adj :: "lock_state \<Rightarrow> filelock \<Rightarrow> lock_node set \<Rightarrow> bool" where
  "adj st nl R \<longleftrightarrow> flock_wf st \<and> lock_ok nl \<and> R \<subseteq> set (held_locks st)
     \<and> (\<forall>r \<in> R. filelock_owner_equal (snd r) nl)
     \<and> (\<forall>n \<in> set (held_locks st). filelock_owner_equal (snd n) nl \<longrightarrow> (cover (snd n) \<inter> cover nl \<noteq> {} \<longleftrightarrow> n \<in> R))
     \<and> (\<forall>n \<in> set (held_locks st). \<not> filelock_owner_equal (snd n) nl \<longrightarrow> co_held (snd n) nl)"

lemma own_disjoint:
  assumes "flock_wf st" "m \<in> set (held_locks st)" "n \<in> set (held_locks st)" "m \<noteq> n"
    and "filelock_owner_equal (snd m) nl" "filelock_owner_equal (snd n) nl"
  shows "cover (snd m) \<inter> cover (snd n) = {}"
proof -
  have "filelock_owner_equal (snd m) (snd n)" using assms(5,6) owner_equal_sym owner_equal_trans by blast
  then show ?thesis using flock_wf_parts(7) [OF assms(1-4)] by (simp add: co_held_def)
qed

lemma adj_merge:
  assumes "adj st nl R" "it \<in> set (held_locks st)" "filelock_owner_equal (snd it) nl" "fl_type (snd it) = fl_type nl"
    and "same_holder nl' nl" "cover nl' = cover nl \<union> cover (snd it)" "lock_ok nl'"
  shows "adj (erase_node st it) nl' (R - {it})"
    and "view (set (held_locks (erase_node st it))) nl' ow t b = view (set (held_locks st)) nl ow t b"
proof -
  let ?H = "set (held_locks st)"
  have wf: "flock_wf st" using assms(1) by (simp add: adj_def)
  have H': "set (held_locks (erase_node st it)) = ?H - {it}"
    using erase_node_replaces [OF flock_wf_parts(1) [OF wf] assms(2)] by (simp add: replaces_def)
  have own: "filelock_owner_equal x nl' = filelock_owner_equal x nl" "filelock_owner_equal nl' x = filelock_owner_equal nl x"
    for x using same_holder_owner [OF assms(5)] by blast+
  have ty: "fl_type nl' = fl_type nl" using assms(5) by (simp add: same_holder_def)
  have disj: "cover (snd n) \<inter> cover (snd it) = {}" if "n \<in> ?H - {it}" "filelock_owner_equal (snd n) nl" for n
    using own_disjoint [OF wf _ assms(2), of n nl] that assms(3) by blast
  have others: "co_held (snd n) nl'" if n: "n \<in> ?H - {it}" "\<not> filelock_owner_equal (snd n) nl" for n
  proof -
    have "co_held (snd n) nl" using n assms(1) by (simp add: adj_def)
    moreover have "co_held (snd n) (snd it)" using n flock_wf_parts(7) [OF wf _ assms(2), of n] by blast
    ultimately show ?thesis using n(2) assms(4,6) own(1) ty by (auto simp: co_held_def)
  qed
  show "adj (erase_node st it) nl' (R - {it})"
    unfolding adj_def H' own assms(6) Int_Un_distrib
    using assms(1,7) disj others erase_node_wf [OF wf assms(2)] by (auto simp: adj_def)
  have "filelock_owner_equal nl ow \<longleftrightarrow> filelock_owner_equal (snd it) ow"
    using assms(3) owner_equal_sym owner_equal_trans by blast
  moreover have "\<not> holds (?H - {it}) ow t' b" if "filelock_owner_equal nl ow" "b \<in> cover (snd it)" for t'
    using that disj assms(3) owner_equal_sym owner_equal_trans unfolding holds_def by blast
  ultimately show "view (set (held_locks (erase_node st it))) nl' ow t b = view ?H nl ow t b"
    unfolding view_def H' own assms(6) ty holds_remove [OF assms(2), of ow t b] holds_single using assms(4) by auto
qed

lemma pieces_part:
  assumes "n \<in> pieces rl st it" "cover (snd it) \<inter> cover rl \<noteq> {}"
  shows "cover (snd n) \<subseteq> cover (snd it) - cover rl" "same_holder (snd n) (snd it)"
proof -
  have n: "has_left rl (snd it) \<and> n = (fst it, left_piece rl (snd it))
      \<or> has_right rl (snd it) \<and> n = (next_node st, right_piece rl (snd it))"
    using assms(1) by (simp add: pieces_def split: if_splits)
  then show "cover (snd n) \<subseteq> cover (snd it) - cover rl" unfolding pieces_cover(3) [OF assms(2)] by auto
  show "same_holder (snd n) (snd it)" using n by auto
qed

lemma adj_cut:
  assumes "adj st nl R" "it \<in> R"
  shows "adj (split_node nl st it) nl (R - {it})"
    and "view (set (held_locks (split_node nl st it))) nl ow t b = view (set (held_locks st)) nl ow t b"
    and "R - {it} \<subseteq> set (held_locks (split_node nl st it))"
proof -
  let ?H = "set (held_locks st)" and ?P = "pieces nl st it"
  have a: "flock_wf st" "lock_ok nl" "it \<in> ?H" "filelock_owner_equal (snd it) nl" "cover (snd it) \<inter> cover nl \<noteq> {}"
    using assms by (auto simp: adj_def)
  note wf = flock_wf_parts [OF a(1)]
  have rep: "replaces st it ?P (split_node nl st it)" by (rule split_node_replaces [OF wf(1) a(3)])
  then have H': "set (held_locks (split_node nl st it)) = (?H - {it}) \<union> ?P" by (simp add: replaces_def)
  have R: "R - {it} \<subseteq> ?H - {it}" using assms(1) by (auto simp: adj_def)
  then show "R - {it} \<subseteq> set (held_locks (split_node nl st it))" using H' by blast
  have p: "filelock_owner_equal (snd n) nl \<and> cover (snd n) \<inter> cover nl = {} \<and> n \<notin> R - {it}" if "n \<in> ?P" for n
  proof -
    have "filelock_owner_equal (snd n) nl" using a(4) same_holder_owner(1) [OF pieces_part(2) [OF that a(5)]] by simp
    then show ?thesis using that pieces_part(1) [OF that a(5)] pieces_new [OF wf(1) a(3) R] by blast
  qed
  have q: "cover (snd n) \<inter> cover nl \<noteq> {} \<longleftrightarrow> n \<in> R - {it}"
    if "n \<in> (?H - {it}) \<union> ?P" "filelock_owner_equal (snd n) nl" for n
  proof (cases "n \<in> ?P")
    case False
    then show ?thesis using that assms(1) unfolding adj_def by blast
  qed (use p in blast)
  have "co_held (snd n) nl" if "n \<in> (?H - {it}) \<union> ?P" "\<not> filelock_owner_equal (snd n) nl" for n
    using that p assms(1) unfolding adj_def by blast
  then show "adj (split_node nl st it) nl (R - {it})"
    unfolding adj_def H'
    using assms(1) q split_node_wf [OF a(1,3,5) lock_ok_range [OF a(2)]] a(2) R unfolding adj_def by blast
  have "filelock_owner_equal nl ow \<longleftrightarrow> filelock_owner_equal (snd it) ow"
    using a(4) owner_equal_sym owner_equal_trans by blast
  then show "view (set (held_locks (split_node nl st it))) nl ow t b = view ?H nl ow t b"
    unfolding view_def H' holds_Un holds_pieces [OF a(5)] holds_remove [OF a(3), of ow t b]
    by (auto simp: holds_single)
qed

section \<open>The rounds of adjust\_locks\<close>

abbreviation fend :: "filelock \<Rightarrow> nat" where
  "fend l \<equiv> fl_start l + fl_length l"

text \<open>
  The last byte of two bounded locks that are unified goes through an \<^verbatim>\<open>int\<close>: it is kept when
  both end within the first \<open>2 ^ 31\<close> bytes.
\<close>

definition small_merge :: "filelock \<Rightarrow> filelock \<Rightarrow> bool" where
  "small_merge nl old \<longleftrightarrow> (fl_type old = fl_type nl \<and> fl_length old \<noteq> 0 \<and> fl_length nl \<noteq> 0
     \<longrightarrow> fend old \<le> 2 ^ 31 \<and> fend nl \<le> 2 ^ 31)"

definition merged :: "bool \<Rightarrow> filelock \<Rightarrow> filelock \<Rightarrow> filelock" where
  "merged to_end nl old =
     (let s = (if fl_start old < fl_start nl then fl_start old else fl_start nl);
          new_end = wsub (wadd (fl_start nl) (fl_length nl)) 1;
          old_end = wsub (wadd (fl_start old) (fl_length old)) 1
      in nl\<lparr>fl_start := s,
            fl_length := if to_end \<or> fl_length old = 0 then 0
              else wadd (wsub (through_int (if new_end > old_end then new_end else old_end)) s) 1\<rparr>)"

lemma adjust_old_same:
  "fl_type (snd it) = fl_type nl \<Longrightarrow>
   adjust_old to_end (st, nl) it = (erase_node st it, merged to_end nl (snd it))"
  by (simp add: adjust_old_def merged_def erase_node_def Let_def)

lemma adjust_old_diff:
  "fl_type (snd it) \<noteq> fl_type nl \<Longrightarrow> adjust_old (fl_length nl = 0) (st, nl) it = (remove_one nl st it, nl)"
  by (simp add: adjust_old_def remove_one_def Let_def)

lemma through_int_small: "x < 2 ^ 31 \<Longrightarrow> through_int x = x"
  by (simp add: through_int_def)

lemma merged_length:
  assumes "range_ok nl" "range_ok old" "small_merge nl old" "fl_type old = fl_type nl"
    and "fl_length nl \<noteq> 0" "fl_length old \<noteq> 0" "cover old \<inter> cover nl \<noteq> {}"
  shows "fl_length (merged False nl old) = max (fend nl) (fend old) - min (fl_start nl) (fl_start old)"
proof -
  let ?m = "max (fend nl) (fend old) - 1" and ?s = "min (fl_start nl) (fl_start old)"
  have b: "fend nl \<le> 2 ^ 31" "fend old \<le> 2 ^ 31" using assms(3-6) by (auto simp: small_merge_def)
  have e: "(if fend nl - 1 > fend old - 1 then fend nl - 1 else fend old - 1) = ?m" using assms(5,6) by auto
  have "through_int ?m = ?m" using b assms(5,6) by (intro through_int_small) auto
  moreover have "wsub ?m ?s = ?m - ?s" using b assms(5,6) by (intro wsub_small) auto
  moreover have "wadd (?m - ?s) 1 = ?m - ?s + 1" using b by (intro wadd_small) auto
  moreover have "?m - ?s + 1 = max (fend nl) (fend old) - ?s" using assms(5,6) by auto
  moreover have "(if fl_start old < fl_start nl then fl_start old else fl_start nl) = ?s" by auto
  ultimately show ?thesis
    using assms(6) by (simp only: merged_def Let_def wend_small [OF assms(1,5)] wend_small [OF assms(2,6)] e) simp
qed

lemma merged_spec:
  assumes "lock_ok nl" "lock_ok old" "small_merge nl old" "fl_type old = fl_type nl" "cover old \<inter> cover nl \<noteq> {}"
  shows "cover (merged (fl_length nl = 0) nl old) = cover nl \<union> cover old"
    and "lock_ok (merged (fl_length nl = 0) nl old)"
    and "same_holder (merged (fl_length nl = 0) nl old) nl"
    and "fl_length (merged (fl_length nl = 0) nl old) = 0 \<longleftrightarrow> fl_length nl = 0 \<or> fl_length old = 0"
    and "fl_length nl \<noteq> 0 \<Longrightarrow> fl_length old \<noteq> 0 \<Longrightarrow> fend (merged False nl old) = max (fend nl) (fend old)"
proof -
  let ?m = "merged (fl_length nl = 0) nl old"
  note b = meet_bounds [OF assms(5)]
  have s: "fl_start ?m = min (fl_start nl) (fl_start old)" by (auto simp: merged_def Let_def)
  have r: "range_ok nl" "range_ok old" using assms(1,2) by simp_all
  have l0: "fl_length nl = 0 \<or> fl_length old = 0 \<Longrightarrow> fl_length ?m = 0" by (auto simp: merged_def Let_def)
  have l1: "fl_length ?m = max (fend nl) (fend old) - min (fl_start nl) (fl_start old)"
    if "fl_length nl \<noteq> 0" "fl_length old \<noteq> 0"
    using merged_length [OF r assms(3,4) that assms(5)] that by simp
  show z: "fl_length ?m = 0 \<longleftrightarrow> fl_length nl = 0 \<or> fl_length old = 0" using l0 l1 by fastforce
  show e: "fend (merged False nl old) = max (fend nl) (fend old)" if "fl_length nl \<noteq> 0" "fl_length old \<noteq> 0"
    using l1 [OF that] s that by (simp add: max_def min_def)
  show "same_holder ?m nl" by (simp add: same_holder_def merged_def Let_def)
  then have ty: "fl_type ?m = fl_type nl" by (simp add: same_holder_def)
  have em: "fend ?m = max (fend nl) (fend old)" if "fl_length ?m \<noteq> 0" using e z that by simp
  then have "range_ok ?m" using r s z unfolding range_ok_def by (simp add: min_def max_def)
  then show "lock_ok ?m" using ty assms(1) by (simp add: lock_ok_def)
  show "cover ?m = cover nl \<union> cover old"
  proof (cases "fl_length nl = 0 \<or> fl_length old = 0")
    case True
    then show ?thesis using l0 s b by (auto simp: cover_def)
  next
    case False
    then show ?thesis using em s b z by (auto simp: cover_def)
  qed
qed

text \<open>What a round keeps: the holder of the new lock, the bytes held in the end, and every lock not in \<open>X\<close>.\<close>

definition room :: "lock_state \<Rightarrow> filelock \<Rightarrow> lock_node set \<Rightarrow> lock_state \<Rightarrow> filelock \<Rightarrow> bool" where
  "room st nl X st' nl' \<longleftrightarrow> same_holder nl' nl \<and> cover nl \<subseteq> cover nl'
     \<and> (\<forall>ow t b. view (set (held_locks st')) nl' ow t b = view (set (held_locks st)) nl ow t b)
     \<and> set (held_locks st) - X \<subseteq> set (held_locks st')
     \<and> ls_type st' = ls_type st \<and> waiting_locks st' = waiting_locks st
     \<and> client_waiting_lock_counts st' = client_waiting_lock_counts st"

lemma room_refl: "room st nl {} st nl"
  by (simp add: room_def same_holder_def)

lemma room_trans:
  assumes "room st nl X st1 nl1" "room st1 nl1 Y st2 nl2"
  shows "room st nl (X \<union> Y) st2 nl2"
  using assms unfolding room_def same_holder_def by auto

lemma room_merge:
  assumes "adj st nl R" "it \<in> set (held_locks st)" "filelock_owner_equal (snd it) nl" "fl_type (snd it) = fl_type nl"
    and "same_holder nl' nl" "cover nl' = cover nl \<union> cover (snd it)" "lock_ok nl'"
  shows "room st nl {it} (erase_node st it) nl'"
  using adj_merge(2) [OF assms] assms(1,5,6) erase_node_replaces [OF _ assms(2)]
  by (auto simp: room_def replaces_def adj_def flock_wf_parts(1))

lemma room_cut:
  assumes "adj st nl R" "it \<in> R"
  shows "room st nl {it} (split_node nl st it) nl"
proof -
  have "ids_ok st" "it \<in> set (held_locks st)" using assms by (auto simp: adj_def flock_wf_parts(1))
  then show ?thesis
    using adj_cut(2) [OF assms] split_node_replaces [of st it nl]
    by (auto simp: room_def replaces_def same_holder_def)
qed

lemma adjust_old_step:
  assumes "adj st nl R" "it \<in> R" "small_merge nl (snd it)"
  obtains st' nl' where "adjust_old (fl_length nl = 0) (st, nl) it = (st', nl')"
    "adj st' nl' (R - {it})" "room st nl {it} st' nl'"
    "fl_length nl' = 0 \<longleftrightarrow> fl_length nl = 0 \<or> fl_type (snd it) = fl_type nl \<and> fl_length (snd it) = 0"
    "fl_length nl' \<noteq> 0 \<Longrightarrow> fend nl' = (if fl_type (snd it) = fl_type nl then max (fend nl) (fend (snd it)) else fend nl)"
proof -
  have a: "flock_wf st" "lock_ok nl" "it \<in> set (held_locks st)" "filelock_owner_equal (snd it) nl"
    "cover (snd it) \<inter> cover nl \<noteq> {}"
    using assms(1,2) by (auto simp: adj_def)
  have ok: "lock_ok (snd it)" using flock_wf_parts(6) [OF a(1,3)] .
  show thesis
  proof (cases "fl_type (snd it) = fl_type nl")
    case True
    note m = merged_spec [OF a(2) ok assms(3) True a(5)]
    show ?thesis
      using that [OF adjust_old_same [OF True] adj_merge(1) [OF assms(1) a(3,4) True m(3,1,2)]
          room_merge [OF assms(1) a(3,4) True m(3,1,2)]] m(4,5) True by auto
  next
    case False
    have "adjust_old (fl_length nl = 0) (st, nl) it = (split_node nl st it, nl)"
      using adjust_old_diff [OF False] remove_one_split [OF a(5) lock_ok_range [OF ok] lock_ok_range [OF a(2)]] by simp
    then show ?thesis using that [OF _ adj_cut(1) [OF assms(1,2)] room_cut [OF assms(1,2)]] False by auto
  qed
qed

lemma adjust_fold:
  assumes "adj st nl (set rs)" "distinct rs" "sorted (map (\<lambda>n. fl_start (snd n)) rs)"
    and "rs \<noteq> [] \<Longrightarrow> to_end = (fl_length nl = 0)" "\<And>r. r \<in> set rs \<Longrightarrow> small_merge nl (snd r)"
  shows "\<exists>st' nl'. fold (\<lambda>it s. adjust_old to_end s it) rs (st, nl) = (st', nl')
    \<and> adj st' nl' {} \<and> room st nl (set rs) st' nl'"
  using assms
proof (induction rs arbitrary: st nl)
  case (Cons it rs)
  obtain st1 nl1 where s: "adjust_old (fl_length nl = 0) (st, nl) it = (st1, nl1)"
      "adj st1 nl1 (set (it # rs) - {it})" "room st nl {it} st1 nl1"
      "fl_length nl1 = 0 \<longleftrightarrow> fl_length nl = 0 \<or> fl_type (snd it) = fl_type nl \<and> fl_length (snd it) = 0"
      "fl_length nl1 \<noteq> 0 \<Longrightarrow> fend nl1 = (if fl_type (snd it) = fl_type nl then max (fend nl) (fend (snd it)) else fend nl)"
    using adjust_old_step [OF Cons.prems(1), of it] Cons.prems(5) [of it] by (metis list.set_intros(1))
  have te: "to_end = (fl_length nl = 0)" using Cons.prems(4) by simp
  have rs: "set (it # rs) - {it} = set rs" using Cons.prems(2) by auto
  have ty: "fl_type nl1 = fl_type nl" using s(3) by (simp add: room_def same_holder_def)
  have "to_end = (fl_length nl1 = 0)" if ne: "rs \<noteq> []"
  proof -
    obtain r where r: "r \<in> set rs" using ne by (cases rs) auto
    have "cover (snd it) \<inter> cover (snd r) = {}"
    proof (rule own_disjoint)
      show "flock_wf st" "it \<in> set (held_locks st)" "r \<in> set (held_locks st)" "filelock_owner_equal (snd it) nl"
        "filelock_owner_equal (snd r) nl" using Cons.prems(1) r by (auto simp: adj_def)
      show "it \<noteq> r" using Cons.prems(2) r by auto
    qed
    moreover have "fl_start (snd it) \<le> fl_start (snd r)" using Cons.prems(3) r by auto
    ultimately have "fl_length (snd it) \<noteq> 0" using start_in_cover [of "snd r"] by (auto simp: cover_def [of "snd it"])
    then show ?thesis using te s(4) by simp
  qed
  moreover have "small_merge nl1 (snd r)" if "r \<in> set rs" for r
    using Cons.prems(5) [of r] Cons.prems(5) [of it] that s(4,5) ty unfolding small_merge_def
    by (cases "fl_length nl1 = 0") (simp_all split: if_splits)
  ultimately obtain st2 nl2 where "fold (\<lambda>it s. adjust_old to_end s it) rs (st1, nl1) = (st2, nl2)"
      "adj st2 nl2 {}" "room st1 nl1 (set rs) st2 nl2"
    using Cons.IH [OF s(2) [unfolded rs]] Cons.prems(2,3) by auto
  moreover have "room st nl (set (it # rs)) st2 nl2"
    using room_trans [OF s(3) calculation(3)] by simp
  ultimately show ?case using s(1) te by simp
qed (simp add: room_refl)

section \<open>Neighbours\<close>

definition adjacent :: "filelock \<Rightarrow> filelock \<Rightarrow> bool" where
  "adjacent nl nb \<longleftrightarrow> fl_length nb \<noteq> 0 \<and> fend nb = fl_start nl \<or> fl_length nl \<noteq> 0 \<and> fend nl = fl_start nb"

lemma neighbor_adjacent:
  assumes "cover nb \<inter> cover nl = {}" "cover nb \<inter> cover_ext nl \<noteq> {}"
  shows "adjacent nl nb"
proof -
  obtain b where b: "b \<in> cover nb" "b \<in> cover_ext nl" "b \<notin> cover nl" using assms by auto
  consider "Suc b = fl_start nl" | "fl_length nl \<noteq> 0" "b = fend nl"
    using b(2,3) by (auto simp: cover_def cover_ext_def)
  then show ?thesis
  proof cases
    case 1
    then have "fl_start nl \<notin> cover nb" using assms(1) start_in_cover by blast
    then show ?thesis using 1 b(1) by (auto simp: adjacent_def cover_def)
  next
    case 2
    then have "fend nl - 1 \<in> cover nl" by (auto simp: cover_def)
    then have "fend nl - 1 \<notin> cover nb" using assms(1) by blast
    then show ?thesis using 2 b(1) by (auto simp: adjacent_def cover_def)
  qed
qed

text \<open>A neighbour stays one while the lock grows and does not reach into it.\<close>

lemma adjacent_grows:
  assumes "adjacent nl nb" "cover nl \<subseteq> cover nl'" "cover nb \<inter> cover nl' = {}"
  shows "adjacent nl' nb"
proof (cases "fl_length nb \<noteq> 0 \<and> fend nb = fl_start nl")
  case True
  then have "fend nb - 1 \<in> cover nb" by (auto simp: cover_def)
  then have "fend nb - 1 \<notin> cover nl'" using assms(3) by blast
  moreover have "fl_start nl \<in> cover nl'" using assms(2) start_in_cover by blast
  ultimately show ?thesis using True by (auto simp: adjacent_def cover_def)
next
  case False
  then have r: "fl_length nl \<noteq> 0" "fend nl = fl_start nb" using assms(1) by (auto simp: adjacent_def)
  have "fl_start nb \<notin> cover nl'" using assms(3) start_in_cover by blast
  moreover have "fend nl - 1 \<in> cover nl" using r(1) by (auto simp: cover_def)
  then have "fend nl - 1 \<in> cover nl'" using assms(2) by blast
  ultimately show ?thesis using r by (auto simp: adjacent_def cover_def)
qed

lemma held_count_drop_held:
  assumes "flock_wf st" "n \<in> set (held_locks st)"
  shows "held_count_drop (fl_client (snd n)) st = st"
proof -
  have "client_count (held_locks st) (fl_client (snd n)) \<noteq> 0"
    using assms(2) by (auto simp: client_count_def filter_empty_conv)
  then have "counter_get (client_held_lock_counts st) (fl_client (snd n)) \<noteq> 0"
    using flock_wf_parts(2) [OF assms(1)] by (simp add: counts_eq_def)
  then show ?thesis by (simp add: held_count_drop_def counter_drop_def)
qed

definition joined :: "filelock \<Rightarrow> filelock \<Rightarrow> filelock" where
  "joined nl nb =
     nl\<lparr>fl_start := min (fl_start nl) (fl_start nb),
        fl_length := if fl_length nl = 0 \<or> fl_length nb = 0 then 0 else fl_length nb + fl_length nl\<rparr>"

lemma joined_spec:
  assumes "adjacent nl nb" "lock_ok nl" "lock_ok nb"
  shows "cover (joined nl nb) = cover nl \<union> cover nb" "same_holder (joined nl nb) nl" "lock_ok (joined nl nb)"
proof -
  show "cover (joined nl nb) = cover nl \<union> cover nb"
    using assms(1) by (auto simp: adjacent_def joined_def cover_def)
  show "same_holder (joined nl nb) nl" by (simp add: same_holder_def joined_def)
  have r: "fl_start nl < 2 ^ 63" "fl_start nb < 2 ^ 63" "fl_length nl \<noteq> 0 \<Longrightarrow> fend nl < 2 ^ 63"
    "fl_length nb \<noteq> 0 \<Longrightarrow> fend nb < 2 ^ 63"
    using lock_ok_range [OF assms(2)] lock_ok_range [OF assms(3)] by (auto simp: range_ok_def)
  have e: "fend (joined nl nb) = max (fend nl) (fend nb)" if "fl_length nl \<noteq> 0" "fl_length nb \<noteq> 0"
    using that assms(1) by (auto simp: adjacent_def joined_def)
  have j: "fl_length (joined nl nb) \<noteq> 0 \<Longrightarrow> fl_length nl \<noteq> 0 \<and> fl_length nb \<noteq> 0"
    "fl_start (joined nl nb) = min (fl_start nl) (fl_start nb)"
    by (simp_all add: joined_def split: if_splits)
  have "fl_start (joined nl nb) < 2 ^ 63" unfolding j(2) using r(1) by (rule min.strict_coboundedI1)
  moreover have "fend (joined nl nb) < 2 ^ 63" if "fl_length (joined nl nb) \<noteq> 0"
    unfolding e [OF conjunct1 conjunct2, OF j(1) j(1), OF that that] using r(3,4) j(1) [OF that] by simp
  ultimately have "range_ok (joined nl nb)" unfolding range_ok_def by blast
  moreover have "fl_type (joined nl nb) = fl_type nl" by (simp add: joined_def)
  ultimately show "lock_ok (joined nl nb)" using assms(2) by (simp add: lock_ok_def)
qed

lemma adjust_neighbor_joins:
  assumes "adjacent nl nb" "lock_ok nl" "lock_ok nb" "fl_type nb = fl_type nl"
  shows "adjust_neighbor (st, nl) (i, nb) = Some (erase_node st (i, nb), joined nl nb)"
proof -
  have w: "wadd (fl_start nb) (fl_length nb) = fend nb" if "fl_length nb \<noteq> 0"
    using that lock_ok_range [OF assms(3)] by (auto simp: range_ok_def intro: wadd_small)
  have w': "wadd (fl_start nl) (fl_length nl) = fend nl" if "fl_length nl \<noteq> 0"
    using that lock_ok_range [OF assms(2)] by (auto simp: range_ok_def intro: wadd_small)
  have w2: "wadd (fl_length nb) (fl_length nl) = fl_length nb + fl_length nl" if "fl_length nl \<noteq> 0" "fl_length nb \<noteq> 0"
    using that lock_ok_range [OF assms(2)] lock_ok_range [OF assms(3)] by (auto simp: range_ok_def intro: wadd_small)
  consider "fl_length nb \<noteq> 0" "fend nb = fl_start nl" | "fl_length nl \<noteq> 0" "fend nl = fl_start nb"
    using assms(1) by (auto simp: adjacent_def)
  then show ?thesis
  proof cases
    case 1
    then have "min (fl_start nl) (fl_start nb) = fl_start nb" by simp
    then show ?thesis
      using 1 w w2 assms(4) by (cases "fl_length nl = 0") (simp_all add: adjust_neighbor_def Let_def joined_def erase_node_def)
  next
    case 2
    then have "min (fl_start nl) (fl_start nb) = fl_start nl" "fend nb \<noteq> fl_start nl" by simp_all
    moreover have "nl\<lparr>fl_start := fl_start nl, fl_length := x\<rparr> = nl\<lparr>fl_length := x\<rparr>" for x by simp
    ultimately show ?thesis
      using 2 w w' w2 assms(4) by (cases "fl_length nb = 0") (simp_all add: adjust_neighbor_def Let_def joined_def erase_node_def)
  qed
qed

lemma adjust_neighbor_step:
  assumes "adj st nl {}" "nb \<in> set (held_locks st)" "filelock_owner_equal (snd nb) nl" "adjacent nl (snd nb)"
  obtains st' nl' where "adjust_neighbor (st, nl) nb = Some (st', nl')" "adj st' nl' {}" "room st nl {nb} st' nl'"
proof -
  have a: "flock_wf st" "lock_ok nl" using assms(1) by (auto simp: adj_def)
  have ok: "lock_ok (snd nb)" using flock_wf_parts(6) [OF a(1) assms(2)] .
  show thesis
  proof (cases "fl_type (snd nb) = fl_type nl")
    case True
    note j = joined_spec [OF assms(4) a(2) ok]
    show ?thesis
    proof (rule that)
      show "adjust_neighbor (st, nl) nb = Some (erase_node st nb, joined nl (snd nb))"
        using adjust_neighbor_joins [OF assms(4) a(2) ok True, of st "fst nb"] by simp
      show "adj (erase_node st nb) (joined nl (snd nb)) {}"
        using adj_merge(1) [OF assms(1-3) True j(2,1,3)] by simp
      show "room st nl {nb} (erase_node st nb) (joined nl (snd nb))"
        by (rule room_merge [OF assms(1-3) True j(2,1,3)])
    qed
  next
    case False
    then have "adjust_neighbor (st, nl) nb = Some (st, nl)"
      using held_count_drop_held [OF a(1) assms(2)] by (simp add: adjust_neighbor_def Let_def)
    moreover have "room st nl {nb} st nl" using room_refl [of st nl] by (auto simp: room_def)
    ultimately show ?thesis using that assms(1) by blast
  qed
qed

end
