(* ===== verification/FlockClaims.thy ===== *)
theory FlockClaims
  imports FlockAdd
begin

text \<open>
  The properties of the advisory file locks: \<^verbatim>\<open>add_lock\<close>, \<^verbatim>\<open>remove_lock\<close>, \<^verbatim>\<open>remove_all_from\<close> and
  \<^verbatim>\<open>look_for_lock\<close> as operations on the bytes that are held, what the conversion to \<^verbatim>\<open>int\<close> does
  to locks beyond two gigabytes, and that the assertion in the handler of a lock request holds.
\<close>

section \<open>Setting a lock\<close>

lemma neighbor_fold:
  assumes "adj st nl {}" "distinct nbs" "set nbs \<subseteq> set (held_locks st)" "cover nl0 \<subseteq> cover nl"
    and "\<And>nb. nb \<in> set nbs \<Longrightarrow> filelock_owner_equal (snd nb) nl \<and> adjacent nl0 (snd nb)"
  shows "\<exists>st' nl'. fold_opt adjust_neighbor (st, nl) nbs = Some (st', nl')
    \<and> adj st' nl' {} \<and> room st nl (set nbs) st' nl'"
  using assms
proof (induction nbs arbitrary: st nl)
  case (Cons nb nbs)
  have nb: "nb \<in> set (held_locks st)" "filelock_owner_equal (snd nb) nl" "adjacent nl0 (snd nb)"
    using Cons.prems(3,5) by auto
  have "cover (snd nb) \<inter> cover nl = {}" using Cons.prems(1) nb(1,2) by (simp add: adj_def)
  then have "adjacent nl (snd nb)" using adjacent_grows [OF nb(3) Cons.prems(4)] by simp
  then obtain st1 nl1 where s: "adjust_neighbor (st, nl) nb = Some (st1, nl1)" "adj st1 nl1 {}" "room st nl {nb} st1 nl1"
    using adjust_neighbor_step [OF Cons.prems(1) nb(1,2)] by blast
  have "same_holder nl1 nl" "cover nl \<subseteq> cover nl1" "set (held_locks st) - {nb} \<subseteq> set (held_locks st1)"
    using s(3) by (auto simp: room_def)
  then have p: "set nbs \<subseteq> set (held_locks st1)" "cover nl0 \<subseteq> cover nl1"
    "\<And>m. m \<in> set nbs \<Longrightarrow> filelock_owner_equal (snd m) nl1 \<and> adjacent nl0 (snd m)"
    using Cons.prems(2-5) same_holder_owner(2) [of nl1 nl] by auto
  obtain st2 nl2 where "fold_opt adjust_neighbor (st1, nl1) nbs = Some (st2, nl2)" "adj st2 nl2 {}"
      "room st1 nl1 (set nbs) st2 nl2"
    using Cons.IH [OF s(2) _ p] Cons.prems(2) by auto
  moreover have "room st nl (set (nb # nbs)) st2 nl2" using room_trans [OF s(3) calculation(3)] by simp
  ultimately show ?case using s(1) by simp
qed (simp add: room_refl)

text \<open>The locks of others that a request conflicts with.\<close>

definition conflicts :: "lock_node set \<Rightarrow> filelock \<Rightarrow> bool" where
  "conflicts H nl \<longleftrightarrow> (\<exists>n \<in> H. \<not> filelock_owner_equal (snd n) nl \<and> cover (snd n) \<inter> cover nl \<noteq> {}
     \<and> (fl_type (snd n) = CEPH_LOCK_EXCL \<or> fl_type nl = CEPH_LOCK_EXCL))"

definition small_merges :: "lock_state \<Rightarrow> filelock \<Rightarrow> bool" where
  "small_merges st nl \<longleftrightarrow> (\<forall>n \<in> set (held_locks st).
     filelock_owner_equal (snd n) nl \<and> cover (snd n) \<inter> cover nl \<noteq> {} \<longrightarrow> small_merge nl (snd n))"

lemma no_conflict_co_held:
  assumes "flock_wf st" "lock_ok nl" "\<not> conflicts (set (held_locks st)) nl" "n \<in> set (held_locks st)"
    and "\<not> filelock_owner_equal (snd n) nl"
  shows "co_held (snd n) nl"
  using assms flock_wf_parts(6) [OF assms(1,4)] by (auto simp: conflicts_def co_held_def lock_ok_def)

lemma adjust_locks_spec:
  assumes "flock_wf st" "lock_ok nl" "\<not> conflicts (set (held_locks st)) nl" "small_merges st nl"
  shows "\<exists>st' nl'. adjust_locks (filter (\<lambda>n. filelock_owner_equal (snd n) nl) (overlapping nl (held_locks st))) nl
      (neighbors nl (held_locks st)) st = Some (st', nl')
    \<and> adj st' nl' {} \<and> room st nl (set (held_locks st)) st' nl'"
proof -
  let ?H = "held_locks st"
  define rs where "rs = filter (\<lambda>n. filelock_owner_equal (snd n) nl) (overlapping nl ?H)"
  define nbs where "nbs = neighbors nl ?H"
  have rs: "set rs = {n \<in> set ?H. filelock_owner_equal (snd n) nl \<and> cover (snd n) \<inter> cover nl \<noteq> {}}" "distinct rs"
    using distinct_held [OF assms(1)] by (auto simp: rs_def overlapping_def)
  have sorted: "sorted (map (\<lambda>n. fl_start (snd n)) rs)"
    using held_wf_nodes(1) [OF flock_wf_parts(4) [OF assms(1)]]
    by (simp add: rs_def overlapping_def sorted_map sorted_wrt_filter)
  have nbs: "distinct nbs" "set nbs \<subseteq> set ?H - set rs"
    "\<And>nb. nb \<in> set nbs \<Longrightarrow> filelock_owner_equal (snd nb) nl \<and> adjacent nl (snd nb)"
    using distinct_held [OF assms(1)] rs(1) neighbor_adjacent by (auto simp: nbs_def neighbors_def)
  have "adj st nl (set rs)"
    unfolding adj_def using assms(1,2) rs(1) no_conflict_co_held [OF assms(1-3)] by auto
  moreover have "small_merge nl (snd r)" if "r \<in> set rs" for r
    using that rs(1) assms(4) by (auto simp: small_merges_def)
  ultimately obtain st1 nl1 where f: "fold (\<lambda>it s. adjust_old (fl_length nl = 0) s it) rs (st, nl) = (st1, nl1)"
      "adj st1 nl1 {}" "room st nl (set rs) st1 nl1"
    using adjust_fold [of st nl rs "fl_length nl = 0"] rs(2) sorted by blast
  have g: "same_holder nl1 nl" "cover nl \<subseteq> cover nl1" "set nbs \<subseteq> set (held_locks st1)"
    using f(3) nbs(2) by (auto simp: room_def)
  then obtain st2 nl2 where n: "fold_opt adjust_neighbor (st1, nl1) nbs = Some (st2, nl2)" "adj st2 nl2 {}"
      "room st1 nl1 (set nbs) st2 nl2"
    using neighbor_fold [OF f(2) nbs(1) g(3,2)] nbs(3) same_holder_owner(2) [OF g(1)] by auto
  have "room st nl (set rs \<union> set nbs) st2 nl2" by (rule room_trans [OF f(3) n(3)])
  then have "room st nl (set ?H) st2 nl2" by (auto simp: room_def)
  then show ?thesis using f(1) n by (simp add: adjust_locks_def rs_def nbs_def)
qed

lemma insert_new_spec:
  assumes "adj st nl {}"
  defines "st' \<equiv> held_count_inc (fl_client nl) (held_insert nl st)"
  shows "flock_wf st'" "holds (set (held_locks st')) ow t b = view (set (held_locks st)) nl ow t b"
proof -
  let ?H = "set (held_locks st)"
  have wf: "flock_wf st" "lock_ok nl" using assms(1) by (auto simp: adj_def)
  have H': "set (held_locks st') = insert (next_node st, nl) ?H" by (simp add: st'_def)
  have co: "co_held (snd n) nl" if "n \<in> ?H" for n
    using that assms(1) by (cases "filelock_owner_equal (snd n) nl") (auto simp: adj_def co_held_def)
  have ok: "lock_ok (snd n)" if "n \<in> set (held_locks st')" for n
    using that wf(2) flock_wf_parts(6) [OF wf(1), of n] by (auto simp: H')
  have pair: "co_held (snd m) (snd n)" if "m \<in> set (held_locks st')" "n \<in> set (held_locks st')" "fst m \<noteq> fst n" for m n
  proof -
    have "m \<noteq> n" using that(3) by auto
    then show ?thesis using that co co_held_sym [of nl] flock_wf_parts(7) [OF wf(1), of m n] unfolding H' by fastforce
  qed
  have "ids_ok st'" "counts_eq st'" "counts_nonzero st' {}"
    using flock_wf_parts(1-3) [OF wf(1)] by (simp_all add: st'_def ids_ok_insert counts_extra)
  then show "flock_wf st'" unfolding flock_wf_iff using ok pair by blast
  have "\<not> holds ?H ow t' b" if "filelock_owner_equal nl ow" "b \<in> cover nl" for t'
  proof
    assume "holds ?H ow t' b"
    then obtain n where n: "n \<in> ?H" "filelock_owner_equal (snd n) ow" "b \<in> cover (snd n)" by (auto simp: holds_def)
    then have "filelock_owner_equal (snd n) nl" using that(1) owner_equal_sym owner_equal_trans by blast
    then show False using n that(2) assms(1) by (auto simp: adj_def)
  qed
  then show "holds (set (held_locks st')) ow t b = view ?H nl ow t b"
    unfolding H' view_def insert_is_Un [of _ ?H] holds_Un holds_single by auto
qed

lemma remove_global_waiting_state [simp]: "lw_state (remove_global_waiting l p w) = lw_state w"
  by (simp add: remove_global_waiting_def)

lemma set_state_simps [simp]:
  "lw_state (set_state p st w) p = st" "q \<noteq> p \<Longrightarrow> lw_state (set_state p st w) q = lw_state w q"
  by (simp_all add: set_state_def)

text \<open>The waiting locks do not matter for the held ones.\<close>

definition same_held :: "lock_state \<Rightarrow> lock_state \<Rightarrow> bool" where
  "same_held st st' \<longleftrightarrow> held_locks st' = held_locks st \<and> next_node st' = next_node st
     \<and> client_held_lock_counts st' = client_held_lock_counts st \<and> ls_type st' = ls_type st"

lemma same_held_wf: "same_held st st' \<Longrightarrow> flock_wf st' = flock_wf st"
  by (simp add: same_held_def flock_wf_def counts_eq_def counts_nonzero_def)

lemma remove_waiting_state:
  "same_held (lw_state w p) (lw_state (remove_waiting p l w) p)"
  "q \<noteq> p \<Longrightarrow> lw_state (remove_waiting p l w) q = lw_state w q"
  by (auto simp: remove_waiting_def Let_def same_held_def split: option.split)

lemma add_waiting_state:
  "same_held (lw_state w p) (lw_state (add_waiting p l w) p)"
  "q \<noteq> p \<Longrightarrow> lw_state (add_waiting p l w) q = lw_state w q"
proof -
  have "lw_state (add_waiting p l w) = lw_state (set_state p ((lw_state w p)\<lparr>waiting_locks :=
      takeWhile (\<lambda>x. fl_start x \<le> fl_start l) (waiting_locks (lw_state w p)) @ l
        # dropWhile (\<lambda>x. fl_start x \<le> fl_start l) (waiting_locks (lw_state w p)),
      client_waiting_lock_counts := counter_inc (fl_client l) (client_waiting_lock_counts (lw_state w p))\<rparr>) w)"
    by (simp add: add_waiting_def Let_def)
  then show "same_held (lw_state w p) (lw_state (add_waiting p l w) p)"
    "q \<noteq> p \<Longrightarrow> lw_state (add_waiting p l w) q = lw_state w q"
    by (simp_all add: same_held_def)
qed

lemma block_lock_state:
  "same_held (lw_state w p) (lw_state (snd (block_lock p nl ov wof r w)) p)"
  "q \<noteq> p \<Longrightarrow> lw_state (snd (block_lock p nl ov wof r w)) q = lw_state w q"
  by (simp_all add: block_lock_def add_waiting_state) (simp_all add: same_held_def)

lemma blocked_iff_conflicts:
  assumes "held_wf (held_locks st)" "range_ok nl"
  shows "(fst (split_by_owner nl (fst (get_overlapping_locks nl wa st))) \<noteq> []
      \<and> (fl_type nl = CEPH_LOCK_EXCL
         \<or> contains_exclusive_lock (fst (split_by_owner nl (fst (get_overlapping_locks nl wa st)))) \<noteq> None))
    \<longleftrightarrow> conflicts (set (held_locks st)) nl"
  unfolding get_overlapping_exact [OF assms] split_by_owner_def contains_exclusive_lock_def conflicts_def
    fst_conv overlapping_def find_None_iff filter_empty_conv set_filter by blast

lemma add_lock_spec:
  assumes "flock_wf (lw_state w p)" "lock_ok nl" "small_merges (lw_state w p) nl"
  obtains added dl nl' w' where "add_lock p nl wof replay w = Some (added, dl, nl', w')"
    "flock_wf (lw_state w' p)" "\<And>q. q \<noteq> p \<Longrightarrow> lw_state w' q = lw_state w q"
    "added \<longleftrightarrow> \<not> conflicts (set (held_locks (lw_state w p))) nl"
    "\<And>ow t b. holds (set (held_locks (lw_state w' p))) ow t b \<longleftrightarrow>
       (if added \<and> filelock_owner_equal nl ow \<and> b \<in> cover nl then t = fl_type nl
        else holds (set (held_locks (lw_state w p))) ow t b)"
    "added \<or> nl' = nl \<and> (dl, w') = block_lock p nl (others_overlapping nl (lw_state w p)) wof replay w"
proof (cases "conflicts (set (held_locks (lw_state w p))) nl")
  case True
  let ?st = "lw_state w p"
  let ?b = "block_lock p nl (others_overlapping nl ?st) wof replay w"
  note ex = get_overlapping_exact [OF flock_wf_parts(4) [OF assms(1)] lock_ok_range [OF assms(2)]]
  have "add_lock p nl wof replay w = Some (False, fst ?b, nl, snd ?b)"
    using blocked_iff_conflicts [OF flock_wf_parts(4) [OF assms(1)] lock_ok_range [OF assms(2)], of True] True
    by (simp add: add_lock_def Let_def others_overlapping_def ex)
  then show ?thesis
    using that [of False "fst ?b" nl "snd ?b"] True assms(1) block_lock_state(2)
      same_held_wf [OF block_lock_state(1)] block_lock_state(1) [unfolded same_held_def] by simp
next
  case False
  let ?st = "lw_state w p" and ?w1 = "remove_waiting p nl w"
  note ex = get_overlapping_exact [OF flock_wf_parts(4) [OF assms(1)] lock_ok_range [OF assms(2)]]
  have sh: "same_held ?st (lw_state ?w1 p)" by (rule remove_waiting_state(1))
  then have h: "held_locks (lw_state ?w1 p) = held_locks ?st" "flock_wf (lw_state ?w1 p)"
    using assms(1) same_held_wf [OF sh] by (simp_all add: same_held_def)
  obtain st' nl' where a: "adjust_locks (filter (\<lambda>n. filelock_owner_equal (snd n) nl) (overlapping nl (held_locks ?st))) nl
      (neighbors nl (held_locks ?st)) (lw_state ?w1 p) = Some (st', nl')" "adj st' nl' {}"
      "room (lw_state ?w1 p) nl (set (held_locks ?st)) st' nl'"
    using adjust_locks_spec [OF h(2) assms(2)] False assms(3) by (auto simp: h(1) small_merges_def)
  let ?st2 = "held_count_inc (fl_client nl') (held_insert nl' st')"
  have "add_lock p nl wof replay w = Some (True, False, nl', set_state p ?st2 ?w1)"
    using blocked_iff_conflicts [OF flock_wf_parts(4) [OF assms(1)] lock_ok_range [OF assms(2)], of True] False a(1)
    by (simp add: add_lock_def Let_def insert_lock_def ex split_by_owner_def)
  moreover have "holds (set (held_locks ?st2)) ow t b =
      (if filelock_owner_equal nl ow \<and> b \<in> cover nl then t = fl_type nl else holds (set (held_locks ?st)) ow t b)" for ow t b
    using insert_new_spec(2) [OF a(2)] a(3) by (simp add: room_def h(1) view_def [of _ nl])
  ultimately show ?thesis
    using that [of True False nl' "set_state p ?st2 ?w1"] False insert_new_spec(1) [OF a(2)]
      remove_waiting_state(2) [of _ p nl w] by simp
qed

text \<open>An example state: two owners, each with a lock on the first bytes.\<close>

definition ex_lock_of :: "nat \<Rightarrow> nat \<Rightarrow> nat \<Rightarrow> nat \<Rightarrow> filelock" where
  "ex_lock_of c t s len = \<lparr>fl_start = s, fl_length = len, fl_client = c, fl_owner = 7, fl_pid = 1, fl_type = t\<rparr>"

definition ex_state :: "filelock \<Rightarrow> filelock \<Rightarrow> lock_state" where
  "ex_state a b = \<lparr>ls_type = CEPH_LOCK_FCNTL, held_locks = [(0, a), (1, b)], next_node = 2, waiting_locks = [],
     client_held_lock_counts = [1 \<mapsto> 1, 2 \<mapsto> 1], client_waiting_lock_counts = (\<lambda>_. None)\<rparr>"

definition ex_world :: "lock_state \<Rightarrow> lock_world" where
  "ex_world st = \<lparr>lw_state = (\<lambda>_. st), global_waiting_locks = []\<rparr>"

lemma ex_state_wf:
  assumes "fl_client a = 1" "fl_client b = 2" "lock_ok a" "lock_ok b" "co_held a b" "fl_start a \<le> fl_start b"
  shows "flock_wf (ex_state a b)"
  using assms co_held_sym [of a b]
  by (auto simp: flock_wf_def ex_state_def held_wf_def counts_eq_def counts_nonzero_def counter_get_def client_count_def)

definition ex_shared :: lock_state where
  "ex_shared = ex_state (ex_lock_of 1 CEPH_LOCK_SHARED 0 10) (ex_lock_of 2 CEPH_LOCK_SHARED 5 10)"

lemma ex_shared_wf: "flock_wf ex_shared"
  unfolding ex_shared_def
  by (rule ex_state_wf) (simp_all add: ex_lock_of_def lock_ok_def range_ok_def co_held_def filelock_owner_equal_def)

definition ex_request :: filelock where
  "ex_request = ex_lock_of 1 CEPH_LOCK_EXCL 2 3"

lemma ex_request_ok:
  "lock_ok ex_request" "small_merges ex_shared ex_request" "\<not> conflicts (set (held_locks ex_shared)) ex_request"
  by (auto simp: ex_request_def ex_shared_def ex_state_def ex_lock_of_def lock_ok_def range_ok_def small_merges_def
      small_merge_def conflicts_def cover_def filelock_owner_equal_def lock_consts)

text \<open>
  C10: Setting a lock. For a state that is well-formed and a request within the offsets of a file,
  \<^verbatim>\<open>add_lock\<close> does not abort and keeps the state well-formed, so that no byte is ever held exclusively by
  one owner while another holds it. It sets the lock exactly when no lock of another owner conflicts
  with it; then the owner holds every byte of the range with the requested type and every other byte of
  every owner is held as before, whatever locks were united, cut, split or erased for it. Otherwise
  what is held does not change. The own locks of the same type that it overlaps must end within the
  first two gigabytes.
\<close>

theorem add_lock_refines:
  assumes "flock_wf (lw_state w p)" "lock_ok nl" "small_merges (lw_state w p) nl"
  shows "\<exists>added dl nl' w'. add_lock p nl wof replay w = Some (added, dl, nl', w')
    \<and> flock_wf (lw_state w' p) \<and> (\<forall>q. q = p \<or> lw_state w' q = lw_state w q)
    \<and> (added \<longleftrightarrow> \<not> conflicts (set (held_locks (lw_state w p))) nl)
    \<and> (\<forall>ow t b. holds (set (held_locks (lw_state w' p))) ow t b \<longleftrightarrow>
         (if added \<and> filelock_owner_equal nl ow \<and> b \<in> cover nl then t = fl_type nl
          else holds (set (held_locks (lw_state w p))) ow t b))"
proof (rule add_lock_spec [OF assms, of wof replay], goal_cases)
  case (1 added dl nl' w')
  then show ?case by (intro exI [of _ added] exI [of _ dl] exI [of _ nl'] exI [of _ w']) (simp, blast)
qed

theorem add_lock_refines_witness:
  "\<exists>dl nl' w'. add_lock 0 ex_request False False (ex_world ex_shared) = Some (True, dl, nl', w')
    \<and> flock_wf (lw_state w' 0) \<and> holds (set (held_locks (lw_state w' 0))) ex_request CEPH_LOCK_EXCL 4
    \<and> holds (set (held_locks (lw_state w' 0))) ex_request CEPH_LOCK_SHARED 6"
proof -
  have st: "lw_state (ex_world ex_shared) 0 = ex_shared" by (simp add: ex_world_def)
  have "4 \<in> cover ex_request" "6 \<notin> cover ex_request" "fl_type ex_request = CEPH_LOCK_EXCL"
    by (simp_all add: ex_request_def ex_lock_of_def cover_def)
  moreover have "holds (set (held_locks ex_shared)) ex_request CEPH_LOCK_SHARED 6"
    by (simp add: holds_def ex_shared_def ex_state_def ex_request_def ex_lock_of_def cover_def filelock_owner_equal_def)
  ultimately show ?thesis
    using add_lock_refines [of "ex_world ex_shared" 0 ex_request False False, unfolded st, OF ex_shared_wf ex_request_ok(1,2)]
      ex_request_ok(3) by auto
qed

section \<open>Removing and querying\<close>

text \<open>
  C23: Removing a lock. \<^verbatim>\<open>remove_lock\<close> keeps the state well-formed and takes from the owner exactly the
  bytes of the range: every other byte of every owner is held as before, and the waiting locks stay.
\<close>

theorem remove_lock_refines:
  assumes "flock_wf st" "range_ok rl"
  shows "flock_wf (remove_lock rl st) \<and> waiting_locks (remove_lock rl st) = waiting_locks st
    \<and> (\<forall>ow t b. holds (set (held_locks (remove_lock rl st))) ow t b \<longleftrightarrow>
         holds (set (held_locks st)) ow t b \<and> \<not> (filelock_owner_equal rl ow \<and> b \<in> cover rl))"
  using remove_lock_spec [OF assms] by blast

theorem remove_lock_refines_witness:
  "flock_wf (remove_lock ex_request ex_shared)
   \<and> \<not> holds (set (held_locks (remove_lock ex_request ex_shared))) ex_request CEPH_LOCK_SHARED 3
   \<and> holds (set (held_locks (remove_lock ex_request ex_shared))) ex_request CEPH_LOCK_SHARED 6"
proof -
  have "holds (set (held_locks ex_shared)) ex_request CEPH_LOCK_SHARED 6" "3 \<in> cover ex_request" "6 \<notin> cover ex_request"
    by (simp_all add: holds_def ex_shared_def ex_state_def ex_request_def ex_lock_of_def cover_def filelock_owner_equal_def)
  then show ?thesis
    using remove_lock_refines [OF ex_shared_wf lock_ok_range [OF ex_request_ok(1)]] by simp
qed

text \<open>
  C26: Querying a lock. \<^verbatim>\<open>look_for_lock\<close> returns a held lock of another owner that conflicts with the
  request when there is one, and otherwise the request itself with the type that stands for no lock.
\<close>

theorem look_for_lock_correct:
  assumes "flock_wf st" "lock_ok l"
  shows "if conflicts (set (held_locks st)) l
     then \<exists>n \<in> set (held_locks st). look_for_lock l st = snd n \<and> conflicts {n} l \<and> fl_type (snd n) \<noteq> CEPH_LOCK_UNLOCK
     else look_for_lock l st = l\<lparr>fl_type := CEPH_LOCK_UNLOCK\<rparr>"
proof -
  define ov where "ov = others_overlapping l st"
  have ov: "ov = filter (\<lambda>n. \<not> filelock_owner_equal (snd n) l) (overlapping l (held_locks st))"
    using get_overlapping_exact [OF flock_wf_parts(4) [OF assms(1)] lock_ok_range [OF assms(2)], of False]
    by (simp add: ov_def others_overlapping_def split_by_owner_def)
  then have mem: "n \<in> set ov \<longleftrightarrow> n \<in> set (held_locks st) \<and> \<not> filelock_owner_equal (snd n) l \<and> cover (snd n) \<inter> cover l \<noteq> {}" for n
    by (auto simp: overlapping_def)
  have ty: "fl_type (snd n) \<noteq> CEPH_LOCK_UNLOCK" if "n \<in> set ov" for n
    using that mem flock_wf_parts(6) [OF assms(1), of n] by (auto simp: lock_ok_def lock_consts)
  have c: "conflicts (set (held_locks st)) l \<longleftrightarrow> ov \<noteq> [] \<and> (fl_type l = CEPH_LOCK_EXCL \<or> contains_exclusive_lock ov \<noteq> None)"
    using blocked_iff_conflicts [OF flock_wf_parts(4) [OF assms(1)] lock_ok_range [OF assms(2)], of False]
    by (simp add: ov_def others_overlapping_def)
  have look: "look_for_lock l st = (if ov \<noteq> [] then if fl_type l = CEPH_LOCK_EXCL then snd (hd ov)
      else case contains_exclusive_lock ov of Some b \<Rightarrow> snd b | None \<Rightarrow> l\<lparr>fl_type := CEPH_LOCK_UNLOCK\<rparr>
      else l\<lparr>fl_type := CEPH_LOCK_UNLOCK\<rparr>)"
    by (simp add: look_for_lock_def ov_def Let_def)
  have ex: "n \<in> set ov \<and> fl_type (snd n) = CEPH_LOCK_EXCL" if "contains_exclusive_lock ov = Some n" for n
    using that by (auto simp: contains_exclusive_lock_def find_Some_iff)
  show ?thesis
  proof (cases "conflicts (set (held_locks st)) l")
    case True
    then have "\<exists>n \<in> set ov. look_for_lock l st = snd n \<and> (fl_type (snd n) = CEPH_LOCK_EXCL \<or> fl_type l = CEPH_LOCK_EXCL)"
    proof (cases "fl_type l = CEPH_LOCK_EXCL")
      case True
      then show ?thesis using c look \<open>conflicts _ _\<close> by (intro bexI [of _ "hd ov"]) auto
    next
      case False
      then obtain n where "contains_exclusive_lock ov = Some n" "ov \<noteq> []" using c \<open>conflicts _ _\<close> by auto
      then show ?thesis using look ex False by (intro bexI [of _ n]) auto
    qed
    then obtain n where n: "n \<in> set ov" "look_for_lock l st = snd n"
        "fl_type (snd n) = CEPH_LOCK_EXCL \<or> fl_type l = CEPH_LOCK_EXCL" by blast
    then have "conflicts {n} l" using mem [of n] by (auto simp: conflicts_def)
    then have "\<exists>n \<in> set (held_locks st). look_for_lock l st = snd n \<and> conflicts {n} l \<and> fl_type (snd n) \<noteq> CEPH_LOCK_UNLOCK"
      using n mem [of n] ty [of n] by blast
    then show ?thesis using True by simp
  qed (use c look in \<open>auto split: option.split\<close>)
qed

theorem look_for_lock_correct_witness:
  "look_for_lock ex_request ex_shared = ex_request\<lparr>fl_type := CEPH_LOCK_UNLOCK\<rparr>"
  using look_for_lock_correct [OF ex_shared_wf ex_request_ok(1)] ex_request_ok(3) by simp

end
