(* ===== verification/FlockRequests.thy ===== *)
theory FlockRequests
  imports FlockClaims
begin

text \<open>
  Lock requests as the server handles them, the locks of a client that goes away, and the effect of
  the \<^verbatim>\<open>int\<close> in \<^verbatim>\<open>adjust_locks\<close>.
\<close>

section \<open>Locks beyond the range of int\<close>

definition ex_far :: lock_state where
  "ex_far = ex_state (ex_lock_of 1 CEPH_LOCK_EXCL 0 10) (ex_lock_of 2 CEPH_LOCK_EXCL 4294967296 10)"

definition ex_far_request :: filelock where
  "ex_far_request = ex_lock_of 1 CEPH_LOCK_EXCL 5 4294967291"

lemma ex_far_wf: "flock_wf ex_far"
  unfolding ex_far_def
  by (rule ex_state_wf) (auto simp: ex_lock_of_def lock_ok_def range_ok_def co_held_def cover_def)

lemma ex_far_request_ok: "lock_ok ex_far_request" "\<not> conflicts (set (held_locks ex_far)) ex_far_request"
  by (auto simp: ex_far_request_def ex_far_def ex_state_def ex_lock_of_def lock_ok_def range_ok_def
      conflicts_def cover_def filelock_owner_equal_def)

lemma ex_far_add:
  "add_lock 0 ex_far_request False False (ex_world ex_far) =
     Some (True, False, ex_lock_of 1 CEPH_LOCK_EXCL 0 0,
       set_state 0 (ex_far\<lparr>held_locks := [(2, ex_lock_of 1 CEPH_LOCK_EXCL 0 0), (1, ex_lock_of 2 CEPH_LOCK_EXCL 4294967296 10)],
         next_node := 3, client_held_lock_counts := (client_held_lock_counts ex_far)(1 := None, 1 \<mapsto> 1)\<rparr>) (ex_world ex_far))"
  by (simp add: add_lock_def get_overlapping_locks_def get_last_before_def ex_far_def ex_far_request_def
      ex_state_def ex_lock_of_def ex_world_def share_space_def share_space_range_def neighbor_check_lock_def
      UINT64_MAX_def wadd_def wsub_def through_int_def filelock_owner_equal_def split_by_owner_def lock_consts
      insert_lock_def remove_waiting_def waiting_find_def adjust_locks_def adjust_old_def set_state_def
      held_erase_def held_count_dec_def held_count_drop_def held_count_inc_def held_insert_def
      counter_dec_def counter_drop_def counter_inc_def counter_get_def Let_def)


section \<open>Requests\<close>

text \<open>A lock that was just added to the waiting ones is found among them.\<close>

lemma waiting_scan_found:
  assumes "\<And>x. x \<in> set xs \<Longrightarrow> fl_start x \<le> fl_start l"
  shows "waiting_scan l a (xs @ l # ys) \<noteq> None"
  using assms by (induction xs arbitrary: a) (auto simp: not_less)

lemma is_waiting_added:
  "is_waiting l (lw_state (add_waiting p l w) p)"
proof -
  let ?ws = "waiting_locks (lw_state w p)"
  define xs where "xs = takeWhile (\<lambda>x. fl_start x \<le> fl_start l) ?ws"
  define ys where "ys = dropWhile (\<lambda>x. fl_start x \<le> fl_start l) ?ws"
  have le: "fl_start x \<le> fl_start l" if "x \<in> set xs" for x using that set_takeWhileD unfolding xs_def by fastforce
  have ws: "waiting_locks (lw_state (add_waiting p l w) p) = xs @ l # ys"
    by (simp add: add_waiting_def Let_def xs_def ys_def)
  define d where "d = dropWhile (\<lambda>x. fl_start x < fl_start l) xs"
  have drop: "dropWhile (\<lambda>x. fl_start x < fl_start l) (xs @ l # ys) = d @ l # ys"
    unfolding d_def by (induction xs) auto
  have d: "fl_start x \<le> fl_start l" if "x \<in> set d" for x using that le set_dropWhileD unfolding d_def by fastforce
  have "\<not> fl_start (hd d) < fl_start l" if "d \<noteq> []" using that hd_dropWhile unfolding d_def by blast
  then have "fl_start (hd (d @ l # ys)) = fl_start l" using d [of "hd d"] by (cases d) auto
  then show ?thesis
    unfolding is_waiting_def waiting_find_def ws drop
    using waiting_scan_found [of d l _ ys] d by (cases "d @ l # ys") auto
qed

lemma block_lock_waits:
  assumes "(dl, w') = block_lock p nl ov True replay w" "\<not> dl" "replay \<Longrightarrow> is_waiting nl (lw_state w p)"
  shows "is_waiting nl (lw_state w' p)"
  using assms is_waiting_added by (auto simp: block_lock_def split: if_splits)



end
