(* ===== verification/FlockDeadlock.thy ===== *)
theory FlockDeadlock
  imports FlockClaims "HOL-Library.Product_Lexorder"
begin

text \<open>
  \<^verbatim>\<open>is_deadlock\<close> against the graph of who waits for whom: the comparison of locks is that of a key,
  the search of the global map finds every waiting lock of an owner, and the recursion finds
  exactly the circles of at most six owners.
\<close>

section \<open>The order of locks\<close>

definition owner_id :: "filelock \<Rightarrow> nat \<times> nat \<times> nat" where
  "owner_id l = (fl_client l, fl_owner l, if fl_owner l div 2 ^ 63 mod 2 = 1 then 0 else fl_pid l)"

definition lock_id :: "filelock \<Rightarrow> (nat \<times> nat \<times> nat) \<times> nat \<times> nat \<times> nat" where
  "lock_id l = (owner_id l, fl_start l, fl_length l, fl_type l)"

lemma owner_id_key [simp]: "owner_id (owner_key l) = owner_id l"
  by (simp add: owner_id_def owner_key_def)

lemma owner_equal_id: "filelock_owner_equal l r \<longleftrightarrow> owner_id l = owner_id r"
  by (auto simp: filelock_owner_equal_def owner_id_def)

lemma owner_compare_id:
  "filelock_owner_compare l r = (if owner_id l = owner_id r then 0 else if owner_id l < owner_id r then - 1 else 1)"
  unfolding filelock_owner_compare_def owner_id_def by (auto simp: less_prod_def')

lemma compare_id:
  "filelock_compare l r = (if lock_id l = lock_id r then 0 else if lock_id l < lock_id r then - 1 else 1)"
  unfolding filelock_compare_def Let_def owner_compare_id lock_id_def by (auto simp: less_prod_def')

lemma compare_less: "filelock_compare l r < 0 \<longleftrightarrow> lock_id l < lock_id r"
  by (simp add: compare_id)

lemma compare_zero: "filelock_compare l r = 0 \<longleftrightarrow> lock_id l = lock_id r"
  by (simp add: compare_id)

text \<open>The global map is in the order of its keys.\<close>

definition global_sorted :: "lock_world \<Rightarrow> bool" where
  "global_sorted w \<longleftrightarrow> sorted (map (\<lambda>e. lock_id (fst e)) (global_waiting_locks w))"

lemma takeWhile_sorted:
  fixes f :: "'a \<Rightarrow> 'k :: linorder" and g :: "'k \<Rightarrow> 'g :: linorder"
  assumes "sorted (map f xs)" "mono g" "\<And>x. x \<in> set xs \<Longrightarrow> c \<le> g (f x)"
  shows "set (takeWhile (\<lambda>x. g (f x) = c) xs) = {x \<in> set xs. g (f x) = c}"
  using assms
proof (induction xs)
  case (Cons x xs)
  have "y \<in> set xs \<Longrightarrow> g (f x) \<le> g (f y)" for y using Cons.prems(1,2) by (auto simp: mono_def)
  then show ?case using Cons by (fastforce simp: order.antisym)
qed simp

lemma dropWhile_sorted:
  fixes f :: "'a \<Rightarrow> 'k :: linorder"
  assumes "sorted (map f xs)"
  shows "set (dropWhile (\<lambda>x. f x < c) xs) = {x \<in> set xs. c \<le> f x}"
  using assms by (induction xs) auto

lemma lex_least: "((a :: 'a :: linorder), 0 :: nat, 0 :: nat, 0 :: nat) \<le> p \<longleftrightarrow> a \<le> fst p"
  by (cases p) (auto simp: less_eq_prod_def)

lemma owner_waits_all:
  assumes "global_sorted w"
  shows "set (owner_waits (owner_key ow) (global_waiting_locks w)) =
    {e \<in> set (global_waiting_locks w). filelock_owner_equal (fst e) ow}"
proof -
  let ?g = "global_waiting_locks w" and ?f = "\<lambda>e::filelock \<times> nat. lock_id (fst e)"
  define d where "d = dropWhile (\<lambda>e. ?f e < lock_id (owner_key ow)) ?g"
  have key: "lock_id (owner_key ow) = (owner_id ow, 0, 0, 0)" by (simp add: lock_id_def owner_id_def owner_key_def)
  have d: "set d = {e \<in> set ?g. lock_id (owner_key ow) \<le> ?f e}"
    using dropWhile_sorted [of ?f ?g] assms by (simp add: d_def global_sorted_def)
  have ge: "lock_id (owner_key ow) \<le> ?f e \<longleftrightarrow> owner_id ow \<le> fst (?f e)" for e
    unfolding key by (rule lex_least)
  have "sorted (map ?f d)"
    using assms unfolding d_def global_sorted_def
    by (metis map_append sorted_append takeWhile_dropWhile_id)
  moreover have "mono (fst :: (nat \<times> nat \<times> nat) \<times> nat \<times> nat \<times> nat \<Rightarrow> _)" 
    by (rule monoI) (metis fst_conv less_eq_prod_simp nless_le prod.collapse)
  ultimately have "set (takeWhile (\<lambda>e. fst (?f e) = owner_id ow) d) = {e \<in> set d. fst (?f e) = owner_id ow}"
    using takeWhile_sorted [of ?f d fst "owner_id ow"] d ge by auto
  moreover have "filelock_owner_equal (fst e) (owner_key ow) \<longleftrightarrow> fst (?f e) = owner_id ow" for e
    by (simp add: owner_equal_id lock_id_def owner_id_def owner_key_def)
  moreover have "filelock_owner_equal (fst e) ow \<longleftrightarrow> fst (?f e) = owner_id ow" for e
    by (simp add: owner_equal_id lock_id_def)
  ultimately show ?thesis using d ge by (auto simp: owner_waits_def compare_less d_def)
qed

lemma owner_set_insert_mem:
  "\<exists>x \<in> set (owner_set_insert l os). lock_id x = lock_id l"
  "set os \<subseteq> set (owner_set_insert l os)" "set (owner_set_insert l os) \<subseteq> insert l (set os)"
proof -
  define a where "a = takeWhile (\<lambda>x. filelock_compare x l < 0) os"
  define b where "b = dropWhile (\<lambda>x. filelock_compare x l < 0) os"
  have os: "os = a @ b" by (simp add: a_def b_def)
  have ins: "owner_set_insert l os = (if b \<noteq> [] \<and> filelock_compare (hd b) l = 0 then os else a @ l # b)"
    by (simp add: owner_set_insert_def Let_def a_def b_def)
  show "set os \<subseteq> set (owner_set_insert l os)" "set (owner_set_insert l os) \<subseteq> insert l (set os)"
    unfolding ins using os by auto
  show "\<exists>x \<in> set (owner_set_insert l os). lock_id x = lock_id l"
  proof (cases "b \<noteq> [] \<and> filelock_compare (hd b) l = 0")
    case True
    then have "hd b \<in> set os" "lock_id (hd b) = lock_id l" using os by (auto simp: compare_zero)
    then show ?thesis unfolding ins using True by auto
  next
    case False
    then have "owner_set_insert l os = a @ l # b" unfolding ins by presburger
    then show ?thesis by simp
  qed
qed

lemma lock_owners_mem:
  "(\<forall>c \<in> set cs. \<exists>ow \<in> set (lock_owners cs). owner_id ow = owner_id c)"
  "\<And>ow. ow \<in> set (lock_owners cs) \<Longrightarrow> \<exists>c \<in> set cs. ow = owner_key c"
proof -
  have k: "lock_id x = lock_id (owner_key c) \<Longrightarrow> owner_id x = owner_id c" for x c
    by (simp add: lock_id_def)
  have step: "set os \<subseteq> set (fold (\<lambda>l. owner_set_insert (owner_key l)) cs os)
    \<and> (\<forall>c \<in> set cs. \<exists>ow \<in> set (fold (\<lambda>l. owner_set_insert (owner_key l)) cs os). owner_id ow = owner_id c)
    \<and> set (fold (\<lambda>l. owner_set_insert (owner_key l)) cs os) \<subseteq> set os \<union> owner_key ` set cs" for os
  proof (induction cs arbitrary: os)
    case (Cons c cs)
    let ?os = "owner_set_insert (owner_key c) os"
    note m = owner_set_insert_mem(1) [of "owner_key c" os] owner_set_insert_mem(2) [of os "owner_key c"]
      owner_set_insert_mem(3) [of "owner_key c" os]
    have "\<exists>x \<in> set ?os. owner_id x = owner_id c" using m(1) k by blast
    then show ?case using Cons [of ?os] m(2,3) by auto
  qed simp
  show "\<forall>c \<in> set cs. \<exists>ow \<in> set (lock_owners cs). owner_id ow = owner_id c"
    "\<And>ow. ow \<in> set (lock_owners cs) \<Longrightarrow> \<exists>c \<in> set cs. ow = owner_key c"
    using step [of "[]"] unfolding lock_owners_def by auto
qed

section \<open>Who waits for whom\<close>

text \<open>A held lock of another owner that keeps a request from being granted.\<close>

definition blocked_by :: "lock_state \<Rightarrow> filelock \<Rightarrow> filelock \<Rightarrow> bool" where
  "blocked_by st l c \<longleftrightarrow> c \<in> snd ` set (held_locks st) \<and> \<not> filelock_owner_equal c l \<and> cover c \<inter> cover l \<noteq> {}
     \<and> \<not> (fl_type l = CEPH_LOCK_SHARED \<and> fl_type c = CEPH_LOCK_SHARED)"

text \<open>The owner of \<open>a\<close> waits, on some inode, for a request that \<open>c\<close> blocks.\<close>

definition waits_on :: "lock_world \<Rightarrow> filelock \<Rightarrow> filelock \<Rightarrow> bool" where
  "waits_on w a c \<longleftrightarrow> (\<exists>e \<in> set (global_waiting_locks w). filelock_owner_equal (fst e) a \<and> blocked_by (lw_state w (snd e)) (fst e) c)"

text \<open>From \<open>a\<close> one comes to the owner of \<open>b\<close> in \<open>k\<close> steps.\<close>

fun reaches :: "lock_world \<Rightarrow> nat \<Rightarrow> filelock \<Rightarrow> filelock \<Rightarrow> bool" where
  "reaches w 0 a b = filelock_owner_equal a b"
| "reaches w (Suc k) a b = (\<exists>c. waits_on w a c \<and> reaches w k c b)"

lemma waits_on_owner: "filelock_owner_equal a a' \<Longrightarrow> waits_on w a c = waits_on w a' c"
  unfolding waits_on_def owner_equal_id by simp

lemma deadlock_conflicts_set:
  assumes "flock_wf st" "range_ok l"
  shows "set (deadlock_conflicts l (others_overlapping l st)) = {c. blocked_by st l c}"
  using get_overlapping_exact [OF flock_wf_parts(4) [OF assms(1)] assms(2), of False]
  by (auto simp: deadlock_conflicts_def others_overlapping_def split_by_owner_def overlapping_def blocked_by_def)

definition waiting_ok :: "lock_world \<Rightarrow> bool" where
  "waiting_ok w \<longleftrightarrow> global_sorted w
     \<and> (\<forall>e \<in> set (global_waiting_locks w). range_ok (fst e) \<and> flock_wf (lw_state w (snd e)))"

text \<open>One level of the search: some waiting lock of an owner that blocks the request.\<close>

lemma search_level:
  assumes "waiting_ok w"
  shows "list_ex (\<lambda>ow. list_ex P (owner_waits ow (global_waiting_locks w))) (lock_owners cs) \<longleftrightarrow>
    (\<exists>c \<in> set cs. \<exists>e \<in> set (global_waiting_locks w). filelock_owner_equal (fst e) c \<and> P e)" (is "?L \<longleftrightarrow> ?R")
proof
  have g: "global_sorted w" using assms by (simp add: waiting_ok_def)
  show "?L \<Longrightarrow> ?R"
    using lock_owners_mem(2) [of _ cs] owner_waits_all [OF g] by (fastforce simp: list_ex_iff)
  assume ?R
  then obtain c e where ce: "c \<in> set cs" "e \<in> set (global_waiting_locks w)" "filelock_owner_equal (fst e) c" "P e" by blast
  obtain ow where ow: "ow \<in> set (lock_owners cs)" "owner_id ow = owner_id c" using lock_owners_mem(1) [of cs] ce(1) by blast
  obtain c' where c': "ow = owner_key c'" using lock_owners_mem(2) [OF ow(1)] by blast
  then have "filelock_owner_equal (fst e) c'" using ce(3) ow(2) by (simp add: owner_equal_id)
  then have "e \<in> set (owner_waits ow (global_waiting_locks w))" using owner_waits_all [OF g, of c'] ce(2) c' by simp
  then show ?L using ow(1) ce(4) by (auto simp: list_ex_iff)
qed

lemma wait_conflicts:
  assumes "waiting_ok w" "e \<in> set (global_waiting_locks w)"
  shows "set (deadlock_conflicts (fst e) (others_overlapping (fst e) (lw_state w (snd e)))) =
      {c. blocked_by (lw_state w (snd e)) (fst e) c}"
    and "blocked_by (lw_state w (snd e)) (fst e) d \<Longrightarrow> others_overlapping (fst e) (lw_state w (snd e)) \<noteq> []"
proof -
  show s: "set (deadlock_conflicts (fst e) (others_overlapping (fst e) (lw_state w (snd e)))) =
      {c. blocked_by (lw_state w (snd e)) (fst e) c}"
    using assms by (intro deadlock_conflicts_set) (auto simp: waiting_ok_def)
  show "blocked_by (lw_state w (snd e)) (fst e) d \<Longrightarrow> others_overlapping (fst e) (lw_state w (snd e)) \<noteq> []"
    using s by (auto simp: deadlock_conflicts_def)
qed

lemma is_deadlock_at_exact:
  assumes "waiting_ok w"
  shows "is_deadlock_at n w CEPH_LOCK_FCNTL fl ov (Some f) \<longleftrightarrow>
    (\<exists>k \<le> n. \<exists>c \<in> set (deadlock_conflicts fl ov). reaches w k c f)"
proof (induction n arbitrary: fl ov)
  case 0
  then show ?case by (auto simp: list_ex_iff owner_equal_sym)
next
  case (Suc n)
  let ?cs = "deadlock_conflicts fl ov"
  have sub: "(others_overlapping (fst e) (lw_state w (snd e)) \<noteq> []
       \<and> is_deadlock_at n w CEPH_LOCK_FCNTL (fst e) (others_overlapping (fst e) (lw_state w (snd e))) (Some f))
     \<longleftrightarrow> (\<exists>k \<le> n. \<exists>d. blocked_by (lw_state w (snd e)) (fst e) d \<and> reaches w k d f)"
    if "e \<in> set (global_waiting_locks w)" for e
    unfolding Suc.IH wait_conflicts(1) [OF assms that] using wait_conflicts(2) [OF assms that] by blast
  have "is_deadlock_at (Suc n) w CEPH_LOCK_FCNTL fl ov (Some f) \<longleftrightarrow>
      (\<exists>c \<in> set ?cs. filelock_owner_equal c f)
      \<or> (\<exists>c \<in> set ?cs. \<exists>e \<in> set (global_waiting_locks w). filelock_owner_equal (fst e) c
           \<and> (\<exists>k \<le> n. \<exists>d. blocked_by (lw_state w (snd e)) (fst e) d \<and> reaches w k d f))"
    using search_level [OF assms] sub by (auto simp: list_ex_iff owner_equal_sym [of f] Let_def cong: conj_cong)
  also have "\<dots> \<longleftrightarrow> (\<exists>c \<in> set ?cs. reaches w 0 c f) \<or> (\<exists>k \<le> n. \<exists>c \<in> set ?cs. reaches w (Suc k) c f)"
    by (simp add: waits_on_def) blast
  also have "\<dots> \<longleftrightarrow> (\<exists>k \<le> Suc n. \<exists>c \<in> set ?cs. reaches w k c f)"
    by (metis Suc_le_mono le0 not0_implies_Suc)
  finally show ?case .
qed

text \<open>
  C11: Deadlock detection is exact up to its depth. For well-formed lock states, \<^verbatim>\<open>is_deadlock\<close> reports a
  deadlock for a POSIX lock request that is blocked exactly when one of the owners that block it comes
  back to the requesting owner in at most five steps of waiting, across all inodes.
\<close>

theorem is_deadlock_exact:
  assumes "waiting_ok w" "flock_wf (lw_state w p)" "range_ok fl" "ls_type (lw_state w p) = CEPH_LOCK_FCNTL"
  shows "is_deadlock p fl (others_overlapping fl (lw_state w p)) w \<longleftrightarrow>
    (\<exists>k \<le> MAX_DEADLK_DEPTH. \<exists>c. blocked_by (lw_state w p) fl c \<and> reaches w k c fl)"
proof -
  have r: "reaches w (Suc k) c fl \<longleftrightarrow> (\<exists>e \<in> set (global_waiting_locks w). filelock_owner_equal (fst e) c
      \<and> (\<exists>d. blocked_by (lw_state w (snd e)) (fst e) d \<and> reaches w k d fl))" for k c
    by (auto simp: waits_on_def)
  have no: "blocked_by (lw_state w p) fl c \<Longrightarrow> \<not> reaches w 0 c fl" for c by (simp add: blocked_by_def)
  have five: "(\<exists>k \<le> MAX_DEADLK_DEPTH. \<exists>c. blocked_by (lw_state w p) fl c \<and> reaches w k c fl) \<longleftrightarrow>
      (\<exists>k \<le> 4. \<exists>c. blocked_by (lw_state w p) fl c \<and> reaches w (Suc k) c fl)"
    unfolding MAX_DEADLK_DEPTH_def using no by (metis Suc_le_mono not0_implies_Suc numeral_eq_Suc pred_numeral_simps(3))
  have sub: "(others_overlapping (fst e) (lw_state w (snd e)) \<noteq> []
       \<and> is_deadlock_at 4 w CEPH_LOCK_FCNTL (fst e) (others_overlapping (fst e) (lw_state w (snd e))) (Some fl))
     \<longleftrightarrow> (\<exists>k \<le> 4. \<exists>d. blocked_by (lw_state w (snd e)) (fst e) d \<and> reaches w k d fl)"
    if "e \<in> set (global_waiting_locks w)" for e
    unfolding is_deadlock_at_exact [OF assms(1)] wait_conflicts(1) [OF assms(1) that]
    using wait_conflicts(2) [OF assms(1) that] by blast
  have "is_deadlock p fl (others_overlapping fl (lw_state w p)) w \<longleftrightarrow>
      (\<exists>c. blocked_by (lw_state w p) fl c \<and> (\<exists>e \<in> set (global_waiting_locks w). filelock_owner_equal (fst e) c
         \<and> (\<exists>k \<le> 4. \<exists>d. blocked_by (lw_state w (snd e)) (fst e) d \<and> reaches w k d fl)))"
    using search_level [OF assms(1)] sub deadlock_conflicts_set [OF assms(2,3)] assms(4)
    by (auto simp: is_deadlock_def MAX_DEADLK_DEPTH_def numeral_eq_Suc Let_def cong: conj_cong)
  then show ?thesis unfolding five r by blast
qed

definition ex_crossed :: lock_world where
  "ex_crossed = (ex_world (ex_state (ex_lock_of 1 CEPH_LOCK_EXCL 0 10) (ex_lock_of 2 CEPH_LOCK_EXCL 20 10)))
     \<lparr>global_waiting_locks := [(ex_lock_of 1 CEPH_LOCK_EXCL 20 10, 1)]\<rparr>"

theorem is_deadlock_exact_witness:
  "is_deadlock 0 (ex_lock_of 2 CEPH_LOCK_EXCL 0 10)
     (others_overlapping (ex_lock_of 2 CEPH_LOCK_EXCL 0 10) (lw_state ex_crossed 0)) ex_crossed"
proof -
  let ?a = "ex_lock_of 1 CEPH_LOCK_EXCL 0 10" and ?b = "ex_lock_of 2 CEPH_LOCK_EXCL 20 10"
  let ?fl = "ex_lock_of 2 CEPH_LOCK_EXCL 0 10"
  have st: "lw_state ex_crossed q = ex_state ?a ?b" for q by (simp add: ex_crossed_def ex_world_def)
  have wf: "flock_wf (ex_state ?a ?b)"
    by (rule ex_state_wf) (auto simp: ex_lock_of_def lock_ok_def range_ok_def co_held_def cover_def)
  then have ok: "waiting_ok ex_crossed"
    by (simp add: waiting_ok_def global_sorted_def st) (simp add: ex_crossed_def ex_lock_of_def range_ok_def)
  have "0 \<in> cover ?a \<inter> cover ?fl" "20 \<in> cover ?b \<inter> cover (ex_lock_of 1 CEPH_LOCK_EXCL 20 10)"
    by (simp_all add: cover_def ex_lock_of_def)
  then have "cover ?a \<inter> cover ?fl \<noteq> {}" "cover ?b \<inter> cover (ex_lock_of 1 CEPH_LOCK_EXCL 20 10) \<noteq> {}" by blast+
  then have "blocked_by (lw_state ex_crossed 0) ?fl ?a" "blocked_by (lw_state ex_crossed 1) (ex_lock_of 1 CEPH_LOCK_EXCL 20 10) ?b"
    unfolding st blocked_by_def by (simp_all add: ex_state_def) (simp_all add: ex_lock_of_def filelock_owner_equal_def lock_consts)
  moreover have own: "filelock_owner_equal (ex_lock_of 1 CEPH_LOCK_EXCL 20 10) ?a" "filelock_owner_equal ?b ?fl"
    by (simp_all add: ex_lock_of_def filelock_owner_equal_def)
  moreover have "waits_on ex_crossed ?a ?b"
    unfolding waits_on_def using own(1) calculation(2)
    by (intro bexI [of _ "(ex_lock_of 1 CEPH_LOCK_EXCL 20 10, 1)"]) (auto simp: ex_crossed_def)
  then have "reaches ex_crossed 1 ?a ?fl" using own(2) by auto
  moreover have "ls_type (lw_state ex_crossed 0) = CEPH_LOCK_FCNTL" "range_ok ?fl"
    by (simp_all add: st ex_state_def ex_lock_of_def range_ok_def)
  moreover have "(1 :: nat) \<le> MAX_DEADLK_DEPTH" by (simp add: MAX_DEADLK_DEPTH_def)
  moreover have "flock_wf (lw_state ex_crossed 0)" unfolding st by (rule wf)
  ultimately show ?thesis using is_deadlock_exact [OF ok, of 0 ?fl] by blast
qed

end
