(* ===== verification/CrushMap.thy ===== *)
theory CrushMap
  imports CrushHash "HOL-Library.Signed_Division"
begin

unbundle bit_operations_syntax

text \<open>
  The CRUSH map of \<^verbatim>\<open>crush/crush.h\<close> and the functions of \<^verbatim>\<open>crush/mapper.c\<close> that draw an
  item from one bucket. A C array is a list, an access outside of it is \<open>None\<close>, and so is a loop
  that does not end. Items, identifiers and positions are \<^verbatim>\<open>int\<close> in C and \<open>int\<close> here; where C
  converts them to \<^verbatim>\<open>__u32\<close> the model does. A bucket is cast to the structure of its algorithm
  by its \<^verbatim>\<open>alg\<close>: \<open>bucket_body\<close> has a constructor for each.
\<close>

section \<open>Data\<close>

datatype bucket_body =
  CRUSH_BUCKET_UNIFORM (item_weight: u32)
| CRUSH_BUCKET_LIST (item_weights: "u32 list") (sum_weights: "u32 list")
| CRUSH_BUCKET_TREE (num_nodes: u8) (node_weights: "u32 list")
| CRUSH_BUCKET_STRAW (item_weights: "u32 list") (straws: "u32 list")
| CRUSH_BUCKET_STRAW2 (item_weights: "u32 list")
| CRUSH_BUCKET_OTHER

record crush_bucket =
  b_id :: int
  b_type :: int
  b_hash :: u8
  b_weight :: u32
  b_size :: u32
  b_items :: "int list"
  b_body :: bucket_body

record crush_choose_arg =
  ca_ids :: "int list option"
  ca_weight_set :: "u32 list list option"

record crush_work_bucket =
  perm_x :: u32
  perm_n :: u32
  perm :: "u32 list"

section \<open>Permutation\<close>

text \<open>\<^verbatim>\<open>for (i = first; i < size; i++) perm[i] = i\<close>\<close>

definition perm_identity :: "nat \<Rightarrow> nat \<Rightarrow> u32 list \<Rightarrow> u32 list option" where
  "perm_identity first sz ps = fold_opt (\<lambda>ps i. arr_set ps (int i) (of_nat i)) ps [first..<sz]"

text \<open>The body of the loop that extends the permutation by the entry \<open>p\<close>.\<close>

definition perm_swap :: "crush_bucket \<Rightarrow> u32 \<Rightarrow> u32 \<Rightarrow> u32 list \<Rightarrow> u32 list option" where
  "perm_swap bucket x p ps =
     (if p < b_size bucket - 1 then
        let i = crush_hash32_3 (b_hash bucket) x (of_int (b_id bucket)) p mod (b_size bucket - p)
        in if i \<noteq> 0 then do {
             t \<leftarrow> arr_get ps (uint (p + i));
             q \<leftarrow> arr_get ps (uint p);
             ps \<leftarrow> arr_set ps (uint (p + i)) q;
             arr_set ps (uint p) t }
           else Some ps
      else Some ps)"

partial_function (option) perm_extend ::
  "crush_bucket \<Rightarrow> u32 \<Rightarrow> u32 \<Rightarrow> u32 \<Rightarrow> u32 list \<Rightarrow> (u32 \<times> u32 list) option" where
  "perm_extend bucket x pr n ps =
     (if n \<le> pr then do {
        ps \<leftarrow> perm_swap bucket x n ps;
        perm_extend bucket x pr (n + 1) ps }
      else Some (n, ps))"

declare perm_extend.simps [code]

definition bucket_perm_choose ::
  "crush_bucket \<Rightarrow> crush_work_bucket \<Rightarrow> u32 \<Rightarrow> u32 \<Rightarrow> (int \<times> crush_work_bucket) option" where
  "bucket_perm_choose bucket work x r = do {
     check (b_size bucket \<noteq> 0);
     let sz = unat (b_size bucket);
     let pr = r mod b_size bucket;
     let fresh = (perm_x work \<noteq> x \<or> perm_n work = 0);
     if fresh \<and> pr = 0 then do {
       let s = crush_hash32_3 (b_hash bucket) x (of_int (b_id bucket)) 0 mod b_size bucket;
       ps \<leftarrow> arr_set (perm work) 0 s;
       item \<leftarrow> arr_get (b_items bucket) (uint s);
       Some (item, \<lparr>perm_x = x, perm_n = 0xffff, perm = ps\<rparr>) }
     else do {
       (n, ps) \<leftarrow>
         (if fresh then do { ps \<leftarrow> perm_identity 0 sz (perm work); Some (0, ps) }
          else if perm_n work = 0xffff then do {
            ps \<leftarrow> perm_identity 1 sz (perm work);
            p0 \<leftarrow> arr_get ps 0;
            ps \<leftarrow> arr_set ps (uint p0) 0;
            Some (1, ps) }
          else Some (perm_n work, perm work));
       (n, ps) \<leftarrow> perm_extend bucket x pr n ps;
       s \<leftarrow> arr_get ps (uint pr);
       item \<leftarrow> arr_get (b_items bucket) (uint s);
       Some (item, \<lparr>perm_x = x, perm_n = n, perm = ps\<rparr>) } }"

section \<open>The algorithms\<close>

text \<open>The loop of \<^verbatim>\<open>bucket_list_choose\<close>, with the number of items still to look at.\<close>

fun list_choose_below :: "crush_bucket \<Rightarrow> u32 list \<Rightarrow> u32 list \<Rightarrow> u32 \<Rightarrow> u32 \<Rightarrow> nat \<Rightarrow> int option" where
  "list_choose_below bucket iws sws x r 0 = arr_get (b_items bucket) 0"
| "list_choose_below bucket iws sws x r (Suc i) = do {
     item \<leftarrow> arr_get (b_items bucket) (int i);
     sw \<leftarrow> arr_get sws (int i);
     iw \<leftarrow> arr_get iws (int i);
     let w = (ucast (crush_hash32_4 (b_hash bucket) x (of_int item) r (of_int (b_id bucket))) :: u64);
     let w = w AND 0xffff;
     let w = w * ucast sw;
     let w = drop_bit 16 w;
     if w < ucast iw then Some item
     else list_choose_below bucket iws sws x r i }"

definition bucket_list_choose :: "crush_bucket \<Rightarrow> u32 list \<Rightarrow> u32 list \<Rightarrow> u32 \<Rightarrow> u32 \<Rightarrow> int option" where
  "bucket_list_choose bucket iws sws x r =
     list_choose_below bucket iws sws x r (unat (b_size bucket))"

partial_function (option) tree_height :: "int \<Rightarrow> int \<Rightarrow> int option" where
  "tree_height h n = (if n AND 1 = 0 then tree_height (h + 1) (drop_bit 1 n) else Some h)"

declare tree_height.simps [code]

definition tree_left :: "int \<Rightarrow> int option" where
  "tree_left x = do { h \<leftarrow> tree_height 0 x; Some (x - push_bit (nat (h - 1)) 1) }"

definition tree_right :: "int \<Rightarrow> int option" where
  "tree_right x = do { h \<leftarrow> tree_height 0 x; Some (x + push_bit (nat (h - 1)) 1) }"

definition tree_terminal :: "int \<Rightarrow> bool" where
  "tree_terminal x \<longleftrightarrow> x AND 1 \<noteq> 0"

partial_function (option) tree_descend ::
  "crush_bucket \<Rightarrow> u32 list \<Rightarrow> u32 \<Rightarrow> u32 \<Rightarrow> int \<Rightarrow> int option" where
  "tree_descend bucket nws x r n =
     (if tree_terminal n then Some n
      else do {
        w \<leftarrow> arr_get nws n;
        let t = ucast (crush_hash32_4 (b_hash bucket) x (of_int n) r (of_int (b_id bucket))) * (ucast w :: u64);
        let t = drop_bit 32 t;
        l \<leftarrow> tree_left n;
        lw \<leftarrow> arr_get nws l;
        n' \<leftarrow> (if t < ucast lw then Some l else tree_right n);
        tree_descend bucket nws x r n' })"

declare tree_descend.simps [code]

definition bucket_tree_choose :: "crush_bucket \<Rightarrow> u8 \<Rightarrow> u32 list \<Rightarrow> u32 \<Rightarrow> u32 \<Rightarrow> int option" where
  "bucket_tree_choose bucket nodes nws x r = do {
     n \<leftarrow> tree_descend bucket nws x r (drop_bit 1 (uint nodes));
     arr_get (b_items bucket) (drop_bit 1 n) }"

text \<open>One pass of the loop of \<^verbatim>\<open>bucket_straw_choose\<close> on \<^verbatim>\<open>high\<close> and \<^verbatim>\<open>high_draw\<close>.\<close>

definition straw_pass :: "crush_bucket \<Rightarrow> u32 list \<Rightarrow> u32 \<Rightarrow> u32 \<Rightarrow> nat \<times> u64 \<Rightarrow> nat \<Rightarrow> (nat \<times> u64) option" where
  "straw_pass bucket strs x r = (\<lambda>(high, high_draw) i. do {
     item \<leftarrow> arr_get (b_items bucket) (int i);
     straw \<leftarrow> arr_get strs (int i);
     let draw = (ucast (crush_hash32_3 (b_hash bucket) x (of_int item) r) :: u64);
     let draw = draw AND 0xffff;
     let draw = draw * ucast straw;
     Some (if i = 0 \<or> draw > high_draw then (i, draw) else (high, high_draw)) })"

definition bucket_straw_choose :: "crush_bucket \<Rightarrow> u32 list \<Rightarrow> u32 \<Rightarrow> u32 \<Rightarrow> int option" where
  "bucket_straw_choose bucket strs x r = do {
     (high, _) \<leftarrow> fold_opt (straw_pass bucket strs x r) (0, 0) [0..<unat (b_size bucket)];
     arr_get (b_items bucket) (int high) }"

definition get_choose_arg_weights ::
  "u32 list \<Rightarrow> crush_choose_arg option \<Rightarrow> int \<Rightarrow> u32 list option" where
  "get_choose_arg_weights iws arg position =
     (case arg of
        None \<Rightarrow> Some iws
      | Some a \<Rightarrow> (case ca_weight_set a of
          None \<Rightarrow> Some iws
        | Some ws \<Rightarrow> arr_get ws (if position \<ge> int (length ws) then int (length ws) - 1 else position)))"

definition get_choose_arg_ids :: "crush_bucket \<Rightarrow> crush_choose_arg option \<Rightarrow> int list" where
  "get_choose_arg_ids bucket arg =
     (case arg of
        None \<Rightarrow> b_items bucket
      | Some a \<Rightarrow> (case ca_ids a of None \<Rightarrow> b_items bucket | Some l \<Rightarrow> l))"

definition S64_MIN :: int where
  "S64_MIN = - (2 ^ 63)"

text \<open>The draw of one item in \<^verbatim>\<open>bucket_straw2_choose\<close>.\<close>

definition straw2_draw :: "crush_bucket \<Rightarrow> u32 \<Rightarrow> u32 \<Rightarrow> u32 \<Rightarrow> int \<Rightarrow> int option" where
  "straw2_draw bucket x r w item =
     (if w \<noteq> 0 then do {
        let u = crush_hash32_3 (b_hash bucket) x (of_int item) r AND 0xffff;
        l \<leftarrow> crush_ln u;
        let ln = sint (l - 0x1000000000000);
        Some (ln sdiv uint w) }
      else Some S64_MIN)"

definition straw2_pass ::
  "crush_bucket \<Rightarrow> u32 list \<Rightarrow> int list \<Rightarrow> u32 \<Rightarrow> u32 \<Rightarrow> nat \<times> int \<Rightarrow> nat \<Rightarrow> (nat \<times> int) option" where
  "straw2_pass bucket weights ids x r = (\<lambda>(high, high_draw) i. do {
     w \<leftarrow> arr_get weights (int i);
     item \<leftarrow> arr_get ids (int i);
     draw \<leftarrow> straw2_draw bucket x r w item;
     Some (if i = 0 \<or> draw > high_draw then (i, draw) else (high, high_draw)) })"

definition bucket_straw2_choose ::
  "crush_bucket \<Rightarrow> u32 list \<Rightarrow> u32 \<Rightarrow> u32 \<Rightarrow> crush_choose_arg option \<Rightarrow> int \<Rightarrow> int option" where
  "bucket_straw2_choose bucket iws x r arg position = do {
     weights \<leftarrow> get_choose_arg_weights iws arg position;
     let ids = get_choose_arg_ids bucket arg;
     (high, _) \<leftarrow> fold_opt (straw2_pass bucket weights ids x r) (0, 0) [0..<unat (b_size bucket)];
     arr_get (b_items bucket) (int high) }"

definition crush_bucket_choose ::
  "crush_bucket \<Rightarrow> crush_work_bucket \<Rightarrow> u32 \<Rightarrow> u32 \<Rightarrow> crush_choose_arg option \<Rightarrow> int
     \<Rightarrow> (int \<times> crush_work_bucket) option" where
  "crush_bucket_choose bucket work x r arg position = do {
     check (b_size bucket \<noteq> 0);
     case b_body bucket of
       CRUSH_BUCKET_UNIFORM _ \<Rightarrow> bucket_perm_choose bucket work x r
     | CRUSH_BUCKET_LIST iws sws \<Rightarrow> map_option (\<lambda>i. (i, work)) (bucket_list_choose bucket iws sws x r)
     | CRUSH_BUCKET_TREE nodes nws \<Rightarrow> map_option (\<lambda>i. (i, work)) (bucket_tree_choose bucket nodes nws x r)
     | CRUSH_BUCKET_STRAW _ strs \<Rightarrow> map_option (\<lambda>i. (i, work)) (bucket_straw_choose bucket strs x r)
     | CRUSH_BUCKET_STRAW2 iws \<Rightarrow>
         map_option (\<lambda>i. (i, work)) (bucket_straw2_choose bucket iws x r arg position)
     | CRUSH_BUCKET_OTHER \<Rightarrow> map_option (\<lambda>i. (i, work)) (arr_get (b_items bucket) 0) }"

end
