(* ===== verification/CrushPerm.thy ===== *)
theory CrushPerm
  imports CrushMap "HOL-Library.Multiset"
begin

text \<open>
  The permutation that \<^verbatim>\<open>bucket_perm_choose\<close> keeps in the working area of a bucket, and reuses
  from one call to the next. \<open>perm_ref\<close> is the shuffle it stands for. Whatever calls came before,
  the item drawn for a position is the one of the shuffle, and the positions of a bucket draw each
  of its items once.
\<close>

section \<open>The shuffle\<close>

definition list_swap :: "'a list \<Rightarrow> nat \<Rightarrow> nat \<Rightarrow> 'a list" where
  "list_swap xs i j = xs[j := xs ! i, i := xs ! j]"

definition perm_offset :: "crush_bucket \<Rightarrow> u32 \<Rightarrow> nat \<Rightarrow> nat" where
  "perm_offset b x p =
     unat (crush_hash32_3 (b_hash b) x (of_int (b_id b)) (of_nat p) mod (b_size b - of_nat p))"

fun perm_ref :: "crush_bucket \<Rightarrow> u32 \<Rightarrow> nat \<Rightarrow> u32 list" where
  "perm_ref b x 0 = map of_nat [0..<unat (b_size b)]"
| "perm_ref b x (Suc p) =
     (if Suc p < unat (b_size b) then list_swap (perm_ref b x p) p (p + perm_offset b x p)
      else perm_ref b x p)"

definition perm_item :: "crush_bucket \<Rightarrow> u32 \<Rightarrow> nat \<Rightarrow> int" where
  "perm_item b x p = b_items b ! unat (perm_ref b x (unat (b_size b)) ! p)"

text \<open>What the working area of a bucket holds between calls.\<close>

definition wb_ok :: "crush_bucket \<Rightarrow> crush_work_bucket \<Rightarrow> bool" where
  "wb_ok b w \<longleftrightarrow> length (perm w) = unat (b_size b) \<and>
     (perm_n w = 0 \<or>
      perm_n w = 0xffff \<and> perm w ! 0 = perm_ref b (perm_x w) 1 ! 0 \<or>
      perm_n w \<noteq> 0xffff \<and> perm_n w \<le> b_size b \<and> perm w = perm_ref b (perm_x w) (unat (perm_n w)))"

lemma length_perm_ref [simp]: "length (perm_ref b x n) = unat (b_size b)"
  by (induction n) (auto simp: list_swap_def)

lemma of_nat_le_size: "p \<le> unat (b_size b) \<Longrightarrow> unat (of_nat p :: u32) = p"
  using unsigned_less [of "b_size b", where ?'a = nat] by (simp add: unsigned_of_nat take_bit_nat_eq_self)

lemmas of_nat_less_size = of_nat_le_size [OF less_imp_le]

lemma perm_offset_less:
  assumes "p < unat (b_size b)"
  shows "p + perm_offset b x p < unat (b_size b)"
proof -
  have "unat (b_size b - of_nat p) = unat (b_size b) - p"
    using assms of_nat_less_size [OF assms] by (simp add: unat_sub word_le_nat_alt)
  then show ?thesis using assms by (simp add: perm_offset_def unat_mod_distrib) (metis add.commute less_diff_conv mod_less_divisor zero_less_diff)
qed

lemma mset_perm_ref: "mset (perm_ref b x n) = mset (map of_nat [0..<unat (b_size b)])"
proof (induction n)
  case (Suc p)
  then show ?case
    using perm_offset_less [of p b x] mset_swap [of p "perm_ref b x p" "p + perm_offset b x p"]
    by (auto simp: list_swap_def)
qed simp

lemma perm_ref_less:
  assumes "i < unat (b_size b)"
  shows "unat (perm_ref b x n ! i) < unat (b_size b)"
proof -
  have "perm_ref b x n ! i \<in> set (perm_ref b x n)" using assms by simp
  also have "set (perm_ref b x n) = of_nat ` {0..<unat (b_size b)}"
    using mset_eq_setD [OF mset_perm_ref [of b x n]] by simp
  finally show ?thesis using of_nat_less_size [of _ b] by auto
qed

lemma perm_ref_stable: "i < n \<Longrightarrow> n \<le> m \<Longrightarrow> perm_ref b x m ! i = perm_ref b x n ! i"
proof (induction m)
  case (Suc m)
  show ?case
  proof (cases "n = Suc m")
    case False
    then have "perm_ref b x m ! i = perm_ref b x n ! i" "i < m" using Suc by auto
    then show ?thesis by (auto simp: list_swap_def)
  qed simp
qed simp

lemma perm_ref_full:
  assumes "i \<le> p" "p < unat (b_size b)"
  shows "perm_ref b x (Suc p) ! i = perm_ref b x (unat (b_size b)) ! i"
  using perm_ref_stable [of i "Suc p" "unat (b_size b)" b x] assms by simp

section \<open>The working area follows the shuffle\<close>

lemma arr_simps:
  "i < length xs \<Longrightarrow> arr_get xs (int i) = Some (xs ! i)"
  "i < length xs \<Longrightarrow> arr_set xs (int i) v = Some (xs[i := v])"
  by (auto simp: arr_get_def arr_set_def)

lemma arr_uint:
  "unat (i :: u32) < length xs \<Longrightarrow> arr_get xs (uint i) = Some (xs ! unat i)"
  "unat (i :: u32) < length xs \<Longrightarrow> arr_set xs (uint i) v = Some (xs[unat i := v])"
  using arr_simps [of "unat i"] by simp_all

lemma perm_identity_eq:
  assumes "first \<le> n" "n \<le> length ps"
  shows "perm_identity first n ps = Some (take first ps @ map of_nat [first..<n] @ drop n ps)"
  using assms
proof (induction n rule: dec_induct)
  case (step n)
  then have "drop n ps = ps ! n # drop (Suc n) ps" by (simp add: Cons_nth_drop_Suc)
  with step show ?case
    by (simp add: perm_identity_def fold_opt_append arr_simps list_update_append)
qed (simp add: perm_identity_def)

lemma perm_swap_eq:
  assumes p: "p < unat (b_size b)" and l: "length ps = unat (b_size b)"
  shows "perm_swap b x (of_nat p) ps =
     Some (if Suc p < unat (b_size b) then list_swap ps p (p + perm_offset b x p) else ps)"
proof -
  let ?i = "crush_hash32_3 (b_hash b) x (of_int (b_id b)) (of_nat p) mod (b_size b - of_nat p)"
  have up: "unat (of_nat p :: u32) = p" using of_nat_less_size [OF p] .
  have size1: "of_nat p < b_size b - 1 \<longleftrightarrow> Suc p < unat (b_size b)"
  proof -
    have "unat (b_size b - 1) = unat (b_size b) - 1"
      using p by (simp add: unat_sub word_le_nat_alt)
    then show ?thesis using p up by (auto simp: word_less_nat_alt)
  qed
  have i: "unat ?i = perm_offset b x p" by (simp add: perm_offset_def)
  have q: "p + perm_offset b x p < unat (b_size b)" using perm_offset_less [OF p] .
  have sum: "uint (of_nat p + ?i) = int (p + perm_offset b x p)"
    using q up i unsigned_less [of "b_size b", where ?'a = nat] by (simp add: uint_nat unat_word_ariths)
  have u: "uint (of_nat p :: u32) = int p" using up by (simp add: uint_nat)
  show ?thesis
  proof (cases "?i = 0")
    case True
    then have "perm_offset b x p = 0" using i by simp
    then show ?thesis using True size1 p l by (simp add: perm_swap_def list_swap_def)
  next
    case False
    then show ?thesis
      using size1 p q l unfolding perm_swap_def Let_def sum u
      by (simp add: arr_simps list_swap_def del: of_nat_add)
  qed
qed

lemma perm_extend_eq:
  assumes "p < unat (b_size b)" "n \<le> unat (b_size b)"
  shows "perm_extend b x (of_nat p) (of_nat n) (perm_ref b x n) =
     Some (of_nat (max n (Suc p)), perm_ref b x (max n (Suc p)))"
  using assms(2)
proof (induction "Suc p - n" arbitrary: n)
  case 0
  then show ?case
    using of_nat_less_size [OF assms(1)] of_nat_le_size [OF 0(2)]
    by (subst perm_extend.simps) (simp add: word_le_nat_alt max_def)
next
  case (Suc k)
  then have n: "n \<le> p" "n < unat (b_size b)" using assms(1) by auto
  then have le: "(of_nat n :: u32) \<le> of_nat p"
    using of_nat_less_size [OF n(2)] of_nat_less_size [OF assms(1)] by (simp add: word_le_nat_alt)
  have "perm_extend b x (of_nat p) (of_nat n) (perm_ref b x n) =
      perm_extend b x (of_nat p) (of_nat (Suc n)) (perm_ref b x (Suc n))"
    using le perm_swap_eq [OF n(2)] by (subst perm_extend.simps) (simp add: add.commute)
  also have "\<dots> = Some (of_nat (max (Suc n) (Suc p)), perm_ref b x (max (Suc n) (Suc p)))"
    using Suc(2) n(2) by (intro Suc(1)) auto
  finally show ?case using n(1) by (simp only: max_absorb2 Suc_le_mono le_SucI)
qed

text \<open>The working area that a call leaves with the first \<open>n\<close> entries fixed.\<close>

lemma wb_ok_ref:
  assumes "0 < n" "n \<le> unat (b_size b)"
  shows "wb_ok b \<lparr>perm_x = x, perm_n = of_nat n, perm = perm_ref b x n\<rparr>"
proof -
  have u: "unat (of_nat n :: u32) = n" using of_nat_le_size [OF assms(2)] .
  have "perm_ref b x n ! 0 = perm_ref b x 1 ! 0"
    using perm_ref_stable [of 0 1 n b x] assms(1) by simp
  then show ?thesis using assms u by (auto simp: wb_ok_def word_le_nat_alt)
qed

lemma perm_finish:
  assumes "p < unat (b_size b)" "n \<le> unat (b_size b)" "length (b_items b) = unat (b_size b)"
  defines "m \<equiv> max n (Suc p)"
  shows "(do { (n, ps) \<leftarrow> perm_extend b x (of_nat p) (of_nat n) (perm_ref b x n);
               s \<leftarrow> arr_get ps (uint (of_nat p :: u32));
               item \<leftarrow> arr_get (b_items b) (uint s);
               Some (item, \<lparr>perm_x = x, perm_n = n, perm = ps\<rparr>) }) =
         Some (perm_item b x p, \<lparr>perm_x = x, perm_n = of_nat m, perm = perm_ref b x m\<rparr>)"
proof -
  have u: "uint (of_nat p :: u32) = int p" using of_nat_less_size [OF assms(1)] by (simp add: uint_nat)
  have m: "m \<le> unat (b_size b)" "p < m" using assms(1,2) by (auto simp: m_def)
  have "perm_ref b x m ! p = perm_ref b x (unat (b_size b)) ! p"
    using perm_ref_stable [OF m(2,1)] by simp
  moreover have "unat (perm_ref b x m ! p) < length (b_items b)"
    using perm_ref_less [OF assms(1)] assms(3) by simp
  moreover have "arr_get (perm_ref b x m) (int p) = Some (perm_ref b x m ! p)"
    using assms(1) by (simp add: arr_simps)
  ultimately show ?thesis
    using perm_extend_eq [OF assms(1,2), of x] unfolding u m_def [symmetric]
    by (simp add: perm_item_def arr_uint)
qed

lemma perm_first:
  assumes "b_size b \<noteq> 0"
  shows "perm_ref b x 1 ! 0 = crush_hash32_3 (b_hash b) x (of_int (b_id b)) 0 mod b_size b"
proof (cases "unat (b_size b) = 1")
  case True
  then have "b_size b = 1" by (simp add: word_unat_eq_iff)
  then show ?thesis by simp
next
  case False
  have "0 < unat (b_size b)" using assms by (simp add: unat_gt_0)
  with False have "1 < unat (b_size b)" by linarith
  then show ?thesis using perm_offset_less [of 0 b x]
    by (simp add: list_swap_def) (simp add: perm_offset_def)
qed

lemma perm_cleanup:
  assumes "b_size b \<noteq> 0" "length ps = unat (b_size b)" "ps ! 0 = perm_ref b x 1 ! 0"
  shows "(do { ps \<leftarrow> perm_identity 1 (unat (b_size b)) ps;
               p0 \<leftarrow> arr_get ps 0;
               ps \<leftarrow> arr_set ps (uint p0) 0;
               Some (1 :: u32, ps) }) = Some (of_nat 1, perm_ref b x 1)"
proof -
  let ?s = "unat (b_size b)"
  define f where "f = perm_ref b x 1 ! 0"
  have s: "0 < ?s" using assms(1) by (simp add: unat_gt_0)
  have i: "perm_identity 1 ?s ps = Some (f # map of_nat [1..<?s])"
    using perm_identity_eq [of 1 ?s ps] s assms(2,3) by (cases ps) (auto simp: f_def)
  have f: "unat f < ?s" unfolding f_def by (rule perm_ref_less [OF s])
  have id: "map of_nat [0..<?s] = (0 :: u32) # map of_nat [1..<?s]" using s by (simp add: upt_conv_Cons)
  have ref: "(f # map of_nat [1..<?s])[unat f := 0] = perm_ref b x 1"
  proof (cases "1 < ?s")
    case True
    define d where "d = perm_offset b x 0"
    have d: "d < ?s" using perm_offset_less [OF s] by (simp add: d_def)
    have r: "perm_ref b x 1 = (map of_nat [0..<?s])[d := 0, 0 := of_nat d]"
      using True d s by (simp add: list_swap_def d_def)
    then have "f = of_nat d" using s by (simp add: f_def)
    then have "unat f = d" using of_nat_less_size [OF d] by simp
    then show ?thesis unfolding r id \<open>f = of_nat d\<close> by (cases d) simp_all
  next
    case False
    then have "?s = 1" using s by linarith
    then show ?thesis using f by (simp add: f_def)
  qed
  show ?thesis
    using i f s ref by (simp add: arr_get_def [of _ 0] arr_uint)
qed

lemma bucket_perm_choose_eq:
  assumes "wb_ok b w" "b_size b \<noteq> 0" "length (b_items b) = unat (b_size b)"
  obtains w' where "bucket_perm_choose b w x r = Some (perm_item b x (unat (r mod b_size b)), w')" "wb_ok b w'"
proof -
  let ?s = "unat (b_size b)" and ?p = "unat (r mod b_size b)"
  have s: "0 < ?s" using assms(2) by (simp add: unat_gt_0)
  have p: "?p < ?s" using s by (simp add: unat_mod_distrib)
  have len: "length (perm w) = ?s" using assms(1) by (simp add: wb_ok_def)
  define fresh where "fresh \<longleftrightarrow> perm_x w \<noteq> x \<or> perm_n w = 0"
  define start where "start =
    (if fresh then do { ps \<leftarrow> perm_identity 0 ?s (perm w); Some (0 :: u32, ps) }
     else if perm_n w = 0xffff then do {
       ps \<leftarrow> perm_identity 1 ?s (perm w);
       p0 \<leftarrow> arr_get ps 0;
       ps \<leftarrow> arr_set ps (uint p0) 0;
       Some (1, ps) }
     else Some (perm_n w, perm w))"
  show ?thesis
  proof (cases "fresh \<and> r mod b_size b = 0")
    case True
    let ?f = "perm_ref b x 1 ! 0"
    have "perm_ref b x 1 ! 0 = perm_ref b x ?s ! 0" using perm_ref_full [of 0 0 b x] s by simp
    moreover have "unat ?f < ?s" using perm_ref_less [OF s] .
    moreover have "wb_ok b \<lparr>perm_x = x, perm_n = 0xffff, perm = (perm w)[0 := ?f]\<rparr>"
      using len s by (simp add: wb_ok_def)
    moreover have "arr_set (perm w) 0 ?f = Some ((perm w)[0 := ?f])" using arr_simps(2) [of 0 "perm w"] len s by simp
    ultimately show ?thesis
      using True assms(2,3) perm_first [OF assms(2), of x]
      by (intro that) (simp_all add: bucket_perm_choose_def Let_def fresh_def perm_item_def arr_uint del: perm_ref.simps)
  next
    case False
    obtain n where n: "n \<le> ?s" "start = Some (of_nat n, perm_ref b x n)"
    proof -
      consider "fresh" | "\<not> fresh" "perm_n w = 0xffff" | "\<not> fresh" "perm_n w \<noteq> 0xffff" by blast
      then show ?thesis
      proof cases
        case 1
        then show ?thesis
          using perm_identity_eq [of 0 ?s "perm w"] len by (intro that [of 0]) (simp_all add: start_def)
      next
        case 2
        then have "perm w ! 0 = perm_ref b x 1 ! 0" using assms(1) by (auto simp: wb_ok_def fresh_def)
        with 2 show ?thesis
          using perm_cleanup [OF assms(2) len] s by (intro that [of 1]) (simp_all add: start_def del: One_nat_def)
      next
        case 3
        then show ?thesis
          using assms(1) by (intro that [of "unat (perm_n w)"]) (auto simp: wb_ok_def fresh_def start_def word_le_nat_alt)
      qed
    qed
    define m where "m = max n (Suc ?p)"
    have "bucket_perm_choose b w x r =
        Some (perm_item b x ?p, \<lparr>perm_x = x, perm_n = of_nat m, perm = perm_ref b x m\<rparr>)"
    proof -
      have "bucket_perm_choose b w x r = Option.bind start (\<lambda>(n, ps).
          do { (n, ps) \<leftarrow> perm_extend b x (r mod b_size b) n ps;
               s \<leftarrow> arr_get ps (uint (r mod b_size b));
               item \<leftarrow> arr_get (b_items b) (uint s);
               Some (item, \<lparr>perm_x = x, perm_n = n, perm = ps\<rparr>) })"
        using False assms(2)
        unfolding bucket_perm_choose_def Let_def fresh_def [symmetric] start_def [symmetric]
        by (simp only: bind_check if_True if_False simp_thms)
      then show ?thesis
        using perm_finish [OF p n(1) assms(3), of x] by (simp add: n(2) m_def)
    qed
    moreover have "wb_ok b \<lparr>perm_x = x, perm_n = of_nat m, perm = perm_ref b x m\<rparr>"
      using n(1) p by (intro wb_ok_ref) (auto simp: m_def)
    ultimately show ?thesis by (rule that)
  qed
qed

lemma mset_perm_item:
  assumes "length (b_items b) = unat (b_size b)"
  shows "mset (map (perm_item b x) [0..<unat (b_size b)]) = mset (b_items b)"
proof -
  let ?n = "unat (b_size b)"
  let ?at = "\<lambda>s. b_items b ! unat (s :: u32)"
  have "map (perm_item b x) [0..<?n] = map ?at (perm_ref b x ?n)"
    by (rule nth_equalityI) (simp_all add: perm_item_def)
  then have "mset (map (perm_item b x) [0..<?n]) = image_mset ?at (mset (perm_ref b x ?n))" by simp
  also have "\<dots> = mset (map ?at (map of_nat [0..<?n]))" by (simp only: mset_perm_ref mset_map)
  also have "map ?at (map of_nat [0..<?n]) = b_items b"
    using assms of_nat_less_size [of _ b] by (intro nth_equalityI) simp_all
  finally show ?thesis .
qed

section \<open>Claim\<close>

text \<open>
  C4: \<^verbatim>\<open>bucket_perm_choose\<close> draws, for position \<open>r\<close>, the item that the shuffle of the bucket
  for the input \<open>x\<close> puts there, whatever permutation the working area was left with by earlier calls,
  for this or another input, complete or cut short; and it leaves a working area that later calls
  can use. As \<open>r\<close> runs through the positions, every item of the bucket is drawn exactly once.
\<close>

theorem perm_choose_shuffle:
  assumes "wb_ok b w" "b_size b \<noteq> 0" "length (b_items b) = unat (b_size b)"
  shows "(\<exists>w'. bucket_perm_choose b w x r = Some (perm_item b x (unat (r mod b_size b)), w') \<and> wb_ok b w') \<and>
         mset (map (perm_item b x) [0..<unat (b_size b)]) = mset (b_items b)"
  using bucket_perm_choose_eq [OF assms, of x r] mset_perm_item [OF assms(3)] by blast

definition ex_uniform :: crush_bucket where
  "ex_uniform = \<lparr>b_id = -1, b_type = 1, b_hash = 0, b_weight = 0x30000, b_size = 3, b_items = [7, 8, 9],
     b_body = CRUSH_BUCKET_UNIFORM 0x10000\<rparr>"

lemma perm_choose_shuffle_witness:
  "\<exists>w. bucket_perm_choose ex_uniform \<lparr>perm_x = 0, perm_n = 0, perm = [77, 77, 77]\<rparr> 5 4 =
     Some (perm_item ex_uniform 5 1, w) \<and> wb_ok ex_uniform w \<and>
   mset (map (perm_item ex_uniform 5) [0..<3]) = {#7, 8, 9#}"
proof -
  have "wb_ok ex_uniform \<lparr>perm_x = 0, perm_n = 0, perm = [77, 77, 77]\<rparr>"
    by (simp add: wb_ok_def ex_uniform_def)
  from perm_choose_shuffle [OF this, of 5 4] show ?thesis by (simp add: ex_uniform_def)
qed

end
