(* ===== verification/CrushLn.thy ===== *)
theory CrushLn
  imports CrushHash
begin

text \<open>
  The range of \<open>crush_ln\<close>: for the 16 bit inputs that \<^verbatim>\<open>bucket_straw2_choose\<close> passes, every
  table access is inside its table and the result fits the 48 bits that its comment promises.
\<close>

lemma bit_u32_unat: "bit (x :: u32) n \<longleftrightarrow> odd (unat x div 2 ^ n)"
  by (simp add: bit_unsigned_iff flip: bit_iff_odd)

lemma builtin_clz_eq:
  assumes "2 ^ k \<le> unat x" "unat x < 2 ^ Suc k" "k < 32"
  shows "builtin_clz x = 31 - k"
proof -
  have top: "bit x k"
  proof -
    have "unat x div 2 ^ k = 1" using assms by (intro div_nat_eqI) auto
    then show ?thesis by (simp add: bit_u32_unat)
  qed
  have zero: "\<not> bit x i" if "k < i" for i
  proof -
    have "unat x < 2 ^ i" using assms(2) that
      by (meson Suc_leI le_trans less_le_trans one_le_numeral power_increasing)
    then show ?thesis by (simp add: bit_u32_unat)
  qed
  have "[0..<32] = [0..<k] @ k # [Suc k..<32]"
    using upt_add_eq_append [of 0 k "32 - k"] assms(3) by (simp add: upt_conv_Cons)
  then have split: "rev [0..<32] = rev [Suc k..<32] @ k # rev [0..<k]"
    by simp
  show ?thesis
    unfolding builtin_clz_def split using zero top by (subst takeWhile_append2) auto
qed

lemma table_lengths: "length RH_LH_tbl = 258" "length LL_tbl = 256"
  by (simp_all add: RH_LH_tbl_def LL_tbl_def)

text \<open>The entries at odd positions, \<^verbatim>\<open>2^48*log2(1.0+k/128.0)\<close>.\<close>

fun lh_part :: "u64 list \<Rightarrow> u64 list" where
  "lh_part (_ # b # xs) = b # lh_part xs"
| "lh_part _ = []"

lemma lh_part_nth: "2 * i + 1 < length xs \<Longrightarrow> lh_part xs ! i = xs ! (2 * i + 1)"
proof (induction xs arbitrary: i rule: lh_part.induct)
  case (1 a b xs)
  then show ?case by (cases i) auto
qed auto

lemma LL_all: "list_all (\<lambda>v. v \<le> 0x2dced24f814) LL_tbl"
  by code_simp

lemma LL_half_all: "list_all (\<lambda>v. v \<le> 0x1720d9c06a8) (take 129 LL_tbl)"
  by code_simp

lemma LH_all: "list_all (\<lambda>v. v \<le> 0xfd1a708bbe11) (take 127 (lh_part RH_LH_tbl))"
  by code_simp

lemma LL_le: "i < 256 \<Longrightarrow> LL_tbl ! i \<le> 0x2dced24f814"
  using LL_all by (simp add: list_all_length table_lengths)

lemma LL_half_le: "i < 129 \<Longrightarrow> LL_tbl ! i \<le> 0x1720d9c06a8"
  using LL_half_all by (simp add: list_all_length table_lengths)

lemma LH_le: "i < 127 \<Longrightarrow> RH_LH_tbl ! (2 * i + 1) \<le> 0xfd1a708bbe11"
proof -
  assume "i < 127"
  moreover have "length (lh_part RH_LH_tbl) = 129" by code_simp
  ultimately have "lh_part RH_LH_tbl ! i \<le> 0xfd1a708bbe11"
    using LH_all by (simp add: list_all_length)
  then show ?thesis using \<open>i < 127\<close> lh_part_nth [of i RH_LH_tbl] by (simp add: table_lengths)
qed

lemma last_entries:
  "RH_LH_tbl ! 254 = 0x808080808081" "RH_LH_tbl ! 255 = 0xfe8df263f957"
  "RH_LH_tbl ! 256 = 0x800000000000" "RH_LH_tbl ! 257 = 0xffff00000000" "LL_tbl ! 0 = 0"
  by code_simp+

lemma and_0x18000: "(x :: u32) AND 0x18000 = 0 \<longleftrightarrow> unat x div 2 ^ 15 mod 4 = 0"
proof -
  have m: "(0x18000 :: u32) = push_bit 15 (mask 2)" by (simp add: mask_eq_exp_minus_1)
  define w where "w = take_bit 2 (drop_bit 15 x)"
  have w: "unat w = unat x div 2 ^ 15 mod 4"
    by (simp add: w_def drop_bit_eq_div take_bit_eq_mod unat_div_distrib unat_mod_distrib)
  have "x AND push_bit 15 (mask 2) = push_bit 15 w"
    unfolding w_def by (rule bit_eqI) (auto simp: bit_simps)
  moreover have "unat (push_bit 15 w) = 2 ^ 15 * unat w"
  proof -
    have "unat w < 4" using w by simp
    then show ?thesis by (simp add: push_bit_eq_mult unat_word_ariths)
  qed
  ultimately show ?thesis unfolding m using w by (simp add: unat_eq_zero flip: unat_eq_zero)
qed

lemma and_0x1ffff: "unat x < 0x20000 \<Longrightarrow> (x :: u32) AND 0x1FFFF = x"
proof -
  assume x: "unat x < 0x20000"
  have "(0x1FFFF :: u32) = mask 17" by (simp add: mask_eq_exp_minus_1)
  then have "x AND 0x1FFFF = take_bit 17 x" by (simp add: take_bit_eq_mask)
  also have "\<dots> = x" using x by (simp add: word_unat_eq_iff take_bit_eq_mod unat_mod_distrib)
  finally show ?thesis .
qed

text \<open>The normalised input is \<open>x * 2 ^ bits\<close>, between \<open>0x8000\<close> and \<open>0x10000\<close>.\<close>

definition ln_bits :: "u32 \<Rightarrow> nat" where
  "ln_bits x = (if x AND 0x18000 = 0 then builtin_clz (x AND 0x1FFFF) - 16 else 0)"

lemma ln_bits_ok:
  assumes "0 < unat x" "unat x \<le> 0x10000"
  shows "ln_bits x \<le> 15 \<and> 0x8000 \<le> unat (push_bit (ln_bits x) x) \<and>
         unat (push_bit (ln_bits x) x) \<le> 0x10000"
proof (cases "0x8000 \<le> unat x")
  case True
  then have "unat x div 0x8000 \<in> {1, 2}"
    using div_le_mono [OF True, where k = "0x8000"] div_le_mono [OF assms(2), where k = "0x8000"] by auto
  then have "ln_bits x = 0" by (auto simp: ln_bits_def and_0x18000)
  then show ?thesis using True assms by simp
next
  case False
  obtain k where k: "2 ^ k \<le> unat x" "unat x < 2 ^ Suc k"
    using ex_power_ivl1 [of 2 "unat x"] assms(1) by auto
  have k14: "k \<le> 14"
  proof (rule ccontr)
    assume "\<not> k \<le> 14"
    then have "(2 :: nat) ^ 15 \<le> 2 ^ k" by (intro power_increasing) auto
    then show False using k(1) False by simp
  qed
  have "ln_bits x = 15 - k"
    using False k k14 and_0x1ffff [of x] builtin_clz_eq [of k x]
    by (simp add: ln_bits_def and_0x18000)
  moreover have p: "2 ^ (15 - k) * 2 ^ k = (0x8000 :: nat)" "2 ^ (15 - k) * 2 ^ Suc k = (0x10000 :: nat)"
    using k14 by (simp_all flip: power_add)
  have "0x8000 \<le> 2 ^ (15 - k) * unat x" "2 ^ (15 - k) * unat x < 0x10000"
    unfolding p [symmetric] using k by (simp_all del: power_Suc)
  moreover from calculation have "unat (push_bit (15 - k) x) = 2 ^ (15 - k) * unat x"
    by (simp only: unsigned_push_bit_eq) (simp add: push_bit_eq_mult take_bit_eq_mod mult.commute)
  ultimately show ?thesis by simp
qed

lemma unat_ucast64: "unat (ucast (x :: u32) :: u64) = unat x"
  using unsigned_less [of x, where ?'a = nat] by (simp add: unsigned_ucast_eq take_bit_nat_eq_self)

lemma ucast_mult: "unat (ucast (x :: u32) * r :: u64) = unat x * unat r mod 2 ^ 64"
  by (simp add: unat_word_ariths unat_ucast64)

text \<open>\<open>crush_ln\<close> with the table index \<open>k\<close>, from 128 to 256, and the normalised input.\<close>

lemma crush_ln_eq:
  assumes "0 < unat x" "unat x \<le> 0x10000"
  defines "y \<equiv> push_bit (ln_bits x) x"
  shows "crush_ln (x - 1) =
     Some (push_bit 44 (of_nat (15 - ln_bits x)) +
           drop_bit 4 (RH_LH_tbl ! (2 * (unat y div 256 - 128) + 1) +
             LL_tbl ! unat (drop_bit 48 (ucast y * RH_LH_tbl ! (2 * (unat y div 256 - 128))) AND 0xff)))"
proof -
  have y: "0x8000 \<le> unat y" "unat y \<le> 0x10000"
    using ln_bits_ok [OF assms(1,2)] by (auto simp: y_def)
  have i: "uint (push_bit 1 (drop_bit 8 y)) = 2 * int (unat y div 256)"
  proof -
    have "unat (push_bit 1 (drop_bit 8 y)) = 2 * (unat y div 256)"
      using y by (simp only: unsigned_push_bit_eq unsigned_drop_bit_eq)
        (simp add: push_bit_eq_mult drop_bit_eq_div take_bit_eq_mod)
    then show ?thesis by (simp flip: unat_eq_nat_uint add: uint_nat)
  qed
  have k: "128 \<le> unat y div 256" "unat y div 256 \<le> 256"
    using div_le_mono [OF y(1), where k = 256] div_le_mono [OF y(2), where k = 256] by simp_all
  have g: "arr_get RH_LH_tbl (2 * int (unat y div 256) - 256) = Some (RH_LH_tbl ! (2 * (unat y div 256 - 128)))"
    "arr_get RH_LH_tbl (2 * int (unat y div 256) + 1 - 256) = Some (RH_LH_tbl ! (2 * (unat y div 256 - 128) + 1))"
    using k by (auto simp: arr_get_def table_lengths nat_diff_distrib intro!: arg_cong [where f = "nth RH_LH_tbl"])
  have l: "arr_get LL_tbl (uint (w AND 0xff)) = Some (LL_tbl ! unat (w AND 0xff))" for w :: u64
  proof -
    have "w AND 0xff = take_bit 8 w" by (simp add: take_bit_eq_mask mask_eq_exp_minus_1)
    then have "uint (w AND 0xff) < 256" by (simp add: take_bit_eq_mod uint_mod_distrib)
    then show ?thesis by (simp add: arr_get_def table_lengths)
  qed
  show ?thesis
    unfolding crush_ln_def Let_def diff_add_cancel ln_bits_def [symmetric] y_def [symmetric] i g l
    by simp
qed

lemma unat_and_0xff: "unat ((w :: u64) AND 0xff) = unat w mod 256"
proof -
  have "w AND 0xff = take_bit 8 w" by (simp add: take_bit_eq_mask mask_eq_exp_minus_1)
  then show ?thesis by (simp add: take_bit_eq_mod unat_mod_distrib)
qed

lemma unat_ln_index:
  "unat (drop_bit 48 (ucast (y :: u32) * r :: u64) AND 0xff) = unat y * unat r mod 2 ^ 64 div 2 ^ 48 mod 256"
  by (simp add: unat_and_0xff unsigned_drop_bit_eq drop_bit_eq_div ucast_mult flip: unsigned_drop_bit_eq)
     (simp add: unsigned_drop_bit_eq drop_bit_eq_div ucast_mult unat_div_distrib)

lemma unat_plus_le:
  assumes "(a :: u64) \<le> b" "c \<le> d" "unat b + unat d < 2 ^ 64"
  shows "unat (a + c) \<le> unat b + unat d"
  using assms by (simp add: word_le_nat_alt unat_word_ariths)

lemma ln_sum_less:
  fixes y :: u32
  assumes "0x8000 \<le> unat y" "unat y \<le> 0x10000"
  defines "k \<equiv> unat y div 256 - 128"
  shows "unat (RH_LH_tbl ! (2 * k + 1) +
     LL_tbl ! unat (drop_bit 48 (ucast y * RH_LH_tbl ! (2 * k)) AND 0xff)) < 2 ^ 48"
proof -
  let ?i = "unat (drop_bit 48 (ucast y * RH_LH_tbl ! (2 * k)) AND 0xff)"
  have i: "?i < 256" by (simp add: unat_and_0xff)
  have d: "unat y div 256 \<le> 256" using div_le_mono [OF assms(2), where k = 256] by simp
  consider (low) "k < 127" | (last) "k = 127" "unat y div 256 = 255" | (top) "k = 128" "unat y = 0x10000"
    using d assms(1,2) unfolding k_def by linarith
  then show ?thesis
  proof cases
    case low
    show ?thesis using unat_plus_le [OF LH_le [OF low] LL_le [OF i]] by simp
  next
    case last
    have "65280 \<le> unat y" "unat y \<le> 65535" using last(2) by linarith+
    then have b: "unat y * 0x808080808081 \<le> 65535 * 0x808080808081"
      "65280 * 0x808080808081 \<le> unat y * 0x808080808081"
      by (intro mult_le_mono1; simp)+
    define q where "q = unat y * 0x808080808081 div 2 ^ 48"
    have "32768 \<le> q" "q \<le> 32896"
      using div_le_mono [OF b(1), where k = "2 ^ 48"] div_le_mono [OF b(2), where k = "2 ^ 48"]
      by (simp_all add: q_def)
    then obtain r where "q = r + 128 * 256" "r \<le> 128" by (intro that [of "q - 32768"]) simp_all
    then have "q mod 256 < 129" by (simp only: mod_mult_self1 mod_less)
    then have "?i < 129"
      unfolding unat_ln_index last(1) using last_entries(1) b(1) by (simp add: q_def)
    then show ?thesis
      using unat_plus_le [OF order_refl LL_half_le, of ?i "0xfe8df263f957"] last(1) last_entries(2) by simp
  next
    case top
    then have "?i = 0" unfolding unat_ln_index using last_entries(3) by simp
    then show ?thesis using top(1) last_entries(4,5) by simp
  qed
qed

lemma crush_ln_bound:
  assumes "u \<le> (0xffff :: u32)"
  obtains v where "crush_ln u = Some v" "v \<le> 0xffffffffffff"
proof -
  define x where "x = u + 1"
  have "unat u \<le> 0xffff" using assms by (simp add: word_le_nat_alt)
  then have x: "0 < unat x" "unat x \<le> 0x10000" by (simp_all add: x_def unat_word_ariths)
  define y where "y = push_bit (ln_bits x) x"
  define s where "s = RH_LH_tbl ! (2 * (unat y div 256 - 128) + 1) +
     LL_tbl ! unat (drop_bit 48 (ucast y * RH_LH_tbl ! (2 * (unat y div 256 - 128))) AND 0xff)"
  have "unat s < 2 ^ 48" using ln_sum_less [of y] ln_bits_ok [OF x] unfolding s_def y_def by blast
  then have b: "unat (drop_bit 4 s) < 2 ^ 44"
    by (simp only: unsigned_drop_bit_eq) (simp add: drop_bit_eq_div take_bit_nat_eq_self less_mult_imp_div_less)
  have e: "unat (push_bit 44 (of_nat (15 - ln_bits x) :: u64)) = 2 ^ 44 * (15 - ln_bits x)"
    by (simp only: unsigned_push_bit_eq) (simp add: push_bit_eq_mult take_bit_eq_mod unsigned_of_nat)
  have "crush_ln u = Some (push_bit 44 (of_nat (15 - ln_bits x)) + drop_bit 4 s)"
    using crush_ln_eq [OF x] by (simp add: x_def s_def y_def)
  moreover have "unat (push_bit 44 (of_nat (15 - ln_bits x)) + drop_bit 4 s) \<le> 0xffffffffffff"
    using b e by (simp add: unat_word_ariths)
  ultimately show ?thesis using that by (simp add: word_le_nat_alt)
qed

end
