(* ===== verification/CrushBucket.thy ===== *)
theory CrushBucket
  imports CrushPerm CrushLn
begin

text \<open>
  Every algorithm draws one of the items of a well-formed bucket. For straw2 more is shown: the
  item has the greatest draw, and an item of weight zero is only drawn when all weights are zero.
\<close>

section \<open>The longest straw\<close>

definition longest_at :: "(nat \<Rightarrow> 'a :: linorder) \<Rightarrow> nat \<Rightarrow> nat \<Rightarrow> bool" where
  "longest_at d n h \<longleftrightarrow> h < n \<and> (\<forall>j < n. d j \<le> d h) \<and> (\<forall>j < h. d j < d h)"

lemma longest_fold:
  fixes d :: "nat \<Rightarrow> 'a :: linorder"
  assumes "\<And>i h m. i < n \<Longrightarrow> f (h, m) i = Some (if i = 0 \<or> d i > m then (i, d i) else (h, m))"
    and "0 < n"
  obtains h where "fold_opt f (0, z) [0..<n] = Some (h, d h)" "longest_at d n h"
proof -
  have "\<exists>h. fold_opt f (0, z) [0..<k] = Some (h, d h) \<and> longest_at d k h" if "0 < k" "k \<le> n" for k
    using that
  proof (induction k)
    case (Suc k)
    show ?case
    proof (cases "k = 0")
      case True
      then show ?thesis using assms(1) [of 0] Suc(3) by (auto simp: longest_at_def)
    next
      case False
      then obtain h where h: "fold_opt f (0, z) [0..<k] = Some (h, d h)" "longest_at d k h"
        using Suc by auto
      have "longest_at d (Suc k) (if d k > d h then k else h)"
        using h(2) unfolding longest_at_def by (auto simp: less_Suc_eq)
      moreover have "fold_opt f (0, z) [0..<Suc k] = Some (if d k > d h then (k, d k) else (h, d h))"
        using h(1) assms(1) [of k] False Suc(3) by (simp add: fold_opt_append)
      ultimately show ?thesis by (cases "d k > d h") auto
    qed
  qed simp
  then show ?thesis using assms(2) that by blast
qed

section \<open>Well-formed buckets\<close>

definition tree_ok :: "crush_bucket \<Rightarrow> u8 \<Rightarrow> u32 list \<Rightarrow> bool" where
  "tree_ok b nodes nws \<longleftrightarrow>
     (\<exists>d \<in> {1..7}. unat nodes = 2 ^ d) \<and> length nws = unat nodes \<and>
     nws ! (unat nodes div 2) \<noteq> 0 \<and>
     (\<forall>h \<in> {1..<7}. \<forall>q \<in> {0..<64}. 2 ^ h * (2 * q + 1) < unat nodes \<longrightarrow>
        unat (nws ! (2 ^ h * (2 * q + 1))) =
          unat (nws ! (2 ^ h * (2 * q + 1) - 2 ^ (h - 1))) + unat (nws ! (2 ^ h * (2 * q + 1) + 2 ^ (h - 1)))) \<and>
     (\<forall>i \<in> {0..<128}. unat (b_size b) \<le> i \<longrightarrow> 2 * i + 1 < unat nodes \<longrightarrow> nws ! (2 * i + 1) = 0)"

definition body_ok :: "crush_bucket \<Rightarrow> bool" where
  "body_ok b =
     (case b_body b of
        CRUSH_BUCKET_LIST iws sws \<Rightarrow> length iws = unat (b_size b) \<and> length sws = unat (b_size b)
      | CRUSH_BUCKET_TREE nodes nws \<Rightarrow> b_size b \<noteq> 0 \<longrightarrow> tree_ok b nodes nws
      | CRUSH_BUCKET_STRAW iws strs \<Rightarrow> length strs = unat (b_size b)
      | CRUSH_BUCKET_STRAW2 iws \<Rightarrow> length iws = unat (b_size b)
      | _ \<Rightarrow> True)"

definition bucket_ok :: "crush_bucket \<Rightarrow> bool" where
  "bucket_ok b \<longleftrightarrow> length (b_items b) = unat (b_size b) \<and> b_id b < 0 \<and> 0 < b_type b \<and> body_ok b"

text \<open>Replacement weights and identifiers have the size of the bucket.\<close>

definition arg_ok :: "crush_bucket \<Rightarrow> crush_choose_arg option \<Rightarrow> bool" where
  "arg_ok b arg =
     (case arg of
        None \<Rightarrow> True
      | Some a \<Rightarrow>
          (case ca_ids a of None \<Rightarrow> True | Some l \<Rightarrow> length l = unat (b_size b)) \<and>
          (case ca_weight_set a of
             None \<Rightarrow> True
           | Some ws \<Rightarrow> ws \<noteq> [] \<and> (\<forall>w \<in> set ws. length w = unat (b_size b))))"

section \<open>The algorithms\<close>

lemma list_choose_below_ok:
  assumes "bucket_ok b" "b_size b \<noteq> 0" "length iws = unat (b_size b)" "length sws = unat (b_size b)"
    and "i \<le> unat (b_size b)"
  shows "\<exists>item \<in> set (b_items b). list_choose_below b iws sws x r i = Some item"
  using assms(5)
proof (induction i)
  case 0
  have "0 < length (b_items b)" using assms(1,2) by (simp add: bucket_ok_def unat_gt_0)
  then show ?case using arr_simps(1) [of 0 "b_items b"] by simp
next
  case (Suc i)
  then have "i < length (b_items b)" "i < length iws" "i < length sws"
    using assms by (auto simp: bucket_ok_def)
  with Suc show ?case by (simp add: arr_simps Let_def)
qed

lemma straw_choose_ok:
  assumes "bucket_ok b" "b_size b \<noteq> 0" "length strs = unat (b_size b)"
  shows "\<exists>item \<in> set (b_items b). bucket_straw_choose b strs x r = Some item"
proof -
  have l: "length (b_items b) = unat (b_size b)" using assms(1) by (simp add: bucket_ok_def)
  obtain h where "fold_opt (straw_pass b strs x r) (0, 0) [0..<unat (b_size b)] = Some h"
    "fst h < unat (b_size b)"
    by (rule longest_fold [where f = "straw_pass b strs x r" and n = "unat (b_size b)" and z = 0 and
        d = "\<lambda>i. (ucast (crush_hash32_3 (b_hash b) x (of_int (b_items b ! i)) r) AND 0xffff) * ucast (strs ! i)"])
      (use l assms(2,3) in \<open>auto simp: straw_pass_def arr_simps Let_def unat_gt_0 longest_at_def\<close>)
  then show ?thesis using l by (cases h) (simp add: bucket_straw_choose_def arr_simps)
qed

lemma straw2_draw_zero: "straw2_draw b x r 0 item = Some S64_MIN"
  by (simp add: straw2_draw_def)

lemma straw2_draw_bounds:
  assumes "w \<noteq> 0"
  obtains d where "straw2_draw b x r w item = Some d" "- (2 ^ 48) \<le> d" "d \<le> 0"
proof -
  let ?u = "crush_hash32_3 (b_hash b) x (of_int item) r AND 0xffff"
  have "?u \<le> 0xffff" by (rule word_and_le1)
  then obtain l where l: "crush_ln ?u = Some l" "l \<le> 0xffffffffffff" by (rule crush_ln_bound)
  have "uint l \<le> 0xffffffffffff" using l(2) by (simp add: word_le_def)
  moreover have "l - 0x1000000000000 = word_of_int (uint l - 0x1000000000000)" by simp
  ultimately have s: "sint (l - 0x1000000000000) = uint l - 0x1000000000000"
    by (simp only: signed_of_int) (simp add: signed_take_bit_int_eq_self)
  let ?k = "0x1000000000000 - uint l" and ?w = "uint w"
  have w: "0 < ?w" using assms by (simp add: word_neq_0_conv word_less_def)
  have k: "0 < ?k" "?k \<le> 2 ^ 48" using \<open>uint l \<le> _\<close> by auto
  have "(uint l - 0x1000000000000) sdiv ?w = - (?k div ?w)"
    using w k(1) by (simp add: signed_divide_int_def sgn_if)
  moreover have "0 \<le> ?k div ?w" using w k(1) by (simp add: pos_imp_zdiv_nonneg_iff)
  moreover have "?k div ?w \<le> 2 ^ 48"
  proof -
    have "?k div ?w \<le> ?k" using w k(1) zdiv_mono2 [of ?k 1 ?w] by simp
    with k(2) show ?thesis by linarith
  qed
  ultimately show ?thesis
    using l(1) s assms by (intro that [of "- (?k div ?w)"]) (simp_all add: straw2_draw_def)
qed

definition straw2_draws :: "crush_bucket \<Rightarrow> u32 list \<Rightarrow> int list \<Rightarrow> u32 \<Rightarrow> u32 \<Rightarrow> nat \<Rightarrow> int" where
  "straw2_draws b weights ids x r i = the (straw2_draw b x r (weights ! i) (ids ! i))"

lemma straw2_draws:
  "straw2_draw b x r (weights ! i) (ids ! i) = Some (straw2_draws b weights ids x r i)"
  "weights ! i = 0 \<Longrightarrow> straw2_draws b weights ids x r i = S64_MIN"
  "weights ! i \<noteq> 0 \<Longrightarrow> S64_MIN < straw2_draws b weights ids x r i"
proof -
  show 1: "straw2_draw b x r (weights ! i) (ids ! i) = Some (straw2_draws b weights ids x r i)"
    by (cases "weights ! i = 0")
      (auto simp: straw2_draws_def straw2_draw_zero elim: straw2_draw_bounds [of "weights ! i" b x r "ids ! i"])
  show "weights ! i = 0 \<Longrightarrow> straw2_draws b weights ids x r i = S64_MIN"
    using 1 by (simp add: straw2_draw_zero)
  show "weights ! i \<noteq> 0 \<Longrightarrow> S64_MIN < straw2_draws b weights ids x r i"
    using 1 by (elim straw2_draw_bounds [of "weights ! i" b x r "ids ! i"]) (auto simp: S64_MIN_def)
qed

lemma choose_arg_lengths:
  assumes "arg_ok b arg" "length iws = unat (b_size b)" "length (b_items b) = unat (b_size b)" "0 \<le> position"
  obtains weights where "get_choose_arg_weights iws arg position = Some weights"
    "length weights = unat (b_size b)" "length (get_choose_arg_ids b arg) = unat (b_size b)"
proof -
  have ids: "length (get_choose_arg_ids b arg) = unat (b_size b)"
    using assms(1,3) by (auto simp: arg_ok_def get_choose_arg_ids_def split: option.splits)
  show ?thesis
  proof (cases "get_choose_arg_weights iws arg position = Some iws")
    case True
    then show ?thesis using that assms(2) ids by blast
  next
    case False
    define at where "at ws = (if position \<ge> int (length ws) then int (length ws) - 1 else position)" for ws :: "u32 list list"
    obtain ws where ws: "get_choose_arg_weights iws arg position = arr_get ws (at ws)"
      "ws \<noteq> []" "\<forall>w \<in> set ws. length w = unat (b_size b)"
      using assms(1) False by (auto simp: arg_ok_def get_choose_arg_weights_def at_def split: option.splits)
    have "0 \<le> at ws" "at ws < int (length ws)"
      using assms(4) ws(2) by (auto simp: at_def Suc_le_eq)
    moreover from this have "ws ! nat (at ws) \<in> set ws" by simp
    ultimately show ?thesis using ws ids by (intro that [of "ws ! nat (at ws)"]) (auto simp: arr_get_def)
  qed
qed

lemma straw2_choose_spec:
  assumes "bucket_ok b" "b_size b \<noteq> 0" "length iws = unat (b_size b)" "arg_ok b arg" "0 \<le> position"
  obtains weights h where "get_choose_arg_weights iws arg position = Some weights"
    "length weights = unat (b_size b)"
    "bucket_straw2_choose b iws x r arg position = Some (b_items b ! h)"
    "longest_at (straw2_draws b weights (get_choose_arg_ids b arg) x r) (unat (b_size b)) h"
proof -
  let ?n = "unat (b_size b)" and ?ids = "get_choose_arg_ids b arg"
  have l: "length (b_items b) = ?n" using assms(1) by (simp add: bucket_ok_def)
  obtain weights where w: "get_choose_arg_weights iws arg position = Some weights"
    "length weights = ?n" "length ?ids = ?n"
    using choose_arg_lengths [OF assms(4,3) l assms(5)] .
  obtain h where h: "fold_opt (straw2_pass b weights ?ids x r) (0, 0) [0..<?n] =
      Some (h, straw2_draws b weights ?ids x r h)" "longest_at (straw2_draws b weights ?ids x r) ?n h"
    by (rule longest_fold [where f = "straw2_pass b weights ?ids x r" and n = ?n and z = 0 and
        d = "straw2_draws b weights ?ids x r"])
      (use w assms(2) in \<open>auto simp: straw2_pass_def arr_simps straw2_draws(1) unat_gt_0\<close>)
  then have "bucket_straw2_choose b iws x r arg position = Some (b_items b ! h)"
    using w(1) l by (simp add: bucket_straw2_choose_def Let_def arr_simps longest_at_def)
  with w h that show ?thesis by blast
qed

lemma longest_nonzero:
  assumes "longest_at (straw2_draws b weights ids x r) n h" "i < n" "weights ! i \<noteq> 0"
  shows "weights ! h \<noteq> 0"
  using assms straw2_draws(2) [of weights h b ids x r] straw2_draws(3) [OF assms(3), of b ids x r]
  by (force simp: longest_at_def)

section \<open>Trees\<close>

lemma int_even: "(n :: int) AND 1 = n mod 2"
  by (simp add: and_one_eq)

lemma tree_height_eq: "tree_height h (int (2 ^ k * (2 * q + 1))) = Some (h + int k)"
proof (induction k arbitrary: h)
  case 0
  show ?case by (subst tree_height.simps) (simp add: int_even)
next
  case (Suc k)
  have "int (2 ^ Suc k * (2 * q + 1)) AND 1 = 0" by (simp add: int_even)
  moreover have "drop_bit 1 (int (2 ^ Suc k * (2 * q + 1))) = int (2 ^ k * (2 * q + 1))"
    by (simp add: drop_bit_eq_div)
  ultimately show ?case using Suc [of "h + 1"] by (subst tree_height.simps) simp
qed

lemma tree_children:
  "tree_left (int (2 ^ Suc k * (2 * q + 1))) = Some (int (2 ^ k * (2 * (2 * q) + 1)))"
  "tree_right (int (2 ^ Suc k * (2 * q + 1))) = Some (int (2 ^ k * (2 * (2 * q + 1) + 1)))"
  using tree_height_eq [of 0 "Suc k" q]
  by (simp_all add: tree_left_def tree_right_def nat_add_distrib push_bit_eq_mult algebra_simps)

text \<open>A point of the node's weight, scaled from the hash, lies below it.\<close>

lemma scaled_less:
  fixes g w :: u32
  assumes "w \<noteq> 0"
  shows "unat (drop_bit 32 (ucast g * ucast w :: u64)) < unat w"
proof -
  have g: "unat g * unat w < 2 ^ 32 * unat w"
    using assms unsigned_less [of g, where ?'a = nat] by (simp add: unat_gt_0)
  also have "\<dots> \<le> 2 ^ 32 * 2 ^ 32"
    using unsigned_less [of w, where ?'a = nat] by (intro mult_le_mono) auto
  finally have v: "unat (ucast g * ucast w :: u64) = unat g * unat w"
    using ucast_mult [of g "ucast w"] by (simp add: unat_ucast64)
  show ?thesis
    using g by (simp add: drop_bit_eq_div unat_div_distrib v [simplified] less_mult_imp_div_less mult.commute)
qed

lemma tree_okD:
  assumes "tree_ok b nodes nws" "1 \<le> h" "h < 7" "q < 64" "2 ^ h * (2 * q + 1) < unat nodes"
  shows "unat (nws ! (2 ^ h * (2 * q + 1))) =
    unat (nws ! (2 ^ h * (2 * q + 1) - 2 ^ (h - 1))) + unat (nws ! (2 ^ h * (2 * q + 1) + 2 ^ (h - 1)))"
  using assms unfolding tree_ok_def by (meson atLeastLessThan_iff le0)

lemma tree_node_split:
  assumes t: "tree_ok b nodes nws" and n: "2 ^ Suc k * (2 * q + 1) < unat nodes"
  shows "2 ^ k * (2 * (2 * q) + 1) < unat nodes" "2 ^ k * (2 * (2 * q + 1) + 1) < unat nodes"
    "unat (nws ! (2 ^ Suc k * (2 * q + 1))) =
       unat (nws ! (2 ^ k * (2 * (2 * q) + 1))) + unat (nws ! (2 ^ k * (2 * (2 * q + 1) + 1)))"
proof -
  obtain d where d: "d \<le> 7" "unat nodes = 2 ^ d" using t by (auto simp: tree_ok_def)
  have "(2 :: nat) ^ Suc k < 2 ^ d" using n d(2) by (simp add: algebra_simps)
  then have kd: "Suc k < d" by (simp only: power_strict_increasing_iff)
  then have D: "unat nodes = 2 ^ Suc k * 2 ^ (d - Suc k)" using d(2) by (simp flip: power_add power_Suc)
  have "2 ^ Suc k * (2 * q + 1) < 2 ^ Suc k * 2 ^ (d - Suc k)" using n unfolding D .
  then have "2 * q + 1 < 2 ^ (d - Suc k)" by (simp only: mult_less_cancel1)
  moreover have "even ((2 :: nat) ^ (d - Suc k))" using kd by simp
  ultimately have "2 * q + 2 \<le> 2 ^ (d - Suc k)" by presburger
  then have "2 ^ Suc k * (2 * q + 2) \<le> unat nodes" unfolding D by (intro mult_le_mono2)
  then have "2 ^ k * (4 * q + 4) \<le> unat nodes" by (simp add: algebra_simps)
  moreover have "2 ^ k * (2 * (2 * q + 1) + 1) < 2 ^ k * (4 * q + 4)"
    "2 ^ k * (2 * (2 * q) + 1) < 2 ^ k * (4 * q + 4)" by (simp_all only: mult_less_cancel1) simp_all
  ultimately show "2 ^ k * (2 * (2 * q + 1) + 1) < unat nodes" "2 ^ k * (2 * (2 * q) + 1) < unat nodes"
    by simp_all
  have "q < 64"
  proof -
    have "1 * (2 * q + 1) \<le> 2 ^ Suc k * (2 * q + 1)" by (intro mult_le_mono1 one_le_power) simp
    also have "\<dots> < 128" using n d power_increasing [OF d(1), of "2 :: nat"] by simp
    finally show ?thesis by simp
  qed
  moreover have "2 ^ Suc k * (2 * q + 1) - 2 ^ k = 2 ^ k * (2 * (2 * q) + 1)"
    "2 ^ Suc k * (2 * q + 1) + 2 ^ k = 2 ^ k * (2 * (2 * q + 1) + 1)"
    by (simp_all add: algebra_simps)
  ultimately show "unat (nws ! (2 ^ Suc k * (2 * q + 1))) =
       unat (nws ! (2 ^ k * (2 * (2 * q) + 1))) + unat (nws ! (2 ^ k * (2 * (2 * q + 1) + 1)))"
    using tree_okD [OF t, of "Suc k" q] n kd d(1) by (simp only: diff_Suc_1)
qed

lemma tree_descend_ok:
  assumes t: "tree_ok b nodes nws"
    and n: "2 ^ k * (2 * q + 1) < unat nodes" "nws ! (2 ^ k * (2 * q + 1)) \<noteq> 0"
  shows "\<exists>i < unat (b_size b). tree_descend b nws x r (int (2 ^ k * (2 * q + 1))) = Some (int (2 * i + 1))"
  using n
proof (induction k arbitrary: q)
  case 0
  have N: "unat nodes \<le> 128"
    using t power_increasing [of _ 7 "2 :: nat"] by (auto simp: tree_ok_def)
  have "q < unat (b_size b)"
  proof (rule ccontr)
    assume "\<not> q < unat (b_size b)"
    then have "nws ! (2 * q + 1) = 0" using t 0(1) N by (auto simp: tree_ok_def)
    then show False using 0 by simp
  qed
  moreover have "tree_descend b nws x r (int (2 ^ 0 * (2 * q + 1))) = Some (int (2 * q + 1))"
    by (subst tree_descend.simps) (simp add: tree_terminal_def int_even)
  ultimately show ?case by blast
next
  case (Suc k)
  let ?n = "2 ^ Suc k * (2 * q + 1)" and ?l = "2 ^ k * (2 * (2 * q) + 1)" and ?r = "2 ^ k * (2 * (2 * q + 1) + 1)"
  have lr: "?l < unat nodes" "?r < unat nodes" "unat (nws ! ?n) = unat (nws ! ?l) + unat (nws ! ?r)" "length nws = unat nodes"
    using tree_node_split [OF t Suc(2)] t by (auto simp: tree_ok_def)
  let ?t = "drop_bit 32 (ucast (crush_hash32_4 (b_hash b) x (of_int (int ?n)) r (of_int (b_id b))) * (ucast (nws ! ?n) :: u64))"
  have "tree_descend b nws x r (int ?n) = tree_descend b nws x r (int (if ?t < ucast (nws ! ?l) then ?l else ?r))"
    using lr Suc(2) tree_children [of k q]
    by (subst tree_descend.simps) (simp add: tree_terminal_def int_even arr_simps Let_def del: of_nat_mult of_nat_add of_nat_power)
  moreover have "nws ! (if ?t < ucast (nws ! ?l) then ?l else ?r) \<noteq> 0"
    using scaled_less [OF Suc(3)] lr(3) by (auto simp: word_less_nat_alt unat_ucast64)
  ultimately show ?case using Suc(1) [of "2 * q"] Suc(1) [of "2 * q + 1"] lr by auto
qed

lemma tree_choose_ok:
  assumes "bucket_ok b" "tree_ok b nodes nws"
  shows "\<exists>item \<in> set (b_items b). bucket_tree_choose b nodes nws x r = Some item"
proof -
  obtain d where d: "1 \<le> d" "unat nodes = 2 ^ d" using assms(2) by (auto simp: tree_ok_def)
  then obtain k where k: "unat nodes = 2 * 2 ^ k" by (cases d) auto
  have root: "drop_bit 1 (uint nodes) = int (2 ^ k * (2 * 0 + 1))"
  proof -
    have "uint nodes = int (2 * 2 ^ k)" by (simp only: uint_nat k)
    then show ?thesis by (simp add: drop_bit_eq_div)
  qed
  have "nws ! (2 ^ k * (2 * 0 + 1)) \<noteq> 0" using assms(2) k by (simp add: tree_ok_def)
  then obtain i where "i < unat (b_size b)"
    "tree_descend b nws x r (int (2 ^ k * (2 * 0 + 1))) = Some (int (2 * i + 1))"
    using tree_descend_ok [OF assms(2), of k 0 x r] k by auto
  then show ?thesis
    using assms(1) unfolding bucket_tree_choose_def root
    by (simp add: bucket_ok_def drop_bit_eq_div arr_simps)
qed

section \<open>The contract\<close>

lemma crush_bucket_choose_ok:
  assumes "bucket_ok b" "b_size b \<noteq> 0" "wb_ok b w" "arg_ok b arg" "0 \<le> position"
  obtains item w' where "crush_bucket_choose b w x r arg position = Some (item, w')"
    "item \<in> set (b_items b)" "wb_ok b w'"
proof -
  note found = that
  have l: "length (b_items b) = unat (b_size b)" and n: "0 < unat (b_size b)"
    using assms(1,2) by (auto simp: bucket_ok_def unat_gt_0)
  have simple: thesis
    if "crush_bucket_choose b w x r arg position = map_option (\<lambda>i. (i, w)) d"
      "\<exists>item \<in> set (b_items b). d = Some item" for d
    using that assms(3) by (auto intro: found)
  show ?thesis
  proof (cases "b_body b")
    case (CRUSH_BUCKET_UNIFORM iw)
    obtain w' where w': "bucket_perm_choose b w x r = Some (perm_item b x (unat (r mod b_size b)), w')" "wb_ok b w'"
      using bucket_perm_choose_eq [OF assms(3,2) l] .
    have "perm_item b x (unat (r mod b_size b)) \<in> set (b_items b)"
      using perm_ref_less [of "unat (r mod b_size b)" b x] n l
      by (simp add: perm_item_def unat_mod_distrib)
    with w' CRUSH_BUCKET_UNIFORM assms(2) show ?thesis
      by (intro that) (simp_all add: crush_bucket_choose_def)
  next
    case (CRUSH_BUCKET_LIST iws sws)
    then have "length iws = unat (b_size b)" "length sws = unat (b_size b)"
      using assms(1) by (auto simp: bucket_ok_def body_ok_def)
    then show ?thesis
      using CRUSH_BUCKET_LIST assms(2) list_choose_below_ok [OF assms(1,2)]
      by (intro simple [of "bucket_list_choose b iws sws x r"])
        (simp_all add: crush_bucket_choose_def bucket_list_choose_def)
  next
    case (CRUSH_BUCKET_TREE nodes nws)
    then have "tree_ok b nodes nws" using assms(1,2) by (auto simp: bucket_ok_def body_ok_def)
    then show ?thesis
      using CRUSH_BUCKET_TREE assms(2) tree_choose_ok [OF assms(1)]
      by (intro simple [of "bucket_tree_choose b nodes nws x r"]) (simp_all add: crush_bucket_choose_def)
  next
    case (CRUSH_BUCKET_STRAW iws strs)
    then have "length strs = unat (b_size b)" using assms(1) by (auto simp: bucket_ok_def body_ok_def)
    then show ?thesis
      using CRUSH_BUCKET_STRAW assms(2) straw_choose_ok [OF assms(1,2)]
      by (intro simple [of "bucket_straw_choose b strs x r"]) (simp_all add: crush_bucket_choose_def)
  next
    case (CRUSH_BUCKET_STRAW2 iws)
    then have "length iws = unat (b_size b)" using assms(1) by (auto simp: bucket_ok_def body_ok_def)
    then obtain h where "bucket_straw2_choose b iws x r arg position = Some (b_items b ! h)" "h < unat (b_size b)"
      by (rule straw2_choose_spec [OF assms(1,2) _ assms(4,5), of iws x r]) (auto simp: longest_at_def)
    then show ?thesis
      using CRUSH_BUCKET_STRAW2 assms(2) l
      by (intro simple [of "bucket_straw2_choose b iws x r arg position"]) (simp_all add: crush_bucket_choose_def)
  next
    case CRUSH_BUCKET_OTHER
    then show ?thesis
      using assms(2) n l arr_simps(1) [of 0 "b_items b"]
      by (intro simple [of "arr_get (b_items b) 0"]) (simp_all add: crush_bucket_choose_def)
  qed
qed

section \<open>Claim\<close>

text \<open>
  C5: \<^verbatim>\<open>bucket_straw2_choose\<close> draws the first item with the longest straw, with the weights and
  identifiers of the position in effect. Every table access is in range, all straws of items with a
  weight are longer than those without, and so an item of weight zero is drawn only when every
  weight in effect is zero.
\<close>

theorem straw2_longest:
  assumes "bucket_ok b" "b_body b = CRUSH_BUCKET_STRAW2 iws" "b_size b \<noteq> 0" "arg_ok b arg" "0 \<le> position"
  shows "\<exists>weights h. get_choose_arg_weights iws arg position = Some weights \<and>
     bucket_straw2_choose b iws x r arg position = Some (b_items b ! h) \<and>
     longest_at (straw2_draws b weights (get_choose_arg_ids b arg) x r) (unat (b_size b)) h \<and>
     (weights ! h = 0 \<longrightarrow> (\<forall>w \<in> set weights. w = 0))"
proof -
  have "length iws = unat (b_size b)" using assms(1,2) by (simp add: bucket_ok_def body_ok_def)
  then obtain weights h where w: "get_choose_arg_weights iws arg position = Some weights"
    "length weights = unat (b_size b)" "bucket_straw2_choose b iws x r arg position = Some (b_items b ! h)"
    "longest_at (straw2_draws b weights (get_choose_arg_ids b arg) x r) (unat (b_size b)) h"
    by (rule straw2_choose_spec [OF assms(1,3) _ assms(4,5), of iws x r])
  moreover have "weights ! h = 0 \<longrightarrow> (\<forall>w \<in> set weights. w = 0)"
    using longest_nonzero [OF w(4)] w(2) by (metis in_set_conv_nth)
  ultimately show ?thesis by blast
qed

definition ex_straw2 :: crush_bucket where
  "ex_straw2 = \<lparr>b_id = -1, b_type = 1, b_hash = 0, b_weight = 0x10000, b_size = 2, b_items = [4, 5],
     b_body = CRUSH_BUCKET_STRAW2 [0, 0x10000]\<rparr>"

lemma straw2_longest_witness:
  "bucket_ok ex_straw2 \<and> bucket_straw2_choose ex_straw2 [0, 0x10000] 1 2 None 0 = Some 5"
proof -
  have ok: "bucket_ok ex_straw2" "b_body ex_straw2 = CRUSH_BUCKET_STRAW2 [0, 0x10000]" "b_size ex_straw2 \<noteq> 0"
    "arg_ok ex_straw2 None" "b_items ex_straw2 = [4, 5]" "unat (b_size ex_straw2) = 2"
    by (simp_all add: ex_straw2_def bucket_ok_def body_ok_def arg_ok_def)
  obtain h where h: "bucket_straw2_choose ex_straw2 [0, 0x10000] 1 2 None 0 = Some ([4, 5] ! h)" "h < 2"
    "[0, 0x10000 :: u32] ! h \<noteq> 0"
    using straw2_longest [OF ok(1-4), of 0 1 2] ok(5,6) by (auto simp: get_choose_arg_weights_def longest_at_def)
  then have "h = 1" by (auto simp: less_2_cases_iff)
  with h(1) ok(1) show ?thesis by simp
qed

end
