(* ===== verification/CrushChoose.thy ===== *)
theory CrushChoose
  imports CrushMap
begin

unbundle bit_operations_syntax

text \<open>
  The placement algorithm of \<^verbatim>\<open>crush/mapper.c\<close>: the descent from a bucket to items of a type,
  depth first (\<^verbatim>\<open>crush_choose_firstn\<close>) and breadth first (\<^verbatim>\<open>crush_choose_indep\<close>), and the
  interpreter of rules \<^verbatim>\<open>crush_do_rule\<close>.

  Both choose functions call themselves once, to find a device below an item, with
  \<^verbatim>\<open>recurse_to_leaf\<close> off. The model takes that call as an argument \<open>leaf\<close> of the loops and
  ties it one level deep, which is all the recursion there is. The statistics that the mapper keeps
  in \<^verbatim>\<open>map->choose_tries\<close> are part of the working state, because the map itself is constant.
\<close>

section \<open>Data\<close>

datatype crush_opcodes =
  CRUSH_RULE_NOOP
| CRUSH_RULE_TAKE
| CRUSH_RULE_CHOOSE_FIRSTN
| CRUSH_RULE_CHOOSE_INDEP
| CRUSH_RULE_EMIT
| CRUSH_RULE_CHOOSELEAF_FIRSTN
| CRUSH_RULE_CHOOSELEAF_INDEP
| CRUSH_RULE_SET_CHOOSE_TRIES
| CRUSH_RULE_SET_CHOOSELEAF_TRIES
| CRUSH_RULE_SET_CHOOSE_LOCAL_TRIES
| CRUSH_RULE_SET_CHOOSE_LOCAL_FALLBACK_TRIES
| CRUSH_RULE_SET_CHOOSELEAF_VARY_R
| CRUSH_RULE_SET_CHOOSELEAF_STABLE
| CRUSH_RULE_UNKNOWN

record crush_rule_step =
  s_op :: crush_opcodes
  s_arg1 :: int
  s_arg2 :: int

record crush_rule_mask =
  mask_ruleset :: int
  mask_type :: int
  mask_min_size :: int
  mask_max_size :: int

record crush_rule =
  r_mask :: crush_rule_mask
  r_steps :: "crush_rule_step list"

record crush_map =
  m_buckets :: "crush_bucket option list"
  m_rules :: "crush_rule option list"
  max_devices :: int
  choose_local_tries :: u32
  choose_local_fallback_tries :: u32
  choose_total_tries :: u32
  chooseleaf_descend_once :: u32
  chooseleaf_vary_r :: u8
  chooseleaf_stable :: u8

record crush_work =
  w_work :: "crush_work_bucket option list"
  w_choose_tries :: "u32 list option"

definition CRUSH_ITEM_UNDEF :: int where
  "CRUSH_ITEM_UNDEF = 0x7ffffffe"

definition CRUSH_ITEM_NONE :: int where
  "CRUSH_ITEM_NONE = 0x7fffffff"

abbreviation max_buckets :: "crush_map \<Rightarrow> int" where
  "max_buckets m \<equiv> int (length (m_buckets m))"

text \<open>\<^verbatim>\<open>map->buckets[-1-item]\<close>; \<open>None\<close> outside the array and for a null pointer.\<close>

definition bucket_at :: "crush_map \<Rightarrow> int \<Rightarrow> crush_bucket option" where
  "bucket_at m item = Option.bind (arr_get (m_buckets m) (-1 - item)) (\<lambda>b. b)"

text \<open>The arguments that stay the same during one placement; \<^verbatim>\<open>weight_max\<close> is the length of the weights.\<close>

record crush_input =
  i_map :: crush_map
  i_weight :: "u32 list"
  i_x :: u32
  i_choose_args :: "crush_choose_arg list option"

text \<open>The working area and the two output arrays; \<open>None\<close> is a null \<^verbatim>\<open>out2\<close>.\<close>

record choose_state =
  st_work :: crush_work
  st_out :: "int list"
  st_out2 :: "int list option"

section \<open>Rules and working areas\<close>

definition rule_matches :: "int \<Rightarrow> int \<Rightarrow> int \<Rightarrow> crush_rule option \<Rightarrow> bool" where
  "rule_matches ruleset type sz r =
     (case r of
        None \<Rightarrow> False
      | Some r \<Rightarrow> mask_ruleset (r_mask r) = ruleset \<and> mask_type (r_mask r) = type \<and>
                  mask_min_size (r_mask r) \<le> sz \<and> mask_max_size (r_mask r) \<ge> sz)"

fun find_rule_from :: "int \<Rightarrow> crush_rule option list \<Rightarrow> int \<Rightarrow> int \<Rightarrow> int \<Rightarrow> int" where
  "find_rule_from i [] ruleset type sz = -1"
| "find_rule_from i (r # rs) ruleset type sz =
     (if rule_matches ruleset type sz r then i else find_rule_from (i + 1) rs ruleset type sz)"

definition crush_find_rule :: "crush_map \<Rightarrow> int \<Rightarrow> int \<Rightarrow> int \<Rightarrow> int" where
  "crush_find_rule m ruleset type sz = find_rule_from 0 (m_rules m) ruleset type sz"

text \<open>
  The permutation arrays are not initialised: \<open>mem\<close> is what the memory holds.
\<close>

definition crush_init_workspace :: "crush_map \<Rightarrow> (nat \<Rightarrow> nat \<Rightarrow> u32) \<Rightarrow> crush_work_bucket option list" where
  "crush_init_workspace m mem =
     map (\<lambda>(i, b). map_option (\<lambda>b. \<lparr>perm_x = 0, perm_n = 0, perm = map (mem i) [0..<unat (b_size b)]\<rparr>) b)
       (enumerate 0 (m_buckets m))"

definition is_out :: "u32 list \<Rightarrow> int \<Rightarrow> u32 \<Rightarrow> bool option" where
  "is_out weight item x =
     (if item \<ge> int (length weight) then Some True
      else do {
        w \<leftarrow> arr_get weight item;
        Some (if w \<ge> 0x10000 then False
              else if w = 0 then True
              else \<not> crush_hash32_2 CRUSH_HASH_RJENKINS1 x (of_int item) AND 0xffff < w) })"

text \<open>\<^verbatim>\<open>if (map->choose_tries && ftotal <= map->choose_total_tries) map->choose_tries[ftotal]++\<close>\<close>

definition count_tries :: "crush_map \<Rightarrow> u32 \<Rightarrow> crush_work \<Rightarrow> crush_work option" where
  "count_tries m ftotal work =
     (case w_choose_tries work of
        None \<Rightarrow> Some work
      | Some h \<Rightarrow>
          if ftotal \<le> choose_total_tries m then do {
            n \<leftarrow> arr_get h (uint ftotal);
            h \<leftarrow> arr_set h (uint ftotal) (n + 1);
            Some (work\<lparr>w_choose_tries := Some h\<rparr>) }
          else Some work)"

text \<open>Draw from \<open>b\<close> with its own working area \<^verbatim>\<open>work->work[-1-b->id]\<close>.\<close>

definition on_work ::
  "crush_bucket \<Rightarrow> (crush_work_bucket \<Rightarrow> (int \<times> crush_work_bucket) option) \<Rightarrow> crush_work
     \<Rightarrow> (int \<times> crush_work) option" where
  "on_work b draw work = do {
     wb \<leftarrow> arr_get (w_work work) (-1 - b_id b);
     wb \<leftarrow> wb;
     (item, wb) \<leftarrow> draw wb;
     ws \<leftarrow> arr_set (w_work work) (-1 - b_id b) (Some wb);
     Some (item, work\<lparr>w_work := ws\<rparr>) }"

text \<open>\<^verbatim>\<open>choose_args ? &choose_args[-1-in->id] : 0\<close>\<close>

definition choose_arg_of :: "crush_choose_arg list option \<Rightarrow> crush_bucket \<Rightarrow> crush_choose_arg option option" where
  "choose_arg_of args b =
     (case args of None \<Rightarrow> Some None | Some l \<Rightarrow> map_option Some (arr_get l (-1 - b_id b)))"

definition choose_from :: "crush_input \<Rightarrow> crush_bucket \<Rightarrow> u32 \<Rightarrow> int \<Rightarrow> crush_work \<Rightarrow> (int \<times> crush_work) option" where
  "choose_from inp b r outpos work = do {
     arg \<leftarrow> choose_arg_of (i_choose_args inp) b;
     on_work b (\<lambda>wb. crush_bucket_choose b wb (i_x inp) r arg outpos) work }"

text \<open>\<^verbatim>\<open>itemtype\<close>\<close>

definition item_type :: "crush_map \<Rightarrow> int \<Rightarrow> int option" where
  "item_type m item = (if item < 0 then map_option b_type (bucket_at m item) else Some 0)"

section \<open>Depth first\<close>

record firstn_params =
  f_numrep :: int
  f_type :: int
  f_tries :: u32
  f_recurse_tries :: u32
  f_local_retries :: u32
  f_local_fallback_retries :: u32
  f_recurse_to_leaf :: bool
  f_vary_r :: u32
  f_stable :: u32
  f_parent_r :: u32

type_synonym firstn_leaf =
  "crush_bucket \<Rightarrow> int \<Rightarrow> int \<Rightarrow> u32 \<Rightarrow> crush_work \<Rightarrow> int list \<Rightarrow> (int \<times> crush_work \<times> int list) option"

text \<open>
  What one pass of the inner loop ends with: a bad item, which skips the replica; a bucket to
  descend into; a rejection, with \<^verbatim>\<open>collide\<close>; or an item that is taken.
\<close>

datatype pick = Bad_item | Into crush_bucket | Rejected bool | Taken int

text \<open>The search for a device below \<open>item\<close>; the result is \<^verbatim>\<open>reject\<close>.\<close>

definition firstn_descend_leaf ::
  "firstn_leaf \<Rightarrow> crush_input \<Rightarrow> firstn_params \<Rightarrow> int \<Rightarrow> int \<Rightarrow> u32 \<Rightarrow> int \<Rightarrow> choose_state
     \<Rightarrow> (bool \<times> choose_state) option" where
  "firstn_descend_leaf leaf inp prm outpos count r item st = do {
     out2 \<leftarrow> st_out2 st;
     if item < 0 then do {
       sub_r \<leftarrow> (if f_vary_r prm \<noteq> 0 then do {
                  check (f_vary_r prm - 1 < 32);
                  Some (signed_drop_bit (unat (f_vary_r prm - 1)) r) }
                else Some 0);
       b \<leftarrow> bucket_at (i_map inp) item;
       (n, work, out2) \<leftarrow> leaf b outpos count sub_r (st_work st) out2;
       Some (n \<le> outpos, st\<lparr>st_work := work, st_out2 := Some out2\<rparr>) }
     else do {
       out2 \<leftarrow> arr_set out2 outpos item;
       Some (False, st\<lparr>st_out2 := Some out2\<rparr>) } }"

definition firstn_draw ::
  "crush_input \<Rightarrow> firstn_params \<Rightarrow> crush_bucket \<Rightarrow> u32 \<Rightarrow> u32 \<Rightarrow> int \<Rightarrow> crush_work \<Rightarrow> (int \<times> crush_work) option" where
  "firstn_draw inp prm b flocal r outpos work =
     (if f_local_fallback_retries prm > 0 \<and> flocal \<ge> drop_bit 1 (b_size b) \<and>
         flocal > f_local_fallback_retries prm
      then on_work b (\<lambda>wb. bucket_perm_choose b wb (i_x inp) r) work
      else choose_from inp b r outpos work)"

text \<open>An item of the wanted type: the collision test, the device below it and the test for being out.\<close>

definition firstn_accept ::
  "firstn_leaf \<Rightarrow> crush_input \<Rightarrow> firstn_params \<Rightarrow> int \<Rightarrow> int \<Rightarrow> u32 \<Rightarrow> int \<Rightarrow> int \<Rightarrow> choose_state
     \<Rightarrow> (pick \<times> choose_state) option" where
  "firstn_accept leaf inp prm outpos count r item itemtype st = do {
     check (outpos \<le> int (length (st_out st)));
     let collide = (item \<in> set (take (nat outpos) (st_out st)));
     (reject, st) \<leftarrow>
       (if \<not> collide \<and> f_recurse_to_leaf prm
        then firstn_descend_leaf leaf inp prm outpos count r item st
        else Some (False, st));
     reject \<leftarrow>
       (if \<not> reject \<and> \<not> collide \<and> itemtype = 0 then is_out (i_weight inp) item (i_x inp)
        else Some reject);
     Some (if reject \<or> collide then Rejected collide else Taken item, st) }"

definition firstn_pass ::
  "firstn_leaf \<Rightarrow> crush_input \<Rightarrow> firstn_params \<Rightarrow> int \<Rightarrow> int \<Rightarrow> int \<Rightarrow> crush_bucket \<Rightarrow> u32 \<Rightarrow> u32
     \<Rightarrow> choose_state \<Rightarrow> (pick \<times> choose_state) option" where
  "firstn_pass leaf inp prm rep outpos count b ftotal flocal st =
     (let r = of_int rep + f_parent_r prm + ftotal in
      if b_size b = 0 then Some (Rejected False, st)
      else do {
        (item, work) \<leftarrow> firstn_draw inp prm b flocal r outpos (st_work st);
        let st = st\<lparr>st_work := work\<rparr>;
        if item \<ge> max_devices (i_map inp) then Some (Bad_item, st)
        else do {
          itemtype \<leftarrow> item_type (i_map inp) item;
          if itemtype \<noteq> f_type prm then
            if item \<ge> 0 \<or> -1 - item \<ge> max_buckets (i_map inp) then Some (Bad_item, st)
            else do { c \<leftarrow> bucket_at (i_map inp) item; Some (Into c, st) }
          else firstn_accept leaf inp prm outpos count r item itemtype st } })"

text \<open>
  The two nested loops of one replica. A rejected item is retried in the same bucket or from the
  top. \<open>Inl\<close> goes on with a bucket and the counts of failures, \<open>Inr\<close> leaves the loops with the
  item, or \<open>None\<close> for \<^verbatim>\<open>skip_rep\<close>, and the total of failures.
\<close>

definition firstn_next ::
  "firstn_params \<Rightarrow> crush_bucket \<Rightarrow> crush_bucket \<Rightarrow> u32 \<Rightarrow> u32 \<Rightarrow> pick
     \<Rightarrow> (crush_bucket \<times> u32 \<times> u32) + (int option \<times> u32)" where
  "firstn_next prm bucket b ftotal flocal p =
     (case p of
        Bad_item \<Rightarrow> Inr (None, ftotal)
      | Into c \<Rightarrow> Inl (c, ftotal, flocal)
      | Taken item \<Rightarrow> Inr (Some item, ftotal)
      | Rejected collide \<Rightarrow>
          let ftotal = ftotal + 1; flocal = flocal + 1 in
          if collide \<and> flocal \<le> f_local_retries prm then Inl (b, ftotal, flocal)
          else if f_local_fallback_retries prm > 0 \<and> flocal \<le> b_size b + f_local_fallback_retries prm
          then Inl (b, ftotal, flocal)
          else if ftotal < f_tries prm then Inl (bucket, ftotal, 0)
          else Inr (None, ftotal))"

partial_function (option) firstn_search ::
  "firstn_leaf \<Rightarrow> crush_input \<Rightarrow> firstn_params \<Rightarrow> crush_bucket \<Rightarrow> int \<Rightarrow> int \<Rightarrow> int \<Rightarrow> crush_bucket \<Rightarrow> u32 \<Rightarrow> u32
     \<Rightarrow> choose_state \<Rightarrow> (int option \<times> u32 \<times> choose_state) option" where
  "firstn_search leaf inp prm bucket rep outpos count b ftotal flocal st = do {
     (p, st) \<leftarrow> firstn_pass leaf inp prm rep outpos count b ftotal flocal st;
     case firstn_next prm bucket b ftotal flocal p of
       Inl (b, ftotal, flocal) \<Rightarrow>
         firstn_search leaf inp prm bucket rep outpos count b ftotal flocal st
     | Inr (got, ftotal) \<Rightarrow> Some (got, ftotal, st) }"

declare firstn_search.simps [code]

function firstn_reps ::
  "firstn_leaf \<Rightarrow> crush_input \<Rightarrow> firstn_params \<Rightarrow> crush_bucket \<Rightarrow> int \<Rightarrow> int \<Rightarrow> int \<Rightarrow> choose_state
     \<Rightarrow> (int \<times> choose_state) option" where
  "firstn_reps leaf inp prm bucket rep outpos count st =
     (if rep < f_numrep prm \<and> count > 0 then do {
        (got, ftotal, st) \<leftarrow> firstn_search leaf inp prm bucket rep outpos count bucket 0 0 st;
        case got of
          None \<Rightarrow> firstn_reps leaf inp prm bucket (rep + 1) outpos count st
        | Some item \<Rightarrow> do {
            out \<leftarrow> arr_set (st_out st) outpos item;
            work \<leftarrow> count_tries (i_map inp) ftotal (st_work st);
            firstn_reps leaf inp prm bucket (rep + 1) (outpos + 1) (count - 1)
              (st\<lparr>st_work := work, st_out := out\<rparr>) } }
      else Some (outpos, st))"
  by pat_completeness auto
termination
  by (relation "measure (\<lambda>(leaf, inp, prm, bucket, rep, _). nat (f_numrep prm - rep))") auto

definition choose_firstn_with ::
  "firstn_leaf \<Rightarrow> crush_input \<Rightarrow> firstn_params \<Rightarrow> crush_bucket \<Rightarrow> int \<Rightarrow> int \<Rightarrow> choose_state
     \<Rightarrow> (int \<times> choose_state) option" where
  "choose_firstn_with leaf inp prm bucket outpos out_size st =
     firstn_reps leaf inp prm bucket (if f_stable prm \<noteq> 0 then 0 else outpos) outpos out_size st"

text \<open>The recursive call, for one device below a bucket; its output is the caller's \<^verbatim>\<open>out2\<close>.\<close>

definition firstn_leaf_of :: "crush_input \<Rightarrow> firstn_params \<Rightarrow> firstn_leaf" where
  "firstn_leaf_of inp prm b outpos count sub_r work out2 = do {
     (n, st) \<leftarrow> choose_firstn_with (\<lambda>_ _ _ _ _ _. None) inp
       (prm\<lparr>f_numrep := (if f_stable prm \<noteq> 0 then 1 else outpos + 1), f_type := 0,
            f_tries := f_recurse_tries prm, f_recurse_tries := 0,
            f_recurse_to_leaf := False, f_parent_r := sub_r\<rparr>)
       b outpos count \<lparr>st_work = work, st_out = out2, st_out2 = None\<rparr>;
     Some (n, st_work st, st_out st) }"

definition crush_choose_firstn ::
  "crush_input \<Rightarrow> firstn_params \<Rightarrow> crush_bucket \<Rightarrow> int \<Rightarrow> int \<Rightarrow> choose_state \<Rightarrow> (int \<times> choose_state) option" where
  "crush_choose_firstn inp prm bucket outpos out_size st =
     choose_firstn_with (firstn_leaf_of inp prm) inp prm bucket outpos out_size st"

end
