(* ===== verification/CrushWf.thy ===== *)
theory CrushWf
  imports CrushBucket CrushChoose
begin

text \<open>
  Well-formed CRUSH maps, inputs and working areas, and what drawing from a bucket of such a map
  gives. The map is what \<^verbatim>\<open>crush/crush.h\<close> asks for: a bucket is stored under its identifier,
  children exist, and no bucket lies below itself. Devices beyond \<^verbatim>\<open>max_devices\<close> are allowed;
  the mapper handles them.
\<close>

definition in_map :: "crush_map \<Rightarrow> crush_bucket \<Rightarrow> bool" where
  "in_map m b \<longleftrightarrow> bucket_at m (b_id b) = Some b"

text \<open>There is no path of more than \<open>n\<close> buckets downwards from \<open>b\<close>.\<close>

fun depth_ok :: "nat \<Rightarrow> crush_map \<Rightarrow> crush_bucket \<Rightarrow> bool" where
  "depth_ok 0 m b \<longleftrightarrow> False"
| "depth_ok (Suc n) m b \<longleftrightarrow>
     (\<forall>i \<in> set (b_items b). i < 0 \<longrightarrow> (case bucket_at m i of None \<Rightarrow> False | Some c \<Rightarrow> depth_ok n m c))"

definition map_ok :: "crush_map \<Rightarrow> bool" where
  "map_ok m \<longleftrightarrow> max_devices m \<le> CRUSH_ITEM_UNDEF \<and>
     (\<forall>(k, b) \<in> set (enumerate 0 (m_buckets m)).
        case b of None \<Rightarrow> True
        | Some b \<Rightarrow> b_id b = -1 - int k \<and> bucket_ok b \<and> depth_ok (length (m_buckets m)) m b)"

definition slot_ok :: "crush_bucket option \<Rightarrow> crush_work_bucket option \<Rightarrow> bool" where
  "slot_ok b w = (case b of None \<Rightarrow> True | Some b \<Rightarrow> (case w of None \<Rightarrow> False | Some w \<Rightarrow> wb_ok b w))"

definition work_ok :: "crush_map \<Rightarrow> crush_work \<Rightarrow> bool" where
  "work_ok m work \<longleftrightarrow>
     list_all2 slot_ok (m_buckets m) (w_work work) \<and>
     (case w_choose_tries work of None \<Rightarrow> True | Some h \<Rightarrow> length h = Suc (unat (choose_total_tries m)))"

definition args_ok :: "crush_map \<Rightarrow> crush_choose_arg list option \<Rightarrow> bool" where
  "args_ok m args =
     (case args of None \<Rightarrow> True
      | Some l \<Rightarrow> list_all2 (\<lambda>b a. case b of None \<Rightarrow> True | Some b \<Rightarrow> arg_ok b (Some a)) (m_buckets m) l)"

definition input_ok :: "crush_input \<Rightarrow> bool" where
  "input_ok inp \<longleftrightarrow> map_ok (i_map inp) \<and> args_ok (i_map inp) (i_choose_args inp)"

text \<open>Everything below a bucket.\<close>

inductive contains :: "crush_map \<Rightarrow> crush_bucket \<Rightarrow> int \<Rightarrow> bool" for m where
  here: "item \<in> set (b_items b) \<Longrightarrow> contains m b item"
| deeper: "i \<in> set (b_items b) \<Longrightarrow> bucket_at m i = Some c \<Longrightarrow> contains m c item \<Longrightarrow> contains m b item"

section \<open>Maps\<close>

lemma bucket_at_Some:
  "bucket_at m i = Some b \<longleftrightarrow>
     0 \<le> -1 - i \<and> nat (-1 - i) < length (m_buckets m) \<and> m_buckets m ! nat (-1 - i) = Some b"
  by (auto simp: bucket_at_def arr_get_def)

lemma bucket_at_in_map:
  assumes "map_ok m" "bucket_at m i = Some b"
  shows "in_map m b" "bucket_ok b" "depth_ok (length (m_buckets m)) m b" "b_id b = i"
proof -
  let ?k = "nat (-1 - i)"
  have k: "0 \<le> -1 - i" "?k < length (m_buckets m)" "m_buckets m ! ?k = Some b"
    using assms(2) by (auto simp: bucket_at_Some)
  then have "(?k, Some b) \<in> set (enumerate 0 (m_buckets m))"
    by (metis add.left_neutral in_set_enumerate_eq length_enumerate nth_enumerate_eq nth_mem)
  then have b: "b_id b = -1 - int ?k" "bucket_ok b" "depth_ok (length (m_buckets m)) m b"
    using assms(1) unfolding map_ok_def by fastforce+
  then show id: "b_id b = i" and "bucket_ok b" "depth_ok (length (m_buckets m)) m b"
    using k(1) by simp_all
  show "in_map m b" using assms(2) id by (simp add: in_map_def)
qed

lemmas in_mapD = bucket_at_in_map [OF _ in_map_def [THEN iffD1]]

lemma depth_ok_child:
  assumes "depth_ok (Suc n) m b" "i \<in> set (b_items b)" "i < 0"
  obtains c where "bucket_at m i = Some c" "depth_ok n m c"
  using assms by (auto split: option.splits)

lemma depth_ok_pos: "depth_ok n m b \<Longrightarrow> 0 < n"
  by (cases n) auto

lemma child_at:
  assumes "map_ok m" "in_map m b" "i \<in> set (b_items b)" "i < 0"
  obtains c where "bucket_at m i = Some c"
proof -
  have "depth_ok (length (m_buckets m)) m b" using in_mapD [OF assms(1,2)] by simp
  then show ?thesis using depth_ok_child assms(3,4) depth_ok_pos that by (metis gr0_conv_Suc)
qed

section \<open>Working areas\<close>

lemma slot_update:
  assumes "list_all2 slot_ok bs ws" "bs ! k = Some b" "wb_ok b w"
  shows "list_all2 slot_ok bs (ws[k := Some w])"
proof -
  have "slot_ok (bs ! k) (Some w)" using assms(2,3) by (simp add: slot_ok_def)
  from list_all2_update_cong [OF assms(1) this, of k] show ?thesis by simp
qed

text \<open>
  The contract of a function that draws from a bucket: it draws an item of the bucket and leaves
  the working area of the bucket well-formed.
\<close>

locale bucket_chooser =
  fixes draw :: "crush_choose_arg option \<Rightarrow> int \<Rightarrow> crush_bucket \<Rightarrow> crush_work_bucket \<Rightarrow> u32 \<Rightarrow> u32
    \<Rightarrow> (int \<times> crush_work_bucket) option"
  assumes draws: "bucket_ok b \<Longrightarrow> b_size b \<noteq> 0 \<Longrightarrow> wb_ok b w \<Longrightarrow> arg_ok b arg \<Longrightarrow> 0 \<le> pos \<Longrightarrow>
    \<exists>item w'. draw arg pos b w x r = Some (item, w') \<and> item \<in> set (b_items b) \<and> wb_ok b w'"
begin

lemma on_work_ok:
  assumes "map_ok m" "work_ok m work" "in_map m b" "b_size b \<noteq> 0" "arg_ok b arg" "0 \<le> pos"
  shows "\<exists>item work'. on_work b (\<lambda>w. draw arg pos b w x r) work = Some (item, work') \<and>
    item \<in> set (b_items b) \<and> work_ok m work'"
proof -
  let ?k = "nat (-1 - b_id b)"
  have k: "0 \<le> -1 - b_id b" "?k < length (m_buckets m)" "m_buckets m ! ?k = Some b"
    using assms(3) by (auto simp: in_map_def bucket_at_Some)
  have l: "length (w_work work) = length (m_buckets m)"
    using assms(2) by (auto simp: work_ok_def dest: list_all2_lengthD)
  have "slot_ok (Some b) (w_work work ! ?k)"
    using list_all2_nthD [OF _ k(2)] assms(2) k(3) unfolding work_ok_def by metis
  then obtain w where w: "w_work work ! ?k = Some w" "wb_ok b w"
    by (auto simp: slot_ok_def split: option.splits)
  obtain item w' where c: "draw arg pos b w x r = Some (item, w')" "item \<in> set (b_items b)" "wb_ok b w'"
    using draws [OF _ assms(4) w(2) assms(5,6)] in_mapD(2) [OF assms(1,3)] by blast
  have "work_ok m (work\<lparr>w_work := (w_work work)[?k := Some w']\<rparr>)"
    using assms(2) slot_update [OF _ k(3) c(3)] by (simp add: work_ok_def)
  then show ?thesis using c k l w(1) by (simp add: on_work_def arr_get_def arr_set_def)
qed

end

interpretation by_perm: bucket_chooser "\<lambda>_ _. bucket_perm_choose"
proof
  fix b w x r
  assume b: "bucket_ok b" "b_size b \<noteq> 0" "wb_ok b w"
  have l: "length (b_items b) = unat (b_size b)" using b(1) by (simp add: bucket_ok_def)
  have "perm_item b x (unat (r mod b_size b)) \<in> set (b_items b)"
    using perm_ref_less [of "unat (r mod b_size b)" b x] b(2) l
    by (simp add: perm_item_def unat_mod_distrib unat_gt_0)
  then show "\<exists>item w'. bucket_perm_choose b w x r = Some (item, w') \<and> item \<in> set (b_items b) \<and> wb_ok b w'"
    using bucket_perm_choose_eq [OF b(3,2) l] by blast
qed

interpretation by_alg: bucket_chooser "\<lambda>arg pos b w x r. crush_bucket_choose b w x r arg pos"
  by unfold_locales (meson crush_bucket_choose_ok)

lemma choose_from_ok:
  assumes "input_ok inp" "work_ok (i_map inp) work" "in_map (i_map inp) b" "b_size b \<noteq> 0" "0 \<le> outpos"
  shows "\<exists>item work'. choose_from inp b r outpos work = Some (item, work') \<and>
    item \<in> set (b_items b) \<and> work_ok (i_map inp) work'"
proof -
  have k: "0 \<le> -1 - b_id b" "nat (-1 - b_id b) < length (m_buckets (i_map inp))"
    "m_buckets (i_map inp) ! nat (-1 - b_id b) = Some b"
    using assms(3) by (auto simp: in_map_def bucket_at_Some)
  obtain arg where "choose_arg_of (i_choose_args inp) b = Some arg" "arg_ok b arg"
  proof (cases "i_choose_args inp")
    case None
    then show ?thesis using that by (simp add: choose_arg_of_def arg_ok_def)
  next
    case (Some l)
    then have "list_all2 (\<lambda>b a. case b of None \<Rightarrow> True | Some b \<Rightarrow> arg_ok b (Some a)) (m_buckets (i_map inp)) l"
      using assms(1) by (simp add: input_ok_def args_ok_def)
    from list_all2_lengthD [OF this] list_all2_nthD [OF this k(2)] show ?thesis
      using Some k by (intro that [of "Some (l ! nat (-1 - b_id b))"]) (simp_all add: choose_arg_of_def arr_get_def)
  qed
  then show ?thesis
    using by_alg.on_work_ok [OF _ assms(2-4) _ assms(5)] assms(1)
    by (simp add: choose_from_def input_ok_def)
qed

lemma count_tries_ok:
  assumes "work_ok m work"
  shows "\<exists>work'. count_tries m ftotal work = Some work' \<and> work_ok m work'"
proof (cases "w_choose_tries work")
  case (Some h)
  then have "ftotal \<le> choose_total_tries m \<Longrightarrow> unat ftotal < length h"
    using assms by (simp add: work_ok_def word_le_nat_alt)
  then show ?thesis
    using assms Some by (auto simp: count_tries_def work_ok_def arr_uint)
qed (use assms in \<open>simp add: count_tries_def\<close>)

end
