(* ===== verification/CrushFirstn.thy ===== *)
theory CrushFirstn
  imports CrushWf
begin

text \<open>
  What \<^verbatim>\<open>crush_choose_firstn\<close> does on a well-formed map: it returns, every access is in range,
  and each replica it places is a new item of the wanted type below the bucket, with a usable device
  below it when a leaf is asked for.
\<close>

declare firstn_reps.simps [simp del]

section \<open>What is placed\<close>

definition usable :: "crush_input \<Rightarrow> int \<Rightarrow> bool" where
  "usable inp d \<longleftrightarrow> 0 \<le> d \<and> d < max_devices (i_map inp) \<and> is_out (i_weight inp) d (i_x inp) = Some False"

text \<open>A device \<open>d\<close> for the item, different from the devices found before.\<close>

definition leaf_for :: "crush_input \<Rightarrow> int \<Rightarrow> int \<Rightarrow> int list \<Rightarrow> bool" where
  "leaf_for inp item d before \<longleftrightarrow>
     (if item < 0
      then usable inp d \<and> (\<exists>c. bucket_at (i_map inp) item = Some c \<and> contains (i_map inp) c d) \<and> d \<notin> set before
      else d = item)"

definition placed :: "crush_input \<Rightarrow> firstn_params \<Rightarrow> crush_bucket \<Rightarrow> int list \<Rightarrow> int list option \<Rightarrow> nat \<Rightarrow> bool" where
  "placed inp prm bucket out out2 i \<longleftrightarrow>
     item_type (i_map inp) (out ! i) = Some (f_type prm) \<and>
     contains (i_map inp) bucket (out ! i) \<and>
     out ! i \<notin> set (take i out) \<and>
     (0 \<le> out ! i \<longrightarrow> usable inp (out ! i)) \<and>
     (f_recurse_to_leaf prm \<longrightarrow>
        (\<exists>o2. out2 = Some o2 \<and> leaf_for inp (out ! i) (o2 ! i) (take i o2)))"

text \<open>The arrays agree below a position and keep their length.\<close>

definition agree :: "nat \<Rightarrow> 'a list \<Rightarrow> 'a list \<Rightarrow> bool" where
  "agree n xs ys \<longleftrightarrow> length ys = length xs \<and> take n ys = take n xs"

fun agree_opt :: "nat \<Rightarrow> 'a list option \<Rightarrow> 'a list option \<Rightarrow> bool" where
  "agree_opt n None ys \<longleftrightarrow> ys = None"
| "agree_opt n (Some xs) ys \<longleftrightarrow> (\<exists>l. ys = Some l \<and> agree n xs l)"

lemma agree_refl [simp]: "agree n xs xs" "agree_opt n oxs oxs"
  by (auto simp: agree_def) (cases oxs; simp add: agree_def)

lemma agree_trans: "agree n xs ys \<Longrightarrow> agree n ys zs \<Longrightarrow> agree n xs zs"
  by (simp add: agree_def)

lemma agree_mono: "agree n xs ys \<Longrightarrow> k \<le> n \<Longrightarrow> agree k xs ys"
  unfolding agree_def by (metis min.absorb1 take_take)

lemma agree_opt_trans: "agree_opt n xs ys \<Longrightarrow> agree_opt n ys zs \<Longrightarrow> agree_opt n xs zs"
  by (cases xs; cases ys) (auto intro: agree_trans)

lemma agree_opt_mono: "agree_opt n xs ys \<Longrightarrow> k \<le> n \<Longrightarrow> agree_opt k xs ys"
  by (cases xs) (auto intro: agree_mono)

lemma agree_upd: "n \<le> k \<Longrightarrow> agree n xs (xs[k := v])"
  by (simp add: agree_def)

lemma agree_nth: "agree n xs ys \<Longrightarrow> i < n \<Longrightarrow> ys ! i = xs ! i"
  unfolding agree_def by (metis nth_take)

lemma placed_agree:
  assumes "placed inp prm bucket out out2 i" "i < n" "agree n out out'" "agree_opt n out2 out2'"
  shows "placed inp prm bucket out' out2' i"
proof -
  have "out' ! i = out ! i" "take i out' = take i out"
    using agree_nth [OF assms(3,2)] agree_mono [OF assms(3), of i] assms(2) by (auto simp: agree_def)
  moreover have "o2' ! i = o2 ! i \<and> take i o2' = take i o2" if "agree n o2 o2'" for o2 o2' :: "int list"
    using agree_nth [OF that assms(2)] agree_mono [OF that, of i] assms(2) by (auto simp: agree_def)
  ultimately show ?thesis using assms(1,4) unfolding placed_def by (cases out2) auto
qed

section \<open>The contract of the search below an item\<close>

definition leaf_ok :: "crush_input \<Rightarrow> firstn_leaf \<Rightarrow> bool" where
  "leaf_ok inp leaf \<longleftrightarrow> (\<forall>b outpos cnt sub_r work out2.
     in_map (i_map inp) b \<longrightarrow> work_ok (i_map inp) work \<longrightarrow> 0 \<le> outpos \<longrightarrow> outpos + cnt \<le> int (length out2) \<longrightarrow> 0 < cnt \<longrightarrow>
     (\<exists>n work' out2'. leaf b outpos cnt sub_r work out2 = Some (n, work', out2') \<and>
        work_ok (i_map inp) work' \<and> agree (nat outpos) out2 out2' \<and>
        (outpos < n \<longrightarrow> usable inp (out2' ! nat outpos) \<and> contains (i_map inp) b (out2' ! nat outpos) \<and>
           out2' ! nat outpos \<notin> set (take (nat outpos) out2))))"

text \<open>The counts of failures stay below the range of their type.\<close>

definition retry_ok :: "crush_map \<Rightarrow> firstn_params \<Rightarrow> bool" where
  "retry_ok m prm \<longleftrightarrow> f_vary_r prm \<le> 32 \<and>
     (\<forall>b \<in> set (m_buckets m). case b of None \<Rightarrow> True
        | Some b \<Rightarrow> unat (f_tries prm) + unat (f_recurse_tries prm) + unat (f_local_retries prm) +
            unat (f_local_fallback_retries prm) + unat (b_size b) + 2 < 2 ^ 32)"

text \<open>What the loops need of the output arrays.\<close>

definition fits :: "firstn_params \<Rightarrow> int \<Rightarrow> int \<Rightarrow> choose_state \<Rightarrow> bool" where
  "fits prm outpos cnt st \<longleftrightarrow> 0 \<le> outpos \<and> 0 \<le> cnt \<and> outpos + cnt \<le> int (length (st_out st)) \<and>
     (f_recurse_to_leaf prm \<longrightarrow> (\<exists>o2. st_out2 st = Some o2 \<and> outpos + cnt \<le> int (length o2)))"

definition keeps :: "crush_input \<Rightarrow> int \<Rightarrow> choose_state \<Rightarrow> choose_state \<Rightarrow> bool" where
  "keeps inp outpos st st' \<longleftrightarrow> work_ok (i_map inp) (st_work st') \<and> st_out st' = st_out st \<and>
     agree_opt (nat outpos) (st_out2 st) (st_out2 st')"

lemma keeps_trans: "keeps inp outpos st st' \<Longrightarrow> keeps inp outpos st' st'' \<Longrightarrow> keeps inp outpos st st''"
  by (auto simp: keeps_def intro: agree_opt_trans)

lemma keeps_fits: "keeps inp outpos st st' \<Longrightarrow> fits prm outpos cnt st \<Longrightarrow> fits prm outpos cnt st'"
  by (auto simp: keeps_def fits_def agree_def)

text \<open>The item that a replica is given, before it is stored.\<close>

definition taken :: "crush_input \<Rightarrow> firstn_params \<Rightarrow> crush_bucket \<Rightarrow> int \<Rightarrow> choose_state \<Rightarrow> int \<Rightarrow> bool" where
  "taken inp prm bucket outpos st item \<longleftrightarrow>
     placed inp prm bucket ((st_out st)[nat outpos := item]) (st_out2 st) (nat outpos)"

lemma vary_range: "v \<noteq> 0 \<Longrightarrow> v \<le> 32 \<Longrightarrow> v - 1 < (32 :: u32)"
  by unat_arith

lemma descend_leaf_ok:
  assumes "input_ok inp" "leaf_ok inp leaf" "retry_ok (i_map inp) prm" "fits prm outpos cnt st" "0 < cnt"
    and "f_recurse_to_leaf prm" "work_ok (i_map inp) (st_work st)" "item < 0 \<longrightarrow> bucket_at (i_map inp) item \<noteq> None"
  shows "\<exists>reject st' o2. firstn_descend_leaf leaf inp prm outpos cnt r item st = Some (reject, st') \<and>
    keeps inp outpos st st' \<and> st_out2 st' = Some o2 \<and>
    (\<not> reject \<longrightarrow> leaf_for inp item (o2 ! nat outpos) (take (nat outpos) o2))"
proof -
  obtain o2 where o2: "st_out2 st = Some o2" "0 \<le> outpos" "outpos + cnt \<le> int (length o2)"
    using assms(4,6) by (auto simp: fits_def)
  show ?thesis
  proof (cases "item < 0")
    case False
    then show ?thesis
      using o2 assms(5,7) by (auto simp: firstn_descend_leaf_def arr_set_def keeps_def leaf_for_def intro: agree_upd)
  next
    case True
    then obtain c where c: "bucket_at (i_map inp) item = Some c" using assms(8) by blast
    have "\<exists>sub_r. (if f_vary_r prm \<noteq> 0 then do { check (f_vary_r prm - 1 < 32);
        Some (signed_drop_bit (unat (f_vary_r prm - 1)) r) } else Some 0) = Some sub_r"
      using vary_range assms(3) by (simp add: retry_ok_def)
    then obtain sub_r where sub: "(if f_vary_r prm \<noteq> 0 then do { check (f_vary_r prm - 1 < 32);
        Some (signed_drop_bit (unat (f_vary_r prm - 1)) r) } else Some 0) = Some sub_r" by blast
    obtain n work' o2' where l: "leaf c outpos cnt sub_r (st_work st) o2 = Some (n, work', o2')"
      "work_ok (i_map inp) work'" "agree (nat outpos) o2 o2'"
      "outpos < n \<longrightarrow> usable inp (o2' ! nat outpos) \<and> contains (i_map inp) c (o2' ! nat outpos) \<and>
         o2' ! nat outpos \<notin> set (take (nat outpos) o2)"
      using assms(2,5,7) bucket_at_in_map(1) [OF _ c] assms(1) o2(2,3) unfolding leaf_ok_def input_ok_def by blast
    have "firstn_descend_leaf leaf inp prm outpos cnt r item st =
        Some (n \<le> outpos, st\<lparr>st_work := work', st_out2 := Some o2'\<rparr>)"
      using True c o2(1) sub l(1) by (simp add: firstn_descend_leaf_def)
    then show ?thesis using l o2(1) True c by (auto simp: keeps_def leaf_for_def agree_def)
  qed
qed

lemma firstn_draw_ok:
  assumes "input_ok inp" "work_ok (i_map inp) work" "in_map (i_map inp) b" "b_size b \<noteq> 0" "0 \<le> outpos"
  shows "\<exists>item work'. firstn_draw inp prm b flocal r outpos work = Some (item, work') \<and>
    item \<in> set (b_items b) \<and> work_ok (i_map inp) work'"
proof (cases "f_local_fallback_retries prm > 0 \<and> flocal \<ge> drop_bit 1 (b_size b) \<and> flocal > f_local_fallback_retries prm")
  case True
  then have "firstn_draw inp prm b flocal r outpos work = on_work b (\<lambda>wb. bucket_perm_choose b wb (i_x inp) r) work"
    by (simp add: firstn_draw_def)
  then show ?thesis
    using by_perm.on_work_ok [OF _ assms(2-4), of None 0] assms(1) by (simp add: input_ok_def arg_ok_def)
next
  case False
  then have "firstn_draw inp prm b flocal r outpos work = choose_from inp b r outpos work"
    by (simp only: firstn_draw_def if_False)
  then show ?thesis using choose_from_ok [OF assms] by simp
qed

lemma item_type_ok:
  assumes "map_ok m" "in_map m b" "item \<in> set (b_items b)"
  obtains t where "item_type m item = Some t" "t = 0 \<longleftrightarrow> 0 \<le> item"
    "item < 0 \<Longrightarrow> \<exists>c. bucket_at m item = Some c \<and> -1 - item < max_buckets m"
proof (cases "item < 0")
  case True
  then obtain c where c: "bucket_at m item = Some c" using child_at [OF assms] by blast
  then have "0 < b_type c" using bucket_at_in_map(2) [OF assms(1) c] by (simp add: bucket_ok_def)
  then show ?thesis using that [of "b_type c"] True c by (auto simp: item_type_def bucket_at_Some)
next
  case False
  then show ?thesis using that [of 0] by (simp add: item_type_def)
qed

lemma is_out_total: "0 \<le> item \<Longrightarrow> \<exists>r. is_out ws item x = Some r"
  by (auto simp: is_out_def arr_get_def)

lemma firstn_accept_ok:
  assumes ok: "input_ok inp" "f_recurse_to_leaf prm \<longrightarrow> leaf_ok inp leaf" "retry_ok (i_map inp) prm"
    and st: "fits prm outpos cnt st" "0 < cnt" "work_ok (i_map inp) (st_work st)" "in_map (i_map inp) b"
    and item: "item \<in> set (b_items b)" "item < max_devices (i_map inp)" "item_type (i_map inp) item = Some (f_type prm)"
  shows "\<exists>p st'. firstn_accept leaf inp prm outpos cnt r item (f_type prm) st = Some (p, st') \<and> keeps inp outpos st st' \<and>
    (case p of Into c \<Rightarrow> False | Taken i \<Rightarrow> taken inp prm b outpos st' i | _ \<Rightarrow> True)"
proof -
  have m: "map_ok (i_map inp)" using ok(1) by (simp add: input_ok_def)
  have pos: "0 \<le> outpos" "outpos < int (length (st_out st))" using st(1,2) by (auto simp: fits_def)
  have zero: "f_type prm = 0 \<longleftrightarrow> 0 \<le> item" and child: "item < 0 \<longrightarrow> bucket_at (i_map inp) item \<noteq> None"
    using item_type_ok [OF m st(4) item(1)] item(3) by (metis option.inject, metis option.distinct(1))
  define collide where "collide \<longleftrightarrow> item \<in> set (take (nat outpos) (st_out st))"
  obtain reject st' where leaf: "(if \<not> collide \<and> f_recurse_to_leaf prm
      then firstn_descend_leaf leaf inp prm outpos cnt r item st else Some (False, st)) = Some (reject, st')"
    "keeps inp outpos st st'"
    "\<not> collide \<and> f_recurse_to_leaf prm \<and> \<not> reject \<longrightarrow>
      (\<exists>o2. st_out2 st' = Some o2 \<and> leaf_for inp item (o2 ! nat outpos) (take (nat outpos) o2))"
  proof (cases "\<not> collide \<and> f_recurse_to_leaf prm")
    case True
    then show ?thesis
      using that descend_leaf_ok [OF ok(1) _ ok(3) st(1,2) _ st(3) child, of leaf r] ok(2)
      by (metis (no_types, lifting))
  next
    case False
    then show ?thesis using that [of False st] st(3) by (auto simp: keeps_def)
  qed
  obtain reject' where out: "(if \<not> reject \<and> \<not> collide \<and> f_type prm = 0 then is_out (i_weight inp) item (i_x inp)
      else Some reject) = Some reject'"
    using is_out_total [of item "i_weight inp" "i_x inp"] zero
    by (cases "\<not> reject \<and> \<not> collide \<and> f_type prm = 0") auto
  have "firstn_accept leaf inp prm outpos cnt r item (f_type prm) st =
      Some (if reject' \<or> collide then Rejected collide else Taken item, st')"
    using pos leaf(1) out by (simp add: firstn_accept_def Let_def flip: collide_def)
  moreover have "taken inp prm b outpos st' item" if "\<not> (reject' \<or> collide)"
  proof -
    have "\<not> reject" "f_type prm = 0 \<longrightarrow> is_out (i_weight inp) item (i_x inp) = Some False"
      using out that by (auto split: if_splits)
    moreover have "st_out st' = st_out st" using leaf(2) by (simp add: keeps_def)
    ultimately show ?thesis
      using that leaf(3) item pos zero unfolding taken_def placed_def collide_def usable_def
      by (auto intro: contains.here)
  qed
  ultimately show ?thesis using leaf(2) by auto
qed

lemma firstn_pass_ok:
  assumes ok: "input_ok inp" "f_recurse_to_leaf prm \<longrightarrow> leaf_ok inp leaf" "retry_ok (i_map inp) prm"
    and st: "fits prm outpos cnt st" "0 < cnt" "work_ok (i_map inp) (st_work st)" "in_map (i_map inp) b"
  shows "\<exists>p st'. firstn_pass leaf inp prm rep outpos cnt b ftotal flocal st = Some (p, st') \<and> keeps inp outpos st st' \<and>
    (case p of
       Into c \<Rightarrow> \<exists>i \<in> set (b_items b). bucket_at (i_map inp) i = Some c
     | Taken item \<Rightarrow> taken inp prm b outpos st' item
     | _ \<Rightarrow> True)"
proof (cases "b_size b = 0")
  case True
  then show ?thesis using st(3) by (simp add: firstn_pass_def keeps_def)
next
  case False
  let ?r = "of_int rep + f_parent_r prm + ftotal"
  have m: "map_ok (i_map inp)" using ok(1) by (simp add: input_ok_def)
  obtain item work' where d: "firstn_draw inp prm b flocal ?r outpos (st_work st) = Some (item, work')"
    "item \<in> set (b_items b)" "work_ok (i_map inp) work'"
    using firstn_draw_ok [OF ok(1) st(3,4) False] st(1) by (fastforce simp: fits_def)
  define st1 where "st1 = st\<lparr>st_work := work'\<rparr>"
  have st1: "keeps inp outpos st st1" "fits prm outpos cnt st1" "work_ok (i_map inp) (st_work st1)"
    using d(3) st(1) by (auto simp: st1_def keeps_def fits_def)
  obtain t where t: "item_type (i_map inp) item = Some t" "t = 0 \<longleftrightarrow> 0 \<le> item"
    "item < 0 \<Longrightarrow> \<exists>c. bucket_at (i_map inp) item = Some c \<and> -1 - item < max_buckets (i_map inp)"
    using item_type_ok [OF m st(4) d(2)] by metis
  note pass = firstn_pass_def Let_def d(1) t(1) False st1_def [symmetric]
  consider "item \<ge> max_devices (i_map inp) \<or> t \<noteq> f_type prm \<and> 0 \<le> item"
    | "item < max_devices (i_map inp)" "t \<noteq> f_type prm" "item < 0"
    | "item < max_devices (i_map inp)" "t = f_type prm" by linarith
  then show ?thesis
  proof cases
    case 1
    then have "firstn_pass leaf inp prm rep outpos cnt b ftotal flocal st = Some (Bad_item, st1)"
      by (auto simp: pass)
    then show ?thesis using st1(1) by auto
  next
    case 2
    then obtain c where "bucket_at (i_map inp) item = Some c" "-1 - item < max_buckets (i_map inp)" using t(3) by blast
    with 2 have "firstn_pass leaf inp prm rep outpos cnt b ftotal flocal st = Some (Into c, st1)"
      by (auto simp: pass)
    then show ?thesis using st1(1) d(2) \<open>bucket_at _ _ = _\<close> by auto
  next
    case 3
    then have "firstn_pass leaf inp prm rep outpos cnt b ftotal flocal st =
        firstn_accept leaf inp prm outpos cnt ?r item (f_type prm) st1"
      by (simp add: pass)
    moreover obtain p st' where "firstn_accept leaf inp prm outpos cnt ?r item (f_type prm) st1 = Some (p, st')"
      "keeps inp outpos st1 st'" "case p of Into c \<Rightarrow> False | Taken i \<Rightarrow> taken inp prm b outpos st' i | _ \<Rightarrow> True"
      using firstn_accept_ok [OF ok st1(2) st(2) st1(3) st(4) d(2) 3(1)] t(1) 3(2) by blast
    ultimately show ?thesis using keeps_trans [OF st1(1)] by (auto split: pick.splits)
  qed
qed

section \<open>The retries end\<close>

text \<open>The most failures in a row that are retried in one descent.\<close>

definition local_bound :: "firstn_params \<Rightarrow> nat" where
  "local_bound prm = 2 ^ 32 - 3 - unat (f_tries prm)"

lemma retry_okD:
  assumes "retry_ok m prm" "in_map m b"
  shows "unat (f_local_retries prm) \<le> local_bound prm"
    "unat (b_size b) + unat (f_local_fallback_retries prm) \<le> local_bound prm"
    "unat (f_tries prm) + local_bound prm + 3 = 2 ^ 32"
proof -
  have "Some b \<in> set (m_buckets m)" using assms(2) unfolding in_map_def bucket_at_Some by (metis nth_mem)
  then have "unat (f_tries prm) + unat (f_recurse_tries prm) + unat (f_local_retries prm) +
      unat (f_local_fallback_retries prm) + unat (b_size b) + 2 < 2 ^ 32"
    using assms(1) by (fastforce simp: retry_ok_def)
  then show "unat (f_local_retries prm) \<le> local_bound prm"
    "unat (b_size b) + unat (f_local_fallback_retries prm) \<le> local_bound prm"
    "unat (f_tries prm) + local_bound prm + 3 = 2 ^ 32" by (auto simp: local_bound_def)
qed

lemma unat_suc: "unat (n :: u32) + 1 < 2 ^ 32 \<Longrightarrow> unat (n + 1) = unat n + 1"
  by (simp add: unat_word_ariths)

lemma firstn_next_Rejected:
  assumes r: "retry_ok m prm" "in_map m b"
    and n: "unat ftotal \<le> unat (f_tries prm) + unat flocal" "unat flocal \<le> local_bound prm"
  obtains (local) "firstn_next prm bucket b ftotal flocal (Rejected c) = Inl (b, ftotal + 1, flocal + 1)"
      "unat flocal + 1 \<le> local_bound prm"
  | (restart) "firstn_next prm bucket b ftotal flocal (Rejected c) = Inl (bucket, ftotal + 1, 0)"
      "unat ftotal + 1 < unat (f_tries prm)"
  | (stop) "firstn_next prm bucket b ftotal flocal (Rejected c) = Inr (None, ftotal + 1)"
proof -
  have f: "unat (flocal + 1) = unat flocal + 1" "unat (ftotal + 1) = unat ftotal + 1"
    using n retry_okD [OF r] by (intro unat_suc; simp)+
  have s: "unat (b_size b + f_local_fallback_retries prm) = unat (b_size b) + unat (f_local_fallback_retries prm)"
    using retry_okD [OF r] by (simp add: unat_word_ariths)
  consider "c \<and> flocal + 1 \<le> f_local_retries prm \<or>
      f_local_fallback_retries prm > 0 \<and> flocal + 1 \<le> b_size b + f_local_fallback_retries prm"
    | "\<not> (c \<and> flocal + 1 \<le> f_local_retries prm)"
      "\<not> (f_local_fallback_retries prm > 0 \<and> flocal + 1 \<le> b_size b + f_local_fallback_retries prm)" by blast
  then show thesis
  proof cases
    case 1
    then have "unat flocal + 1 \<le> local_bound prm"
      using f s retry_okD [OF r] by (auto simp: word_le_nat_alt)
    with 1 show ?thesis by (intro local) (auto simp: firstn_next_def Let_def)
  next
    case 2
    then show ?thesis using f
      by (cases "ftotal + 1 < f_tries prm")
        (auto simp: firstn_next_def Let_def word_less_nat_alt [of "ftotal + 1"] intro: restart stop simp del: not_less not_le)
  qed
qed

lemma taken_mono:
  "taken inp prm b outpos st item \<Longrightarrow> (\<And>i. contains (i_map inp) b i \<Longrightarrow> contains (i_map inp) bucket i) \<Longrightarrow>
   taken inp prm bucket outpos st item"
  by (auto simp: taken_def placed_def)

text \<open>
  The loops of one replica return. Every turn has fewer tries left, or fewer local retries, or is
  deeper in the map.
\<close>

lemma firstn_search_ok:
  assumes ok: "input_ok inp" "f_recurse_to_leaf prm \<longrightarrow> leaf_ok inp leaf" "retry_ok (i_map inp) prm"
    and bucket: "in_map (i_map inp) bucket" and cnt: "0 < cnt"
  shows "in_map (i_map inp) b \<Longrightarrow> (\<And>i. contains (i_map inp) b i \<Longrightarrow> contains (i_map inp) bucket i) \<Longrightarrow>
    depth_ok d (i_map inp) b \<Longrightarrow> fits prm outpos cnt st \<Longrightarrow> work_ok (i_map inp) (st_work st) \<Longrightarrow>
    unat ftotal \<le> unat (f_tries prm) + unat flocal \<Longrightarrow> unat flocal \<le> local_bound prm \<Longrightarrow>
    \<exists>got ft st'. firstn_search leaf inp prm bucket rep outpos cnt b ftotal flocal st = Some (got, ft, st') \<and>
      keeps inp outpos st st' \<and> (\<forall>item. got = Some item \<longrightarrow> taken inp prm bucket outpos st' item)"
proof (induction "(unat (f_tries prm) - unat ftotal, local_bound prm - unat flocal, d)" arbitrary: b d ftotal flocal st
    rule: wf_induct_rule [OF wf_lex_prod [OF wf_less wf_lex_prod [OF wf_less wf_less]]])
  case 1
  let ?search = "\<lambda>b ft fl st. firstn_search leaf inp prm bucket rep outpos cnt b ft fl st"
  have m: "map_ok (i_map inp)" using ok(1) by (simp add: input_ok_def)
  obtain p st' where p: "firstn_pass leaf inp prm rep outpos cnt b ftotal flocal st = Some (p, st')"
    "keeps inp outpos st st'"
    "case p of Into c \<Rightarrow> \<exists>i \<in> set (b_items b). bucket_at (i_map inp) i = Some c
       | Taken item \<Rightarrow> taken inp prm b outpos st' item | _ \<Rightarrow> True"
    using firstn_pass_ok [OF ok 1(5) cnt 1(6) 1(2)] by blast
  have st': "fits prm outpos cnt st'" "work_ok (i_map inp) (st_work st')"
    using keeps_fits [OF p(2) 1(5)] p(2) by (auto simp: keeps_def)
  have go: ?case
    if "?search b ftotal flocal st = ?search b' ft' fl' st'"
      "\<exists>got ft st''. ?search b' ft' fl' st' = Some (got, ft, st'') \<and> keeps inp outpos st' st'' \<and>
        (\<forall>item. got = Some item \<longrightarrow> taken inp prm bucket outpos st'' item)" for b' ft' fl'
    using that keeps_trans [OF p(2)] by metis
  have up: "unat (ftotal + 1) = unat ftotal + 1" "unat (flocal + 1) = unat flocal + 1"
    using 1(7,8) retry_okD(3) [OF ok(3) bucket] by (intro unat_suc; simp)+
  note step = firstn_search.simps [of leaf inp prm bucket rep outpos cnt b ftotal flocal st] p(1)
  show ?case
  proof (cases p)
    case Bad_item
    then show ?thesis using p(2) by (simp add: step firstn_next_def)
  next
    case (Taken item)
    then show ?thesis using p(2,3) taken_mono [OF _ 1(3)] by (simp add: step firstn_next_def)
  next
    case (Into c)
    then obtain i where i: "i \<in> set (b_items b)" "bucket_at (i_map inp) i = Some c" using p(3) by auto
    obtain k where k: "d = Suc k" using depth_ok_pos [OF 1(4)] gr0_conv_Suc by blast
    have neg: "i < 0" using i(2) by (auto simp: bucket_at_Some)
    have dk: "depth_ok k (i_map inp) c" using depth_ok_child [OF 1(4) [unfolded k] i(1) neg] i(2) by auto
    show ?thesis
    proof (rule go [of c ftotal flocal])
      show "?search b ftotal flocal st = ?search c ftotal flocal st'"
        using Into by (simp add: step firstn_next_def)
      show "\<exists>got ft st''. ?search c ftotal flocal st' = Some (got, ft, st'') \<and> keeps inp outpos st' st'' \<and>
        (\<forall>item. got = Some item \<longrightarrow> taken inp prm bucket outpos st'' item)"
        by (rule 1(1) [of _ _ k]) (use k bucket_at_in_map(1) [OF m i(2)] dk st' 1(3,7,8) contains.deeper [OF i] in auto)
    qed
  next
    case (Rejected c)
    show ?thesis
    proof (cases rule: firstn_next_Rejected [OF ok(3) 1(2,7,8), of bucket c, case_names l r s])
      case l
      have "?search b ftotal flocal st = ?search b (ftotal + 1) (flocal + 1) st'"
        using Rejected l(1) by (simp add: step)
      moreover have "\<exists>got ft st''. ?search b (ftotal + 1) (flocal + 1) st' = Some (got, ft, st'') \<and>
        keeps inp outpos st' st'' \<and> (\<forall>item. got = Some item \<longrightarrow> taken inp prm bucket outpos st'' item)"
        by (rule 1(1) [of _ _ d]) (use l(2) up 1(2-4,7) st' in auto)
      ultimately show ?thesis by (rule go)
    next
      case r
      have "?search b ftotal flocal st = ?search bucket (ftotal + 1) 0 st'"
        using Rejected r(1) by (simp add: step)
      moreover have "\<exists>got ft st''. ?search bucket (ftotal + 1) 0 st' = Some (got, ft, st'') \<and>
        keeps inp outpos st' st'' \<and> (\<forall>item. got = Some item \<longrightarrow> taken inp prm bucket outpos st'' item)"
        by (rule 1(1) [of _ _ "length (m_buckets (i_map inp))"])
          (use r(2) up bucket in_mapD(3) [OF m bucket] st' in auto)
      ultimately show ?thesis by (rule go)
    next
      case s
      then show ?thesis using p(2) Rejected by (simp add: step)
    qed
  qed
qed

section \<open>All replicas\<close>

text \<open>Positions from \<open>lo\<close> up to \<open>hi\<close> are filled, those below are left alone.\<close>

definition filled ::
  "crush_input \<Rightarrow> firstn_params \<Rightarrow> crush_bucket \<Rightarrow> int \<Rightarrow> int \<Rightarrow> choose_state \<Rightarrow> choose_state \<Rightarrow> bool" where
  "filled inp prm bucket lo hi st st' \<longleftrightarrow> work_ok (i_map inp) (st_work st') \<and>
     agree (nat lo) (st_out st) (st_out st') \<and> agree_opt (nat lo) (st_out2 st) (st_out2 st') \<and>
     (\<forall>i. lo \<le> int i \<and> int i < hi \<longrightarrow> placed inp prm bucket (st_out st') (st_out2 st') i)"

lemma filled_refl: "work_ok (i_map inp) (st_work st) \<Longrightarrow> filled inp prm bucket lo lo st st"
  by (auto simp: filled_def)

lemma filled_skip:
  assumes "keeps inp lo st st'" "filled inp prm bucket lo hi st' st''"
  shows "filled inp prm bucket lo hi st st''"
  using assms by (auto simp: filled_def keeps_def intro: agree_trans agree_opt_trans)

lemma filled_store:
  assumes k: "keeps inp lo st st'" and t: "taken inp prm bucket lo st' item" and lo: "0 \<le> lo"
    and f: "filled inp prm bucket (lo + 1) hi (st'\<lparr>st_work := work, st_out := (st_out st')[nat lo := item]\<rparr>) st''"
  shows "filled inp prm bucket lo hi st st''"
proof -
  let ?out = "(st_out st')[nat lo := item]"
  have n: "nat (lo + 1) = Suc (nat lo)" using lo by simp
  have a: "agree (Suc (nat lo)) ?out (st_out st'')" "agree_opt (Suc (nat lo)) (st_out2 st') (st_out2 st'')"
    using f by (auto simp: filled_def n)
  have "agree (nat lo) (st_out st') (st_out st'')"
    using agree_trans [OF agree_upd agree_mono [OF a(1)]] by simp
  moreover have "agree_opt (nat lo) (st_out2 st) (st_out2 st'')"
    using k agree_opt_mono [OF a(2), of "nat lo"] by (auto simp: keeps_def intro: agree_opt_trans)
  moreover have "placed inp prm bucket (st_out st'') (st_out2 st'') i" if "lo \<le> int i" "int i < hi" for i
  proof (cases "i = nat lo")
    case True
    then show ?thesis using t a by (auto simp: taken_def intro: placed_agree)
  next
    case False
    then show ?thesis using f that lo by (auto simp: filled_def)
  qed
  ultimately show ?thesis using k f by (auto simp: filled_def keeps_def)
qed

lemma firstn_reps_ok:
  assumes ok: "input_ok inp" "f_recurse_to_leaf prm \<longrightarrow> leaf_ok inp leaf" "retry_ok (i_map inp) prm"
    and bucket: "in_map (i_map inp) bucket"
  shows "fits prm outpos cnt st \<Longrightarrow> work_ok (i_map inp) (st_work st) \<Longrightarrow>
    \<exists>n st'. firstn_reps leaf inp prm bucket rep outpos cnt st = Some (n, st') \<and>
      outpos \<le> n \<and> n \<le> outpos + cnt \<and> n \<le> outpos + max 0 (f_numrep prm - rep) \<and>
      filled inp prm bucket outpos n st st'"
proof (induction "nat (f_numrep prm - rep)" arbitrary: rep outpos cnt st)
  case 0
  then show ?case by (simp add: firstn_reps.simps filled_refl fits_def)
next
  case (Suc k)
  show ?case
  proof (cases "0 < cnt")
    case False
    then show ?thesis using Suc(3,4) by (simp add: firstn_reps.simps filled_refl fits_def)
  next
    case True
    have rep: "rep < f_numrep prm" using Suc(2) by linarith
    have m: "map_ok (i_map inp)" using ok(1) by (simp add: input_ok_def)
    obtain got ft st' where s: "firstn_search leaf inp prm bucket rep outpos cnt bucket 0 0 st = Some (got, ft, st')"
      "keeps inp outpos st st'" "\<forall>item. got = Some item \<longrightarrow> taken inp prm bucket outpos st' item"
      using firstn_search_ok [OF ok bucket True bucket _ in_mapD(3) [OF m bucket] Suc(3,4), of 0 0 rep]
      by (auto simp del: split_paired_Ex)
    have fits: "fits prm outpos cnt st'" using Suc(3) s(2) by (auto simp: fits_def keeps_def agree_def)
    note step = firstn_reps.simps [of leaf inp prm bucket rep outpos cnt st] s(1)
    show ?thesis
    proof (cases got)
      case None
      have "\<exists>n st''. firstn_reps leaf inp prm bucket (rep + 1) outpos cnt st' = Some (n, st'') \<and>
          outpos \<le> n \<and> n \<le> outpos + cnt \<and> n \<le> outpos + max 0 (f_numrep prm - (rep + 1)) \<and>
          filled inp prm bucket outpos n st' st''"
        using Suc(2) s(2) fits by (intro Suc(1)) (auto simp: keeps_def)
      then show ?thesis using None rep True filled_skip [OF s(2)] by (fastforce simp: step)
    next
      case (Some item)
      obtain work where w: "count_tries (i_map inp) ft (st_work st') = Some work" "work_ok (i_map inp) work"
        using count_tries_ok [of "i_map inp" "st_work st'" ft] s(2) by (auto simp: keeps_def)
      let ?st = "st'\<lparr>st_work := work, st_out := (st_out st')[nat outpos := item]\<rparr>"
      obtain n st'' where n: "firstn_reps leaf inp prm bucket (rep + 1) (outpos + 1) (cnt - 1) ?st = Some (n, st'')"
          "outpos + 1 \<le> n" "n \<le> outpos + 1 + (cnt - 1)" "n \<le> outpos + 1 + max 0 (f_numrep prm - (rep + 1))"
          "filled inp prm bucket (outpos + 1) n ?st st''"
      proof -
        have "k = nat (f_numrep prm - (rep + 1))" using Suc(2) by linarith
        moreover have "fits prm (outpos + 1) (cnt - 1) ?st" using fits True by (auto simp: fits_def)
        ultimately show thesis using Suc(1) [of "rep + 1" "outpos + 1" "cnt - 1" ?st] w(2) that by auto
      qed
      have "filled inp prm bucket outpos n st st''"
        using filled_store [OF s(2) _ _ n(5)] s(3) Some fits by (simp add: fits_def)
      moreover have "arr_set (st_out st') outpos item = Some ((st_out st')[nat outpos := item])"
        using fits True by (simp add: fits_def arr_set_def)
      then have "firstn_reps leaf inp prm bucket rep outpos cnt st = Some (n, st'')"
        using Some rep True w(1) n(1) by (simp add: step)
      ultimately show ?thesis using n(2-4) rep by auto
    qed
  qed
qed

section \<open>The recursion\<close>

lemma firstn_leaf_of_ok:
  assumes "input_ok inp" "retry_ok (i_map inp) prm"
  shows "leaf_ok inp (firstn_leaf_of inp prm)"
  unfolding leaf_ok_def
proof (intro allI impI)
  fix b :: crush_bucket and outpos cnt :: int and sub_r work and out2 :: "int list"
  assume b: "in_map (i_map inp) b" and work: "work_ok (i_map inp) work"
    and pos: "0 \<le> outpos" "outpos + cnt \<le> int (length out2)" "0 < cnt"
  let ?null = "\<lambda>_ _ _ _ _ _. None"
  let ?prm = "prm\<lparr>f_numrep := (if f_stable prm \<noteq> 0 then 1 else outpos + 1), f_type := 0,
            f_tries := f_recurse_tries prm, f_recurse_tries := 0,
            f_recurse_to_leaf := False, f_parent_r := sub_r\<rparr>"
  let ?rep = "if f_stable prm \<noteq> 0 then 0 else outpos"
  let ?st = "\<lparr>st_work = work, st_out = out2, st_out2 = None\<rparr>"
  have "retry_ok (i_map inp) ?prm"
    using assms(2) by (fastforce simp: retry_ok_def split: option.splits)
  then obtain n st' where n: "firstn_reps ?null inp ?prm b ?rep outpos cnt ?st = Some (n, st')"
    "filled inp ?prm b outpos n ?st st'"
    using firstn_reps_ok [OF assms(1) _ _ b, of ?prm ?null outpos cnt ?st ?rep] pos work by (auto simp: fits_def)
  have "usable inp (st_out st' ! nat outpos) \<and> contains (i_map inp) b (st_out st' ! nat outpos) \<and>
      st_out st' ! nat outpos \<notin> set (take (nat outpos) out2)" if "outpos < n"
  proof -
    have "placed inp ?prm b (st_out st') (st_out2 st') (nat outpos)" "take (nat outpos) (st_out st') = take (nat outpos) out2"
      using n(2) that pos by (auto simp: filled_def agree_def)
    moreover have "0 \<le> item" if "item_type (i_map inp) item = Some 0" for item
      using that bucket_at_in_map(2) assms(1) by (fastforce simp: item_type_def input_ok_def bucket_ok_def split: if_splits)
    ultimately show ?thesis by (auto simp: placed_def)
  qed
  then show "\<exists>n work' out2'. firstn_leaf_of inp prm b outpos cnt sub_r work out2 = Some (n, work', out2') \<and>
      work_ok (i_map inp) work' \<and> agree (nat outpos) out2 out2' \<and>
      (outpos < n \<longrightarrow> usable inp (out2' ! nat outpos) \<and> contains (i_map inp) b (out2' ! nat outpos) \<and>
         out2' ! nat outpos \<notin> set (take (nat outpos) out2))"
    using n by (simp add: firstn_leaf_of_def choose_firstn_with_def filled_def)
qed

text \<open>
  The whole function: it returns the position after the last replica, and fills the positions
  between with different items of the wanted type.
\<close>

lemma crush_choose_firstn_ok:
  assumes "input_ok inp" "retry_ok (i_map inp) prm" "in_map (i_map inp) bucket"
    "fits prm outpos cnt st" "work_ok (i_map inp) (st_work st)"
  shows "\<exists>n st'. crush_choose_firstn inp prm bucket outpos cnt st = Some (n, st') \<and>
    outpos \<le> n \<and> n \<le> outpos + cnt \<and>
    n \<le> outpos + max 0 (f_numrep prm - (if f_stable prm \<noteq> 0 then 0 else outpos)) \<and>
    filled inp prm bucket outpos n st st'"
  using firstn_reps_ok [OF assms(1) _ assms(2-5), of "firstn_leaf_of inp prm"
      "if f_stable prm \<noteq> 0 then 0 else outpos"] firstn_leaf_of_ok [OF assms(1,2)]
  unfolding crush_choose_firstn_def choose_firstn_with_def by blast

end
