(* ===== verification/CrushRule.thy ===== *)
theory CrushRule
  imports CrushChoose
begin

unbundle bit_operations_syntax

text \<open>
  Breadth first placement (\<^verbatim>\<open>crush_choose_indep\<close>) and the interpreter of rules
  (\<^verbatim>\<open>crush_do_rule\<close>) of \<^verbatim>\<open>crush/mapper.c\<close>.
\<close>

section \<open>Breadth first\<close>

record indep_params =
  n_numrep :: int
  n_type :: int
  n_tries :: u32
  n_recurse_tries :: u32
  n_recurse_to_leaf :: bool
  n_parent_r :: u32

type_synonym indep_leaf =
  "crush_bucket \<Rightarrow> int \<Rightarrow> u32 \<Rightarrow> crush_work \<Rightarrow> int list \<Rightarrow> (crush_work \<times> int list) option"

definition set_out2 :: "int \<Rightarrow> int \<Rightarrow> choose_state \<Rightarrow> choose_state option" where
  "set_out2 rep v st =
     (case st_out2 st of
        None \<Rightarrow> Some st
      | Some out2 \<Rightarrow> do { out2 \<leftarrow> arr_set out2 rep v; Some (st\<lparr>st_out2 := Some out2\<rparr>) })"

definition set_both :: "int \<Rightarrow> int \<Rightarrow> choose_state \<Rightarrow> choose_state option" where
  "set_both rep v st = do {
     out \<leftarrow> arr_set (st_out st) rep v;
     set_out2 rep v (st\<lparr>st_out := out\<rparr>) }"

text \<open>The search for a device below \<open>item\<close>; the result says whether there is one.\<close>

definition indep_descend_leaf ::
  "indep_leaf \<Rightarrow> crush_input \<Rightarrow> indep_params \<Rightarrow> int \<Rightarrow> u32 \<Rightarrow> int \<Rightarrow> choose_state
     \<Rightarrow> (bool \<times> choose_state) option" where
  "indep_descend_leaf leaf inp prm rep r item st = do {
     out2 \<leftarrow> st_out2 st;
     if item < 0 then do {
       b \<leftarrow> bucket_at (i_map inp) item;
       (work, out2) \<leftarrow> leaf b rep r (st_work st) out2;
       v \<leftarrow> arr_get out2 rep;
       Some (v \<noteq> CRUSH_ITEM_NONE, st\<lparr>st_work := work, st_out2 := Some out2\<rparr>) }
     else do {
       out2 \<leftarrow> arr_set out2 rep item;
       Some (True, st\<lparr>st_out2 := Some out2\<rparr>) } }"

text \<open>An item of the wanted type; the result is \<^verbatim>\<open>left\<close>.\<close>

definition indep_accept ::
  "indep_leaf \<Rightarrow> crush_input \<Rightarrow> indep_params \<Rightarrow> int \<Rightarrow> int \<Rightarrow> int \<Rightarrow> u32 \<Rightarrow> int \<Rightarrow> int \<Rightarrow> int \<Rightarrow> choose_state
     \<Rightarrow> ((crush_bucket + int) \<times> choose_state) option" where
  "indep_accept leaf inp prm outpos endpos rep r item itemtype left st = do {
     check (endpos \<le> int (length (st_out st)));
     if item \<in> set (take (nat (endpos - outpos)) (drop (nat outpos) (st_out st)))
     then Some (Inr left, st)
     else do {
       (placed, st) \<leftarrow>
         (if n_recurse_to_leaf prm then indep_descend_leaf leaf inp prm rep r item st
          else Some (True, st));
       if \<not> placed then Some (Inr left, st)
       else do {
         unusable \<leftarrow>
           (if itemtype = 0 then is_out (i_weight inp) item (i_x inp) else Some False);
         if unusable then Some (Inr left, st)
         else do {
           out \<leftarrow> arr_set (st_out st) rep item;
           Some (Inr (left - 1), st\<lparr>st_out := out\<rparr>) } } } }"

text \<open>
  One pass of the innermost loop: \<open>Inl\<close> descends into a bucket, \<open>Inr\<close> leaves the loop with
  \<^verbatim>\<open>left\<close>.
\<close>

definition indep_pass ::
  "indep_leaf \<Rightarrow> crush_input \<Rightarrow> indep_params \<Rightarrow> int \<Rightarrow> int \<Rightarrow> int \<Rightarrow> u32 \<Rightarrow> crush_bucket \<Rightarrow> int \<Rightarrow> choose_state
     \<Rightarrow> ((crush_bucket + int) \<times> choose_state) option" where
  "indep_pass leaf inp prm outpos endpos rep ftotal b left st = do {
     let r = of_int rep + n_parent_r prm;
     check (is_CRUSH_BUCKET_UNIFORM (b_body b) \<longrightarrow> n_numrep prm \<noteq> 0);
     let r = (if is_CRUSH_BUCKET_UNIFORM (b_body b) \<and> b_size b mod of_int (n_numrep prm) = 0
              then r + of_int (n_numrep prm + 1) * ftotal
              else r + of_int (n_numrep prm) * ftotal);
     if b_size b = 0 then Some (Inr left, st)
     else do {
       (item, work) \<leftarrow> choose_from inp b r outpos (st_work st);
       let st = st\<lparr>st_work := work\<rparr>;
       if item \<ge> max_devices (i_map inp)
       then do { st \<leftarrow> set_both rep CRUSH_ITEM_NONE st; Some (Inr (left - 1), st) }
       else do {
         itemtype \<leftarrow> item_type (i_map inp) item;
         if itemtype \<noteq> n_type prm then
           if item \<ge> 0 \<or> -1 - item \<ge> max_buckets (i_map inp)
           then do { st \<leftarrow> set_both rep CRUSH_ITEM_NONE st; Some (Inr (left - 1), st) }
           else do { c \<leftarrow> bucket_at (i_map inp) item; Some (Inl c, st) }
         else indep_accept leaf inp prm outpos endpos rep r item itemtype left st } } }"

partial_function (option) indep_search ::
  "indep_leaf \<Rightarrow> crush_input \<Rightarrow> indep_params \<Rightarrow> int \<Rightarrow> int \<Rightarrow> int \<Rightarrow> u32 \<Rightarrow> crush_bucket \<Rightarrow> int \<Rightarrow> choose_state
     \<Rightarrow> (int \<times> choose_state) option" where
  "indep_search leaf inp prm outpos endpos rep ftotal b left st = do {
     (p, st) \<leftarrow> indep_pass leaf inp prm outpos endpos rep ftotal b left st;
     case p of
       Inl c \<Rightarrow> indep_search leaf inp prm outpos endpos rep ftotal c left st
     | Inr left \<Rightarrow> Some (left, st) }"

declare indep_search.simps [code]

definition indep_rep ::
  "indep_leaf \<Rightarrow> crush_input \<Rightarrow> indep_params \<Rightarrow> crush_bucket \<Rightarrow> int \<Rightarrow> int \<Rightarrow> u32 \<Rightarrow> int \<times> choose_state \<Rightarrow> int
     \<Rightarrow> (int \<times> choose_state) option" where
  "indep_rep leaf inp prm bucket outpos endpos ftotal = (\<lambda>(left, st) rep. do {
     v \<leftarrow> arr_get (st_out st) rep;
     if v \<noteq> CRUSH_ITEM_UNDEF then Some (left, st)
     else indep_search leaf inp prm outpos endpos rep ftotal bucket left st })"

function indep_rounds ::
  "indep_leaf \<Rightarrow> crush_input \<Rightarrow> indep_params \<Rightarrow> crush_bucket \<Rightarrow> int \<Rightarrow> int \<Rightarrow> u32 \<Rightarrow> int \<Rightarrow> choose_state
     \<Rightarrow> (u32 \<times> choose_state) option" where
  "indep_rounds leaf inp prm bucket outpos endpos ftotal left st =
     (if left > 0 \<and> ftotal < n_tries prm then do {
        (left, st) \<leftarrow> fold_opt (indep_rep leaf inp prm bucket outpos endpos ftotal) (left, st) [outpos..endpos - 1];
        indep_rounds leaf inp prm bucket outpos endpos (ftotal + 1) left st }
      else Some (ftotal, st))"
  by pat_completeness auto
termination
proof (relation "measure (\<lambda>(leaf, inp, prm, bucket, outpos, endpos, ftotal, _). unat (n_tries prm) - unat ftotal)")
  fix prm :: indep_params and ftotal :: u32 and left :: int
  assume "0 < left \<and> ftotal < n_tries prm"
  then have "unat ftotal < unat (n_tries prm)" by (simp add: word_less_nat_alt)
  moreover from this have "unat (ftotal + 1) = unat ftotal + 1"
    using unsigned_less [of "n_tries prm", where ?'a = nat] by (simp add: unat_word_ariths)
  ultimately have "unat (n_tries prm) - unat (ftotal + 1) < unat (n_tries prm) - unat ftotal" by simp
  then show "((leaf, inp, prm, bucket, outpos, endpos, ftotal + 1, left', st'),
      leaf', inp', prm, bucket', outpos', endpos', ftotal, left, st) \<in>
     measure (\<lambda>(leaf, inp, prm, bucket, outpos, endpos, ftotal, _). unat (n_tries prm) - unat ftotal)"
    for leaf :: indep_leaf and inp :: crush_input and bucket outpos endpos left' st'
    and leaf' :: indep_leaf and inp' :: crush_input and bucket' outpos' endpos' st
    by simp
qed simp

definition indep_clear :: "choose_state \<Rightarrow> int \<Rightarrow> choose_state option" where
  "indep_clear st rep = set_both rep CRUSH_ITEM_UNDEF st"

definition indep_finish :: "choose_state \<Rightarrow> int \<Rightarrow> choose_state option" where
  "indep_finish st rep = do {
     v \<leftarrow> arr_get (st_out st) rep;
     out \<leftarrow> (if v = CRUSH_ITEM_UNDEF then arr_set (st_out st) rep CRUSH_ITEM_NONE else Some (st_out st));
     let st = st\<lparr>st_out := out\<rparr>;
     case st_out2 st of
       None \<Rightarrow> Some st
     | Some out2 \<Rightarrow> do {
         v2 \<leftarrow> arr_get out2 rep;
         if v2 = CRUSH_ITEM_UNDEF then set_out2 rep CRUSH_ITEM_NONE st else Some st } }"

definition choose_indep_with ::
  "indep_leaf \<Rightarrow> crush_input \<Rightarrow> indep_params \<Rightarrow> crush_bucket \<Rightarrow> int \<Rightarrow> int \<Rightarrow> choose_state \<Rightarrow> choose_state option" where
  "choose_indep_with leaf inp prm bucket left outpos st = do {
     let endpos = outpos + left;
     st \<leftarrow> fold_opt indep_clear st [outpos..endpos - 1];
     (ftotal, st) \<leftarrow> indep_rounds leaf inp prm bucket outpos endpos 0 left st;
     st \<leftarrow> fold_opt indep_finish st [outpos..endpos - 1];
     work \<leftarrow> count_tries (i_map inp) ftotal (st_work st);
     Some (st\<lparr>st_work := work\<rparr>) }"

text \<open>The recursive call: one device below a bucket, at position \<open>rep\<close> of the caller's \<^verbatim>\<open>out2\<close>.\<close>

definition indep_leaf_of :: "crush_input \<Rightarrow> indep_params \<Rightarrow> indep_leaf" where
  "indep_leaf_of inp prm b rep r work out2 = do {
     st \<leftarrow> choose_indep_with (\<lambda>_ _ _ _ _. None) inp
       (prm\<lparr>n_type := 0, n_tries := n_recurse_tries prm, n_recurse_tries := 0,
            n_recurse_to_leaf := False, n_parent_r := r\<rparr>)
       b 1 rep \<lparr>st_work = work, st_out = out2, st_out2 = None\<rparr>;
     Some (st_work st, st_out st) }"

definition crush_choose_indep ::
  "crush_input \<Rightarrow> indep_params \<Rightarrow> crush_bucket \<Rightarrow> int \<Rightarrow> int \<Rightarrow> choose_state \<Rightarrow> choose_state option" where
  "crush_choose_indep inp prm bucket left outpos st =
     choose_indep_with (indep_leaf_of inp prm) inp prm bucket left outpos st"

section \<open>Rules\<close>

text \<open>
  The locals of \<^verbatim>\<open>crush_do_rule\<close>: the arrays \<^verbatim>\<open>w\<close>, \<^verbatim>\<open>o\<close> and \<^verbatim>\<open>c\<close>, the result so far
  and the tunables that steps set.
\<close>

record rule_state =
  rs_work :: crush_work
  rs_w :: "int list"
  rs_o :: "int list"
  rs_c :: "int list"
  rs_wsize :: int
  rs_result :: "int list"
  rs_choose_tries :: u32
  rs_choose_leaf_tries :: u32
  rs_local_retries :: u32
  rs_local_fallback_retries :: u32
  rs_vary_r :: u32
  rs_stable :: u32

definition valid_take :: "crush_map \<Rightarrow> int \<Rightarrow> bool" where
  "valid_take m a \<longleftrightarrow> (0 \<le> a \<and> a < max_devices m) \<or>
     (0 \<le> -1 - a \<and> -1 - a < max_buckets m \<and> bucket_at m a \<noteq> None)"

definition step_take :: "crush_map \<Rightarrow> int \<Rightarrow> rule_state \<Rightarrow> rule_state option" where
  "step_take m a rs =
     (if valid_take m a then do {
        w \<leftarrow> arr_set (rs_w rs) 0 a;
        Some (rs\<lparr>rs_w := w, rs_wsize := 1\<rparr>) }
      else Some rs)"

text \<open>One pass of the loop over \<^verbatim>\<open>w\<close> in a choose step, on \<^verbatim>\<open>osize\<close>, \<^verbatim>\<open>o\<close>, \<^verbatim>\<open>c\<close> and the working area.\<close>

type_synonym choose_acc = "int \<times> int list \<times> int list \<times> crush_work"

definition firstn_one ::
  "crush_input \<Rightarrow> int \<Rightarrow> bool \<Rightarrow> int \<Rightarrow> int \<Rightarrow> rule_state \<Rightarrow> crush_bucket \<Rightarrow> choose_acc \<Rightarrow> choose_acc option" where
  "firstn_one inp result_max to_leaf numrep type rs b = (\<lambda>(osize, ov, cv, work). do {
     let recurse_tries =
       (if rs_choose_leaf_tries rs \<noteq> 0 then rs_choose_leaf_tries rs
        else if chooseleaf_descend_once (i_map inp) \<noteq> 0 then 1
        else rs_choose_tries rs);
     (n, st) \<leftarrow> crush_choose_firstn inp
       \<lparr>f_numrep = numrep, f_type = type, f_tries = rs_choose_tries rs, f_recurse_tries = recurse_tries,
        f_local_retries = rs_local_retries rs, f_local_fallback_retries = rs_local_fallback_retries rs,
        f_recurse_to_leaf = to_leaf, f_vary_r = rs_vary_r rs, f_stable = rs_stable rs, f_parent_r = 0\<rparr>
       b 0 (result_max - osize)
       \<lparr>st_work = work, st_out = drop (nat osize) ov, st_out2 = Some (drop (nat osize) cv)\<rparr>;
     c' \<leftarrow> st_out2 st;
     Some (osize + n, take (nat osize) ov @ st_out st, take (nat osize) cv @ c', st_work st) })"

definition indep_one ::
  "crush_input \<Rightarrow> int \<Rightarrow> bool \<Rightarrow> int \<Rightarrow> int \<Rightarrow> rule_state \<Rightarrow> crush_bucket \<Rightarrow> choose_acc \<Rightarrow> choose_acc option" where
  "indep_one inp result_max to_leaf numrep type rs b = (\<lambda>(osize, ov, cv, work). do {
     let out_size = (if numrep < result_max - osize then numrep else result_max - osize);
     st \<leftarrow> crush_choose_indep inp
       \<lparr>n_numrep = numrep, n_type = type, n_tries = rs_choose_tries rs,
        n_recurse_tries = (if rs_choose_leaf_tries rs \<noteq> 0 then rs_choose_leaf_tries rs else 1),
        n_recurse_to_leaf = to_leaf, n_parent_r = 0\<rparr>
       b out_size 0
       \<lparr>st_work = work, st_out = drop (nat osize) ov, st_out2 = Some (drop (nat osize) cv)\<rparr>;
     c' \<leftarrow> st_out2 st;
     Some (osize + out_size, take (nat osize) ov @ st_out st, take (nat osize) cv @ c', st_work st) })"

definition choose_one ::
  "crush_input \<Rightarrow> int \<Rightarrow> bool \<Rightarrow> bool \<Rightarrow> crush_rule_step \<Rightarrow> rule_state \<Rightarrow> choose_acc \<Rightarrow> nat \<Rightarrow> choose_acc option" where
  "choose_one inp result_max firstn to_leaf stp rs acc i = do {
     let numrep = (if s_arg1 stp \<le> 0 then s_arg1 stp + result_max else s_arg1 stp);
     if numrep \<le> 0 then Some acc
     else do {
       wi \<leftarrow> arr_get (rs_w rs) (int i);
       let bno = -1 - wi;
       if bno < 0 \<or> bno \<ge> max_buckets (i_map inp) then Some acc
       else do {
         b \<leftarrow> bucket_at (i_map inp) wi;
         if firstn then firstn_one inp result_max to_leaf numrep (s_arg2 stp) rs b acc
         else indep_one inp result_max to_leaf numrep (s_arg2 stp) rs b acc } } }"

definition step_choose ::
  "crush_input \<Rightarrow> int \<Rightarrow> bool \<Rightarrow> bool \<Rightarrow> crush_rule_step \<Rightarrow> rule_state \<Rightarrow> rule_state option" where
  "step_choose inp result_max firstn to_leaf stp rs =
     (if rs_wsize rs = 0 then Some rs
      else do {
        (osize, ov, cv, work) \<leftarrow>
          fold_opt (choose_one inp result_max firstn to_leaf stp rs)
            (0, rs_o rs, rs_c rs, rs_work rs) [0..<nat (rs_wsize rs)];
        ov \<leftarrow> (if to_leaf then do {
                 check (nat osize \<le> length ov \<and> nat osize \<le> length cv);
                 Some (take (nat osize) cv @ drop (nat osize) ov) }
               else Some ov);
        Some (rs\<lparr>rs_work := work, rs_w := ov, rs_o := rs_w rs, rs_c := cv, rs_wsize := osize\<rparr>) })"

definition step_emit :: "int \<Rightarrow> rule_state \<Rightarrow> rule_state option" where
  "step_emit result_max rs = do {
     let n = nat (min (rs_wsize rs) (result_max - int (length (rs_result rs))));
     check (n \<le> length (rs_w rs));
     Some (rs\<lparr>rs_result := rs_result rs @ take n (rs_w rs), rs_wsize := 0\<rparr>) }"

definition rule_step :: "crush_input \<Rightarrow> int \<Rightarrow> rule_state \<Rightarrow> crush_rule_step \<Rightarrow> rule_state option" where
  "rule_step inp result_max rs stp =
     (let a = s_arg1 stp in
      case s_op stp of
        CRUSH_RULE_TAKE \<Rightarrow> step_take (i_map inp) a rs
      | CRUSH_RULE_SET_CHOOSE_TRIES \<Rightarrow> Some (if a > 0 then rs\<lparr>rs_choose_tries := of_int a\<rparr> else rs)
      | CRUSH_RULE_SET_CHOOSELEAF_TRIES \<Rightarrow> Some (if a > 0 then rs\<lparr>rs_choose_leaf_tries := of_int a\<rparr> else rs)
      | CRUSH_RULE_SET_CHOOSE_LOCAL_TRIES \<Rightarrow> Some (if a \<ge> 0 then rs\<lparr>rs_local_retries := of_int a\<rparr> else rs)
      | CRUSH_RULE_SET_CHOOSE_LOCAL_FALLBACK_TRIES \<Rightarrow>
          Some (if a \<ge> 0 then rs\<lparr>rs_local_fallback_retries := of_int a\<rparr> else rs)
      | CRUSH_RULE_SET_CHOOSELEAF_VARY_R \<Rightarrow> Some (if a \<ge> 0 then rs\<lparr>rs_vary_r := of_int a\<rparr> else rs)
      | CRUSH_RULE_SET_CHOOSELEAF_STABLE \<Rightarrow> Some (if a \<ge> 0 then rs\<lparr>rs_stable := of_int a\<rparr> else rs)
      | CRUSH_RULE_CHOOSELEAF_FIRSTN \<Rightarrow> step_choose inp result_max True True stp rs
      | CRUSH_RULE_CHOOSE_FIRSTN \<Rightarrow> step_choose inp result_max True False stp rs
      | CRUSH_RULE_CHOOSELEAF_INDEP \<Rightarrow> step_choose inp result_max False True stp rs
      | CRUSH_RULE_CHOOSE_INDEP \<Rightarrow> step_choose inp result_max False False stp rs
      | CRUSH_RULE_EMIT \<Rightarrow> step_emit result_max rs
      | CRUSH_RULE_NOOP \<Rightarrow> Some rs
      | CRUSH_RULE_UNKNOWN \<Rightarrow> Some rs)"

text \<open>
  \<open>scratch\<close> is the memory behind the working area, where the arrays \<^verbatim>\<open>a\<close>, \<^verbatim>\<open>b\<close> and \<^verbatim>\<open>c\<close>
  lie. The result is the array \<^verbatim>\<open>result\<close> up to \<^verbatim>\<open>result_len\<close>, and the working area.
\<close>

definition rule_start :: "crush_map \<Rightarrow> crush_work \<Rightarrow> int list \<times> int list \<times> int list \<Rightarrow> rule_state" where
  "rule_start m work = (\<lambda>(a, b, c).
     \<lparr>rs_work = work, rs_w = a, rs_o = b, rs_c = c, rs_wsize = 0, rs_result = [],
      rs_choose_tries = choose_total_tries m + 1, rs_choose_leaf_tries = 0,
      rs_local_retries = choose_local_tries m, rs_local_fallback_retries = choose_local_fallback_tries m,
      rs_vary_r = ucast (chooseleaf_vary_r m), rs_stable = ucast (chooseleaf_stable m)\<rparr>)"

definition crush_do_rule ::
  "crush_input \<Rightarrow> int \<Rightarrow> int \<Rightarrow> crush_work \<Rightarrow> int list \<times> int list \<times> int list \<Rightarrow> (int list \<times> crush_work) option" where
  "crush_do_rule inp ruleno result_max work scratch =
     (if ruleno < 0 \<or> ruleno \<ge> int (length (m_rules (i_map inp))) then Some ([], work)
      else do {
        rule \<leftarrow> m_rules (i_map inp) ! nat ruleno;
        rs \<leftarrow> fold_opt (rule_step inp result_max) (rule_start (i_map inp) work scratch) (r_steps rule);
        Some (rs_result rs, rs_work rs) })"

end
