(* ===== verification/CrushIndep.thy ===== *)
theory CrushIndep
  imports CrushFirstn CrushRule
begin

text \<open>
  What \<^verbatim>\<open>crush_choose_indep\<close> does on a well-formed map: it returns, every access is in range,
  and each position holds nothing or an item of the wanted type that no other position holds.
\<close>

declare indep_rounds.simps [simp del]

section \<open>Positions\<close>

definition idle :: "int \<Rightarrow> bool" where
  "idle v \<longleftrightarrow> v = CRUSH_ITEM_UNDEF \<or> v = CRUSH_ITEM_NONE"

definition leaf_at :: "choose_state \<Rightarrow> nat \<Rightarrow> int" where
  "leaf_at st i = (case st_out2 st of None \<Rightarrow> CRUSH_ITEM_NONE | Some o2 \<Rightarrow> o2 ! i)"

text \<open>An item with the device \<open>d\<close> below it, when one is asked for.\<close>

definition item_placed :: "crush_input \<Rightarrow> indep_params \<Rightarrow> crush_bucket \<Rightarrow> int \<Rightarrow> int \<Rightarrow> bool" where
  "item_placed inp prm bucket item d \<longleftrightarrow>
     item_type (i_map inp) item = Some (n_type prm) \<and> contains (i_map inp) bucket item \<and>
     (0 \<le> item \<longrightarrow> usable inp item) \<and>
     (n_recurse_to_leaf prm \<longrightarrow>
        (if item < 0 then usable inp d \<and> (\<exists>c. bucket_at (i_map inp) item = Some c \<and> contains (i_map inp) c d)
         else d = item))"

text \<open>What a position of \<^verbatim>\<open>out2\<close> may hold.\<close>

definition leaf_val :: "crush_input \<Rightarrow> int \<Rightarrow> bool" where
  "leaf_val inp d \<longleftrightarrow> idle d \<or> 0 \<le> d \<and> d < max_devices (i_map inp)"

definition position_ok :: "crush_input \<Rightarrow> indep_params \<Rightarrow> crush_bucket \<Rightarrow> choose_state \<Rightarrow> nat \<Rightarrow> bool" where
  "position_ok inp prm bucket st i \<longleftrightarrow> leaf_val inp (leaf_at st i) \<and>
     (if idle (st_out st ! i) then n_type prm \<noteq> 0 \<longrightarrow> idle (leaf_at st i)
      else item_placed inp prm bucket (st_out st ! i) (leaf_at st i))"

text \<open>The same array outside of the positions from \<open>lo\<close> to \<open>hi\<close>.\<close>

definition outside :: "int \<Rightarrow> int \<Rightarrow> 'a list \<Rightarrow> 'a list \<Rightarrow> bool" where
  "outside lo hi xs ys \<longleftrightarrow> length ys = length xs \<and> (\<forall>i. int i < lo \<or> hi \<le> int i \<longrightarrow> ys ! i = xs ! i)"

fun outside_opt :: "int \<Rightarrow> int \<Rightarrow> 'a list option \<Rightarrow> 'a list option \<Rightarrow> bool" where
  "outside_opt lo hi None ys \<longleftrightarrow> ys = None"
| "outside_opt lo hi (Some xs) ys \<longleftrightarrow> (\<exists>l. ys = Some l \<and> outside lo hi xs l)"

lemma outside_refl [simp]: "outside lo hi xs xs" "outside_opt lo hi oxs oxs"
  by (auto simp: outside_def) (cases oxs; simp add: outside_def)

lemma outside_trans: "outside lo hi xs ys \<Longrightarrow> outside lo hi ys zs \<Longrightarrow> outside lo hi xs zs"
  by (simp add: outside_def)

lemma outside_opt_trans: "outside_opt lo hi xs ys \<Longrightarrow> outside_opt lo hi ys zs \<Longrightarrow> outside_opt lo hi xs zs"
  by (cases xs; cases ys) (auto intro: outside_trans)

lemma outside_mono: "outside a b xs ys \<Longrightarrow> lo \<le> a \<Longrightarrow> b \<le> hi \<Longrightarrow> outside lo hi xs ys"
  by (auto simp: outside_def)

lemma outside_opt_mono: "outside_opt a b xs ys \<Longrightarrow> lo \<le> a \<Longrightarrow> b \<le> hi \<Longrightarrow> outside_opt lo hi xs ys"
  by (cases xs) (auto intro: outside_mono)

lemma outside_upd: "0 \<le> rep \<Longrightarrow> outside rep (rep + 1) xs (xs[nat rep := v])"
  by (auto simp: outside_def nth_list_update)

text \<open>The range lies inside the arrays.\<close>

definition spans :: "indep_params \<Rightarrow> int \<Rightarrow> int \<Rightarrow> choose_state \<Rightarrow> bool" where
  "spans prm lo hi st \<longleftrightarrow> 0 \<le> lo \<and> hi \<le> int (length (st_out st)) \<and>
     (n_recurse_to_leaf prm \<longrightarrow> st_out2 st \<noteq> None) \<and>
     (\<forall>o2. st_out2 st = Some o2 \<longrightarrow> hi \<le> int (length o2))"

text \<open>The invariant of the loops, over the positions from \<open>lo\<close> to \<open>hi\<close>.\<close>

definition indep_inv :: "crush_input \<Rightarrow> indep_params \<Rightarrow> crush_bucket \<Rightarrow> int \<Rightarrow> int \<Rightarrow> choose_state \<Rightarrow> choose_state \<Rightarrow> bool" where
  "indep_inv inp prm bucket lo hi st0 st \<longleftrightarrow> work_ok (i_map inp) (st_work st) \<and>
     outside lo hi (st_out st0) (st_out st) \<and> outside_opt lo hi (st_out2 st0) (st_out2 st) \<and>
     (\<forall>i. lo \<le> int i \<and> int i < hi \<longrightarrow> position_ok inp prm bucket st i) \<and>
     (\<forall>i j. lo \<le> int i \<and> int i < hi \<and> lo \<le> int j \<and> int j < hi \<and> i \<noteq> j \<and> st_out st ! i = st_out st ! j \<longrightarrow>
        idle (st_out st ! i))"

lemma inv_spans: "indep_inv inp prm bucket lo hi st0 st \<Longrightarrow> spans prm lo hi st0 \<Longrightarrow> spans prm lo hi st"
  unfolding indep_inv_def spans_def by (cases "st_out2 st0") (auto simp: outside_def)

text \<open>Only position \<open>rep\<close> changes.\<close>

definition touches :: "int \<Rightarrow> choose_state \<Rightarrow> choose_state \<Rightarrow> bool" where
  "touches rep st st' \<longleftrightarrow> outside rep (rep + 1) (st_out st) (st_out st') \<and>
     outside_opt rep (rep + 1) (st_out2 st) (st_out2 st')"

lemma touches_trans: "touches rep st st' \<Longrightarrow> touches rep st' st'' \<Longrightarrow> touches rep st st''"
  by (auto simp: touches_def intro: outside_trans outside_opt_trans)

lemma touches_same:
  assumes "touches rep st st'" "0 \<le> rep" "i \<noteq> nat rep"
  shows "st_out st' ! i = st_out st ! i" "leaf_at st' i = leaf_at st i"
proof -
  have i: "int i < rep \<or> rep + 1 \<le> int i" using assms(2,3) by linarith
  show "st_out st' ! i = st_out st ! i" using assms(1) i by (auto simp: touches_def outside_def)
  show "leaf_at st' i = leaf_at st i"
    using assms(1) i by (cases "st_out2 st") (auto simp: touches_def outside_def leaf_at_def)
qed

lemma inv_touches:
  assumes inv: "indep_inv inp prm bucket lo hi st0 st" and t: "touches rep st st'"
    and rep: "0 \<le> lo" "lo \<le> rep" "rep < hi"
    and new: "work_ok (i_map inp) (st_work st')" "position_ok inp prm bucket st' (nat rep)"
    and fresh: "idle (st_out st' ! nat rep) \<or>
      (\<forall>i. lo \<le> int i \<and> int i < hi \<and> i \<noteq> nat rep \<longrightarrow> st_out st ! i \<noteq> st_out st' ! nat rep)"
  shows "indep_inv inp prm bucket lo hi st0 st'"
proof -
  have same: "st_out st' ! i = st_out st ! i" "leaf_at st' i = leaf_at st i" if "i \<noteq> nat rep" for i
    using touches_same [OF t _ that] rep by auto
  have "position_ok inp prm bucket st' i" if "lo \<le> int i" "int i < hi" for i
    using inv that new(2) same [of i] by (cases "i = nat rep") (auto simp: indep_inv_def position_ok_def)
  moreover have "idle (st_out st' ! i)"
    if "lo \<le> int i" "int i < hi" "lo \<le> int j" "int j < hi" "i \<noteq> j" "st_out st' ! i = st_out st' ! j" for i j
    using inv that fresh same [of i] same [of j] unfolding indep_inv_def by metis
  moreover have "outside lo hi (st_out st) (st_out st')" "outside_opt lo hi (st_out2 st) (st_out2 st')"
    using t rep by (auto simp: touches_def intro: outside_mono outside_opt_mono)
  ultimately show ?thesis
    using inv new(1) by (auto simp: indep_inv_def intro: outside_trans outside_opt_trans)
qed

lemma item_type_zero:
  assumes "input_ok inp" "item_type (i_map inp) item = Some 0"
  shows "0 \<le> item"
  using assms bucket_at_in_map(2) by (fastforce simp: item_type_def input_ok_def bucket_ok_def split: if_splits)

section \<open>One pass\<close>

definition ileaf_ok :: "crush_input \<Rightarrow> indep_leaf \<Rightarrow> bool" where
  "ileaf_ok inp leaf \<longleftrightarrow> (\<forall>b rep r work out2.
     in_map (i_map inp) b \<longrightarrow> work_ok (i_map inp) work \<longrightarrow> 0 \<le> rep \<longrightarrow> rep < int (length out2) \<longrightarrow>
     (\<exists>work' out2'. leaf b rep r work out2 = Some (work', out2') \<and> work_ok (i_map inp) work' \<and>
        outside rep (rep + 1) out2 out2' \<and>
        (out2' ! nat rep = CRUSH_ITEM_NONE \<or>
         usable inp (out2' ! nat rep) \<and> contains (i_map inp) b (out2' ! nat rep))))"

lemma idle_consts [simp]: "idle CRUSH_ITEM_UNDEF" "idle CRUSH_ITEM_NONE" "0 \<le> CRUSH_ITEM_UNDEF" "0 \<le> CRUSH_ITEM_NONE"
  by (simp_all add: idle_def CRUSH_ITEM_UNDEF_def CRUSH_ITEM_NONE_def)

lemma set_both_ok:
  assumes "spans prm lo hi st" "lo \<le> rep" "rep < hi"
  obtains st' where "set_both rep v st = Some st'" "touches rep st st'" "st_work st' = st_work st"
    "st_out st' ! nat rep = v" "st_out2 st \<noteq> None \<Longrightarrow> leaf_at st' (nat rep) = v"
    "st_out2 st = None \<Longrightarrow> st_out2 st' = None"
proof (cases "st_out2 st")
  case None
  then show ?thesis
    using assms by (intro that [of "st\<lparr>st_out := (st_out st)[nat rep := v]\<rparr>"])
      (auto simp: set_both_def set_out2_def arr_set_def spans_def touches_def intro: outside_upd)
next
  case (Some o2)
  then show ?thesis
    using assms by (intro that [of "st\<lparr>st_out := (st_out st)[nat rep := v], st_out2 := Some (o2[nat rep := v])\<rparr>"])
      (auto simp: set_both_def set_out2_def arr_set_def spans_def touches_def leaf_at_def nat_less_iff intro: outside_upd)
qed

lemma set_none_inv:
  assumes inv: "indep_inv inp prm bucket lo hi st0 st" and s: "spans prm lo hi st" "lo \<le> rep" "rep < hi"
    and v: "idle v"
  obtains st' where "set_both rep v st = Some st'" "indep_inv inp prm bucket lo hi st0 st'" "st_out st' ! nat rep = v"
proof -
  obtain st' where st': "set_both rep v st = Some st'" "touches rep st st'" "st_work st' = st_work st"
    "st_out st' ! nat rep = v" "st_out2 st \<noteq> None \<Longrightarrow> leaf_at st' (nat rep) = v" "st_out2 st = None \<Longrightarrow> st_out2 st' = None"
    using set_both_ok [OF s] by metis
  have "idle (leaf_at st' (nat rep))" using st'(5,6) v by (cases "st_out2 st") (auto simp: leaf_at_def)
  then have "position_ok inp prm bucket st' (nat rep)" using st'(4) v by (simp add: position_ok_def leaf_val_def)
  moreover have "0 \<le> lo" using s(1) by (simp add: spans_def)
  ultimately have "indep_inv inp prm bucket lo hi st0 st'"
    using inv st' s(2,3) v by (intro inv_touches [OF inv st'(2)]) (auto simp: indep_inv_def)
  then show ?thesis using st' that by blast
qed

lemma indep_descend_leaf_ok:
  assumes "input_ok inp" "ileaf_ok inp leaf" "spans prm lo hi st" "lo \<le> rep" "rep < hi"
    and "n_recurse_to_leaf prm" "work_ok (i_map inp) (st_work st)" "item < 0 \<longrightarrow> bucket_at (i_map inp) item \<noteq> None"
  shows "\<exists>ok st'. indep_descend_leaf leaf inp prm rep r item st = Some (ok, st') \<and>
    touches rep st st' \<and> st_out st' = st_out st \<and> work_ok (i_map inp) (st_work st') \<and>
    (if item < 0 then
       if ok then usable inp (leaf_at st' (nat rep)) \<and>
         (\<exists>c. bucket_at (i_map inp) item = Some c \<and> contains (i_map inp) c (leaf_at st' (nat rep)))
       else leaf_at st' (nat rep) = CRUSH_ITEM_NONE
     else ok \<and> leaf_at st' (nat rep) = item)"
proof -
  obtain o2 where o2: "st_out2 st = Some o2" "0 \<le> rep" "rep < int (length o2)"
    using assms(3-6) by (fastforce simp: spans_def)
  show ?thesis
  proof (cases "item < 0")
    case False
    then show ?thesis
      using o2 assms(7) by (auto simp: indep_descend_leaf_def arr_set_def touches_def leaf_at_def nat_less_iff intro: outside_upd)
  next
    case True
    then obtain c where c: "bucket_at (i_map inp) item = Some c" using assms(8) by blast
    obtain work' o2' where l: "leaf c rep r (st_work st) o2 = Some (work', o2')"
      "work_ok (i_map inp) work'" "outside rep (rep + 1) o2 o2'"
      "o2' ! nat rep = CRUSH_ITEM_NONE \<or> usable inp (o2' ! nat rep) \<and> contains (i_map inp) c (o2' ! nat rep)"
      using assms(1,2,7) bucket_at_in_map(1) [OF _ c] o2(2,3) unfolding ileaf_ok_def input_ok_def by blast
    have none: "\<not> usable inp CRUSH_ITEM_NONE"
      using assms(1) by (auto simp: usable_def input_ok_def map_ok_def CRUSH_ITEM_NONE_def CRUSH_ITEM_UNDEF_def)
    have "arr_get o2' rep = Some (o2' ! nat rep)" using o2(2,3) l(3) by (simp add: arr_get_def outside_def)
    then have "indep_descend_leaf leaf inp prm rep r item st =
        Some (o2' ! nat rep \<noteq> CRUSH_ITEM_NONE, st\<lparr>st_work := work', st_out2 := Some o2'\<rparr>)"
      using True c o2(1) l(1) by (simp add: indep_descend_leaf_def)
    then show ?thesis using l o2(1) True c none by (auto simp: touches_def leaf_at_def)
  qed
qed

lemma in_range_iff:
  assumes "0 \<le> lo" "hi \<le> int (length xs)"
  shows "v \<in> set (take (nat (hi - lo)) (drop (nat lo) xs)) \<longleftrightarrow> (\<exists>i. lo \<le> int i \<and> int i < hi \<and> xs ! i = v)"
proof
  assume "v \<in> set (take (nat (hi - lo)) (drop (nat lo) xs))"
  then obtain k where "k < nat (hi - lo)" "nat lo + k < length xs" "xs ! (nat lo + k) = v"
    by (auto simp: in_set_conv_nth)
  then show "\<exists>i. lo \<le> int i \<and> int i < hi \<and> xs ! i = v" using assms by (intro exI [of _ "nat lo + k"]) auto
next
  assume "\<exists>i. lo \<le> int i \<and> int i < hi \<and> xs ! i = v"
  then obtain i where "lo \<le> int i" "int i < hi" "xs ! i = v" by blast
  then show "v \<in> set (take (nat (hi - lo)) (drop (nat lo) xs))"
    using assms by (auto simp: in_set_conv_nth intro!: exI [of _ "i - nat lo"])
qed

text \<open>The search for a device, when one is asked for.\<close>

definition leaf_found :: "crush_input \<Rightarrow> indep_params \<Rightarrow> int \<Rightarrow> int \<Rightarrow> bool \<Rightarrow> bool" where
  "leaf_found inp prm item d ok \<longleftrightarrow> leaf_val inp d \<and> (n_recurse_to_leaf prm \<longrightarrow>
     (if item < 0 then
        if ok then usable inp d \<and> (\<exists>c. bucket_at (i_map inp) item = Some c \<and> contains (i_map inp) c d)
        else d = CRUSH_ITEM_NONE
      else ok \<and> d = item))"

lemma indep_leaf_step:
  assumes ok: "input_ok inp" "n_recurse_to_leaf prm \<longrightarrow> ileaf_ok inp leaf"
    and inv: "indep_inv inp prm bucket lo hi st0 st" "spans prm lo hi st" "lo \<le> rep" "rep < hi"
    and item: "item < 0 \<longrightarrow> bucket_at (i_map inp) item \<noteq> None" "item < max_devices (i_map inp)"
  obtains placed st' where "(if n_recurse_to_leaf prm then indep_descend_leaf leaf inp prm rep r item st
      else Some (True, st)) = Some (placed, st')"
    "touches rep st st'" "st_out st' = st_out st" "work_ok (i_map inp) (st_work st')"
    "leaf_found inp prm item (leaf_at st' (nat rep)) placed" "n_recurse_to_leaf prm \<or> placed \<and> st' = st"
proof (cases "n_recurse_to_leaf prm")
  case True
  have work: "work_ok (i_map inp) (st_work st)" using inv(1) by (simp add: indep_inv_def)
  obtain placed st' where "indep_descend_leaf leaf inp prm rep r item st = Some (placed, st')"
    "touches rep st st'" "st_out st' = st_out st" "work_ok (i_map inp) (st_work st')"
    "if item < 0 then
       if placed then usable inp (leaf_at st' (nat rep)) \<and>
         (\<exists>c. bucket_at (i_map inp) item = Some c \<and> contains (i_map inp) c (leaf_at st' (nat rep)))
       else leaf_at st' (nat rep) = CRUSH_ITEM_NONE
     else placed \<and> leaf_at st' (nat rep) = item"
    using indep_descend_leaf_ok [OF ok(1) _ inv(2-4) True work item(1)] ok(2) True by blast
  then show ?thesis using that [of placed st'] True item(2)
    by (auto simp: leaf_found_def leaf_val_def usable_def split: if_splits)
next
  case False
  have "0 \<le> rep" using inv(2,3) by (simp add: spans_def)
  then have "position_ok inp prm bucket st (nat rep)" using inv(1,3,4) by (simp add: indep_inv_def)
  then show ?thesis using that [of True st] False inv(1)
    by (auto simp: leaf_found_def touches_def indep_inv_def position_ok_def)
qed

lemma indep_accept_ok:
  assumes ok: "input_ok inp" "n_recurse_to_leaf prm \<longrightarrow> ileaf_ok inp leaf"
    and inv: "indep_inv inp prm bucket lo hi st0 st" "spans prm lo hi st" "lo \<le> rep" "rep < hi"
    and old: "st_out st ! nat rep = CRUSH_ITEM_UNDEF"
    and item: "contains (i_map inp) bucket item" "item < max_devices (i_map inp)"
      "item_type (i_map inp) item = Some (n_type prm)" "n_type prm = 0 \<longleftrightarrow> 0 \<le> item"
      "item < 0 \<longrightarrow> bucket_at (i_map inp) item \<noteq> None"
  shows "\<exists>l st'. indep_accept leaf inp prm lo hi rep r item (n_type prm) left st = Some (Inr l, st') \<and>
    indep_inv inp prm bucket lo hi st0 st'"
proof (cases "item \<in> set (take (nat (hi - lo)) (drop (nat lo) (st_out st)))")
  case True
  then show ?thesis using inv(1,2) by (simp add: indep_accept_def spans_def)
next
  case False
  have lo: "0 \<le> lo" "hi \<le> int (length (st_out st))" using inv(2) by (auto simp: spans_def)
  have fresh: "st_out st ! i \<noteq> item" if "lo \<le> int i" "int i < hi" for i
    using False in_range_iff [OF lo] that by blast
  have live: "\<not> idle item"
    using item(2) ok(1) by (auto simp: idle_def input_ok_def map_ok_def CRUSH_ITEM_NONE_def CRUSH_ITEM_UNDEF_def)
  obtain placed st' where l: "(if n_recurse_to_leaf prm then indep_descend_leaf leaf inp prm rep r item st
      else Some (True, st)) = Some (placed, st')"
    "touches rep st st'" "st_out st' = st_out st" "work_ok (i_map inp) (st_work st')"
    "leaf_found inp prm item (leaf_at st' (nat rep)) placed" "n_recurse_to_leaf prm \<or> placed \<and> st' = st"
    using indep_leaf_step [OF ok inv item(5,2)] .
  obtain unusable where u: "(if n_type prm = 0 then is_out (i_weight inp) item (i_x inp) else Some False) = Some unusable"
    using is_out_total [of item "i_weight inp" "i_x inp"] item(4) by (cases "n_type prm = 0") auto
  have upd: "arr_set (st_out st') rep item = Some ((st_out st)[nat rep := item])"
    using lo inv(3,4) l(3) by (simp add: arr_set_def)
  note step = indep_accept_def lo(2) False l(1) u upd
  consider "\<not> placed \<or> unusable" | "placed" "\<not> unusable" by blast
  then show ?thesis
  proof cases
    case 1
    then have "indep_accept leaf inp prm lo hi rep r item (n_type prm) left st = Some (Inr left, st')"
      by (auto simp: step)
    moreover have "position_ok inp prm bucket st' (nat rep)"
      using l(3,5,6) 1 u old item(4) by (auto simp: position_ok_def leaf_found_def split: if_splits)
    ultimately show ?thesis
      using inv_touches [OF inv(1) l(2) lo(1) inv(3,4) l(4)] l(3) old by auto
  next
    case 2
    let ?st = "st'\<lparr>st_out := (st_out st)[nat rep := item]\<rparr>"
    have "indep_accept leaf inp prm lo hi rep r item (n_type prm) left st = Some (Inr (left - 1), ?st)"
      using 2 by (simp add: step)
    moreover have "touches rep st ?st"
      using l(2) outside_upd [of rep "st_out st" item] inv(3) lo(1) by (simp add: touches_def)
    moreover have "position_ok inp prm bucket ?st (nat rep)"
    proof -
      have "leaf_at ?st (nat rep) = leaf_at st' (nat rep)" by (simp add: leaf_at_def)
      moreover have "st_out ?st ! nat rep = item" using inv(3,4) lo by simp
      moreover have "0 \<le> item \<longrightarrow> usable inp item" using u 2(2) item(2,4) by (auto simp: usable_def)
      ultimately show ?thesis
        using l(5) 2(1) live item(1,3) by (auto simp: position_ok_def item_placed_def leaf_found_def split: if_splits)
    qed
    ultimately show ?thesis
      using inv_touches [OF inv(1) _ lo(1) inv(3,4), of ?st] l(4) fresh inv(3,4) lo by auto
  qed
qed

lemma indep_pass_ok:
  assumes ok: "input_ok inp" "n_recurse_to_leaf prm \<longrightarrow> ileaf_ok inp leaf" "0 < n_numrep prm"
    and inv: "indep_inv inp prm bucket lo hi st0 st" "spans prm lo hi st" "lo \<le> rep" "rep < hi"
    and old: "st_out st ! nat rep = CRUSH_ITEM_UNDEF"
    and b: "in_map (i_map inp) b" "\<And>i. contains (i_map inp) b i \<Longrightarrow> contains (i_map inp) bucket i"
  shows "\<exists>p st'. indep_pass leaf inp prm lo hi rep ftotal b left st = Some (p, st') \<and>
    indep_inv inp prm bucket lo hi st0 st' \<and>
    (case p of Inl c \<Rightarrow> st_out st' ! nat rep = CRUSH_ITEM_UNDEF \<and> (\<exists>i \<in> set (b_items b). bucket_at (i_map inp) i = Some c)
       | Inr _ \<Rightarrow> True)"
proof (cases "b_size b = 0")
  case True
  then show ?thesis using inv(1) ok(3) by (simp add: indep_pass_def Let_def)
next
  case False
  define r where "r = (if is_CRUSH_BUCKET_UNIFORM (b_body b) \<and> b_size b mod of_int (n_numrep prm) = 0
      then of_int rep + n_parent_r prm + of_int (n_numrep prm + 1) * ftotal
      else of_int rep + n_parent_r prm + of_int (n_numrep prm) * ftotal)"
  have m: "map_ok (i_map inp)" using ok(1) by (simp add: input_ok_def)
  have work: "work_ok (i_map inp) (st_work st)" using inv(1) by (simp add: indep_inv_def)
  obtain item work' where d: "choose_from inp b r lo (st_work st) = Some (item, work')"
    "item \<in> set (b_items b)" "work_ok (i_map inp) work'"
    using choose_from_ok [OF ok(1) work b(1) False, of lo r] inv(2) by (auto simp: spans_def)
  define st1 where "st1 = st\<lparr>st_work := work'\<rparr>"
  have st1: "indep_inv inp prm bucket lo hi st0 st1" "spans prm lo hi st1" "st_out st1 ! nat rep = CRUSH_ITEM_UNDEF"
    using inv(1,2) d(3) old by (auto simp: st1_def indep_inv_def spans_def position_ok_def leaf_at_def)
  obtain t where t: "item_type (i_map inp) item = Some t" "t = 0 \<longleftrightarrow> 0 \<le> item"
    "item < 0 \<Longrightarrow> \<exists>c. bucket_at (i_map inp) item = Some c \<and> -1 - item < max_buckets (i_map inp)"
    using item_type_ok [OF m b(1) d(2)] by metis
  have num: "is_CRUSH_BUCKET_UNIFORM (b_body b) \<longrightarrow> n_numrep prm \<noteq> 0" using ok(3) by simp
  note pass = indep_pass_def Let_def num False r_def [symmetric] d(1) t(1) st1_def [symmetric]
  consider "item \<ge> max_devices (i_map inp) \<or> t \<noteq> n_type prm \<and> 0 \<le> item"
    | "item < max_devices (i_map inp)" "t \<noteq> n_type prm" "item < 0"
    | "item < max_devices (i_map inp)" "t = n_type prm" by linarith
  then show ?thesis
  proof cases
    case 1
    obtain st' where "set_both rep CRUSH_ITEM_NONE st1 = Some st'" "indep_inv inp prm bucket lo hi st0 st'"
      using set_none_inv [OF st1(1,2) inv(3,4)] idle_consts(2) by metis
    moreover from this 1 have "indep_pass leaf inp prm lo hi rep ftotal b left st = Some (Inr (left - 1), st')"
      by (auto simp: pass)
    ultimately show ?thesis by simp
  next
    case 2
    then obtain c where "bucket_at (i_map inp) item = Some c" "-1 - item < max_buckets (i_map inp)" using t(3) by blast
    with 2 have "indep_pass leaf inp prm lo hi rep ftotal b left st = Some (Inl c, st1)"
      by (auto simp: pass)
    then show ?thesis using st1 d(2) \<open>bucket_at _ _ = _\<close> by auto
  next
    case 3
    then have "indep_pass leaf inp prm lo hi rep ftotal b left st =
        indep_accept leaf inp prm lo hi rep r item (n_type prm) left st1"
      by (simp add: pass)
    moreover have "contains (i_map inp) bucket item" using b(2) contains.here [OF d(2)] .
    ultimately show ?thesis
      using indep_accept_ok [OF ok(1,2) st1(1,2) inv(3,4) st1(3) _ 3(1), of r left] t 3(2) by fastforce
  qed
qed

section \<open>All positions\<close>

lemma indep_search_ok:
  assumes ok: "input_ok inp" "n_recurse_to_leaf prm \<longrightarrow> ileaf_ok inp leaf" "0 < n_numrep prm"
    and s: "spans prm lo hi st0" "lo \<le> rep" "rep < hi"
  shows "depth_ok d (i_map inp) b \<Longrightarrow> in_map (i_map inp) b \<Longrightarrow>
    (\<And>i. contains (i_map inp) b i \<Longrightarrow> contains (i_map inp) bucket i) \<Longrightarrow>
    indep_inv inp prm bucket lo hi st0 st \<Longrightarrow> st_out st ! nat rep = CRUSH_ITEM_UNDEF \<Longrightarrow>
    \<exists>l st'. indep_search leaf inp prm lo hi rep ftotal b left st = Some (l, st') \<and>
      indep_inv inp prm bucket lo hi st0 st'"
proof (induction d arbitrary: b st)
  case (Suc d)
  have m: "map_ok (i_map inp)" using ok(1) by (simp add: input_ok_def)
  have spans: "spans prm lo hi st" using inv_spans [OF Suc(5) s(1)] .
  obtain p st' where p: "indep_pass leaf inp prm lo hi rep ftotal b left st = Some (p, st')"
    "indep_inv inp prm bucket lo hi st0 st'"
    "case p of Inl c \<Rightarrow> st_out st' ! nat rep = CRUSH_ITEM_UNDEF \<and> (\<exists>i \<in> set (b_items b). bucket_at (i_map inp) i = Some c)
       | Inr _ \<Rightarrow> True"
    using indep_pass_ok [OF ok Suc(5) spans s(2,3) Suc(6,3,4)] by blast
  note step = indep_search.simps [of leaf inp prm lo hi rep ftotal b left st] p(1)
  show ?case
  proof (cases p)
    case (Inl c)
    then obtain i where i: "i \<in> set (b_items b)" "bucket_at (i_map inp) i = Some c"
      "st_out st' ! nat rep = CRUSH_ITEM_UNDEF" using p(3) by auto
    have "i < 0" using i(2) by (auto simp: bucket_at_Some)
    then have "depth_ok d (i_map inp) c" using depth_ok_child [OF Suc(2) i(1)] i(2) by auto
    then have "\<exists>l st''. indep_search leaf inp prm lo hi rep ftotal c left st' = Some (l, st'') \<and>
        indep_inv inp prm bucket lo hi st0 st''"
      using bucket_at_in_map(1) [OF m i(2)] Suc(4) contains.deeper [OF i(1,2)] p(2) i(3) by (intro Suc(1)) auto
    then show ?thesis using Inl by (simp add: step)
  next
    case (Inr l)
    then show ?thesis using p(2) by (simp add: step)
  qed
qed simp

lemma indep_rep_ok:
  assumes ok: "input_ok inp" "n_recurse_to_leaf prm \<longrightarrow> ileaf_ok inp leaf" "0 < n_numrep prm"
    and s: "spans prm lo hi st0" "rep \<in> {lo..hi - 1}" and b: "in_map (i_map inp) bucket"
    and inv: "indep_inv inp prm bucket lo hi st0 (snd ls)"
  shows "\<exists>ls'. indep_rep leaf inp prm bucket lo hi ftotal ls rep = Some ls' \<and>
    indep_inv inp prm bucket lo hi st0 (snd ls')"
proof -
  have m: "map_ok (i_map inp)" using ok(1) by (simp add: input_ok_def)
  have "arr_get (st_out (snd ls)) rep = Some (st_out (snd ls) ! nat rep)"
    using inv_spans [OF inv s(1)] s(2) by (simp add: arr_get_def spans_def)
  moreover have "\<exists>l st'. indep_search leaf inp prm lo hi rep ftotal bucket (fst ls) (snd ls) = Some (l, st') \<and>
      indep_inv inp prm bucket lo hi st0 st'" if "st_out (snd ls) ! nat rep = CRUSH_ITEM_UNDEF"
    using s(2) by (intro indep_search_ok [OF ok s(1) _ _ in_mapD(3) [OF m b] b _ inv that]) auto
  ultimately show ?thesis using inv by (cases ls) (auto simp: indep_rep_def)
qed

lemma indep_rounds_ok:
  assumes ok: "input_ok inp" "n_recurse_to_leaf prm \<longrightarrow> ileaf_ok inp leaf" "0 < n_numrep prm"
    and s: "spans prm lo hi st0" and b: "in_map (i_map inp) bucket"
  shows "indep_inv inp prm bucket lo hi st0 st \<Longrightarrow>
    \<exists>ft st'. indep_rounds leaf inp prm bucket lo hi ftotal left st = Some (ft, st') \<and>
      indep_inv inp prm bucket lo hi st0 st'"
proof (induction "unat (n_tries prm) - unat ftotal" arbitrary: ftotal left st rule: less_induct)
  case less
  show ?case
  proof (cases "left > 0 \<and> ftotal < n_tries prm")
    case True
    obtain left' st' where f: "fold_opt (indep_rep leaf inp prm bucket lo hi ftotal) (left, st) [lo..hi - 1] = Some (left', st')"
      "indep_inv inp prm bucket lo hi st0 st'"
      using fold_opt_total [of "\<lambda>ls. indep_inv inp prm bucket lo hi st0 (snd ls)" "(left, st)" "[lo..hi - 1]"
          "indep_rep leaf inp prm bucket lo hi ftotal"] indep_rep_ok [OF ok s _ b] less(2) by auto
    have "unat ftotal < unat (n_tries prm)" using True by (simp add: word_less_nat_alt)
    moreover from this have "unat (ftotal + 1) = unat ftotal + 1"
      using unsigned_less [of "n_tries prm", where ?'a = nat] by (intro unat_suc) simp
    ultimately have "unat (n_tries prm) - unat (ftotal + 1) < unat (n_tries prm) - unat ftotal" by simp
    from less(1) [OF this f(2), of left'] show ?thesis
      using True f(1) by (simp add: indep_rounds.simps [of leaf inp prm bucket lo hi ftotal left])
  next
    case False
    then show ?thesis using less(2) by (auto simp: indep_rounds.simps [of leaf inp prm bucket lo hi ftotal left])
  qed
qed

section \<open>Start and end\<close>

lemma touches_spans: "touches rep st st' \<Longrightarrow> spans prm lo hi st \<Longrightarrow> spans prm lo hi st'"
  unfolding touches_def spans_def by (cases "st_out2 st") (auto simp: outside_def)

text \<open>A loop over positions, each pass of which settles its own.\<close>

lemma settle_all:
  assumes "\<And>st rep. P st \<Longrightarrow> rep \<in> {lo..hi - 1} \<Longrightarrow> \<exists>st'. f st rep = Some st' \<and> P st' \<and> touches rep st st' \<and> Q (st_out st' ! nat rep) (leaf_at st' (nat rep))"
    and "0 \<le> lo"
  shows "P st \<Longrightarrow> set xs \<subseteq> {lo..hi - 1} \<Longrightarrow> \<exists>st'. fold_opt f st xs = Some st' \<and> P st' \<and>
    outside lo hi (st_out st) (st_out st') \<and> outside_opt lo hi (st_out2 st) (st_out2 st') \<and>
    (\<forall>x \<in> set xs. Q (st_out st' ! nat x) (leaf_at st' (nat x)))"
proof (induction xs rule: rev_induct)
  case (snoc x xs)
  then obtain st1 where 1: "fold_opt f st xs = Some st1" "P st1"
    "outside lo hi (st_out st) (st_out st1)" "outside_opt lo hi (st_out2 st) (st_out2 st1)"
    "\<forall>x \<in> set xs. Q (st_out st1 ! nat x) (leaf_at st1 (nat x))" by auto
  have x: "x \<in> {lo..hi - 1}" using snoc(3) by simp
  obtain st2 where 2: "f st1 x = Some st2" "P st2" "touches x st1 st2" "Q (st_out st2 ! nat x) (leaf_at st2 (nat x))"
    using assms(1) [OF 1(2) x] by blast
  have "Q (st_out st2 ! nat y) (leaf_at st2 (nat y))" if "y \<in> set (xs @ [x])" for y
    using that 1(5) 2(4) touches_same [OF 2(3), of "nat y"] x assms(2) by (cases "nat y = nat x") auto
  moreover have "outside lo hi (st_out st1) (st_out st2)" "outside_opt lo hi (st_out2 st1) (st_out2 st2)"
    using 2(3) x by (auto simp: touches_def intro: outside_mono outside_opt_mono)
  ultimately show ?case
    using 1 2 by (auto simp: fold_opt_append intro: outside_trans outside_opt_trans)
qed simp

lemma indep_clear_ok:
  assumes "spans prm lo hi st" "work_ok (i_map inp) (st_work st)"
  shows "\<exists>st'. fold_opt indep_clear st [lo..hi - 1] = Some st' \<and> indep_inv inp prm bucket lo hi st st'"
proof -
  have lo: "0 \<le> lo" using assms(1) by (simp add: spans_def)
  have "\<exists>st'. fold_opt indep_clear st [lo..hi - 1] = Some st' \<and>
      (spans prm lo hi st' \<and> work_ok (i_map inp) (st_work st')) \<and>
      outside lo hi (st_out st) (st_out st') \<and> outside_opt lo hi (st_out2 st) (st_out2 st') \<and>
      (\<forall>x \<in> set [lo..hi - 1]. st_out st' ! nat x = CRUSH_ITEM_UNDEF \<and> idle (leaf_at st' (nat x)))"
  proof (rule settle_all [where P = "\<lambda>st. spans prm lo hi st \<and> work_ok (i_map inp) (st_work st)", OF _ lo])
    fix st rep
    assume st: "spans prm lo hi st \<and> work_ok (i_map inp) (st_work st)" and rep: "rep \<in> {lo..hi - 1}"
    obtain st' where st': "set_both rep CRUSH_ITEM_UNDEF st = Some st'" "touches rep st st'" "st_work st' = st_work st"
      "st_out st' ! nat rep = CRUSH_ITEM_UNDEF" "st_out2 st \<noteq> None \<Longrightarrow> leaf_at st' (nat rep) = CRUSH_ITEM_UNDEF"
      "st_out2 st = None \<Longrightarrow> st_out2 st' = None"
      using set_both_ok [of prm lo hi st rep CRUSH_ITEM_UNDEF] st rep by auto
    have "idle (leaf_at st' (nat rep))" using st'(5,6) by (cases "st_out2 st") (auto simp: leaf_at_def)
    then show "\<exists>st'. indep_clear st rep = Some st' \<and> (spans prm lo hi st' \<and> work_ok (i_map inp) (st_work st')) \<and>
        touches rep st st' \<and> st_out st' ! nat rep = CRUSH_ITEM_UNDEF \<and> idle (leaf_at st' (nat rep))"
      using st st' touches_spans by (auto simp: indep_clear_def)
  qed (use assms in auto)
  then obtain st' where st': "fold_opt indep_clear st [lo..hi - 1] = Some st'" "work_ok (i_map inp) (st_work st')"
    "outside lo hi (st_out st) (st_out st')" "outside_opt lo hi (st_out2 st) (st_out2 st')"
    "\<forall>x \<in> {lo..hi - 1}. st_out st' ! nat x = CRUSH_ITEM_UNDEF \<and> idle (leaf_at st' (nat x))" by auto
  have "st_out st' ! i = CRUSH_ITEM_UNDEF \<and> idle (leaf_at st' i)" if "lo \<le> int i" "int i < hi" for i
    using bspec [OF st'(5), of "int i"] that by simp
  then show ?thesis using st' by (auto simp: indep_inv_def position_ok_def leaf_val_def)
qed

lemma indep_finish_step:
  assumes ok: "input_ok inp" and inv: "indep_inv inp prm bucket lo hi st0 st" and s: "spans prm lo hi st" "lo \<le> rep" "rep < hi"
  shows "\<exists>st'. indep_finish st rep = Some st' \<and> indep_inv inp prm bucket lo hi st0 st' \<and> touches rep st st' \<and>
    st_out st' ! nat rep \<noteq> CRUSH_ITEM_UNDEF \<and> leaf_at st' (nat rep) \<noteq> CRUSH_ITEM_UNDEF"
proof -
  let ?fix = "\<lambda>v. if v = CRUSH_ITEM_UNDEF then CRUSH_ITEM_NONE else v"
  let ?v = "st_out st ! nat rep" and ?d = "leaf_at st (nat rep)"
  define st' where "st' = st\<lparr>st_out := (st_out st)[nat rep := ?fix ?v],
    st_out2 := map_option (\<lambda>o2. o2[nat rep := ?fix (o2 ! nat rep)]) (st_out2 st)\<rparr>"
  have r: "0 \<le> rep" "nat rep < length (st_out st)" "\<And>o2. st_out2 st = Some o2 \<Longrightarrow> nat rep < length o2"
    using s by (auto simp: spans_def nat_less_iff)
  have f: "indep_finish st rep = Some st'"
    using r by (cases "st_out2 st") (auto simp: indep_finish_def set_out2_def arr_get_def arr_set_def st'_def nat_less_iff)
  have t: "touches rep st st'"
    using r(1) by (cases "st_out2 st") (auto simp: touches_def st'_def intro: outside_upd)
  have n: "CRUSH_ITEM_NONE \<noteq> CRUSH_ITEM_UNDEF" by (simp add: CRUSH_ITEM_NONE_def CRUSH_ITEM_UNDEF_def)
  have v: "st_out st' ! nat rep = ?fix ?v" "leaf_at st' (nat rep) = ?fix ?d"
    using r n by (cases "st_out2 st"; auto simp: st'_def leaf_at_def)+
  have p: "position_ok inp prm bucket st (nat rep)" using inv s(2,3) r(1) by (simp add: indep_inv_def)
  have live: "\<not> usable inp CRUSH_ITEM_UNDEF" using ok by (simp add: usable_def input_ok_def map_ok_def)
  have p': "position_ok inp prm bucket st' (nat rep)"
  proof (cases "idle ?v")
    case True
    then have "idle (?fix ?v)" by (auto simp: idle_def)
    moreover have "idle ?d \<Longrightarrow> idle (?fix ?d)" "leaf_val inp ?d \<Longrightarrow> leaf_val inp (?fix ?d)" by (auto simp: idle_def leaf_val_def)
    ultimately show ?thesis using p True unfolding position_ok_def v by auto
  next
    case False
    then have fv: "?fix ?v = ?v" by (auto simp: idle_def)
    have placed: "leaf_val inp ?d" "item_placed inp prm bucket ?v ?d" using p False by (auto simp: position_ok_def)
    then have "n_recurse_to_leaf prm \<longrightarrow> ?fix ?d = ?d"
      using live False by (auto simp: item_placed_def idle_def split: if_splits)
    then have "item_placed inp prm bucket ?v (?fix ?d)" using placed(2) by (auto simp: item_placed_def)
    then show ?thesis using False placed(1) unfolding position_ok_def v fv by (simp add: leaf_val_def)
  qed
  have "indep_inv inp prm bucket lo hi st0 st'"
  proof (rule inv_touches [OF inv t _ s(2,3) _ p'])
    show "idle (st_out st' ! nat rep) \<or>
      (\<forall>i. lo \<le> int i \<and> int i < hi \<and> i \<noteq> nat rep \<longrightarrow> st_out st ! i \<noteq> st_out st' ! nat rep)"
    proof (cases "idle ?v")
      case False
      moreover have "lo \<le> int (nat rep)" "int (nat rep) < hi" using s(2,3) r(1) by auto
      ultimately have "\<forall>i. lo \<le> int i \<and> int i < hi \<and> i \<noteq> nat rep \<longrightarrow> st_out st ! i \<noteq> ?v"
        using inv unfolding indep_inv_def by metis
      then show ?thesis using False unfolding v by (auto simp: idle_def)
    qed (auto simp: v idle_def)
  qed (use s(1) inv in \<open>auto simp: spans_def indep_inv_def st'_def\<close>)
  then show ?thesis using f t v n by auto
qed

text \<open>The whole function, with the search for devices as an argument.\<close>

definition settled :: "crush_input \<Rightarrow> indep_params \<Rightarrow> crush_bucket \<Rightarrow> int \<Rightarrow> int \<Rightarrow> choose_state \<Rightarrow> choose_state \<Rightarrow> bool" where
  "settled inp prm bucket lo hi st0 st \<longleftrightarrow> indep_inv inp prm bucket lo hi st0 st \<and>
     (\<forall>i. lo \<le> int i \<and> int i < hi \<longrightarrow> st_out st ! i \<noteq> CRUSH_ITEM_UNDEF \<and> leaf_at st i \<noteq> CRUSH_ITEM_UNDEF)"

lemma choose_indep_with_ok:
  assumes ok: "input_ok inp" "n_recurse_to_leaf prm \<longrightarrow> ileaf_ok inp leaf" "0 < n_numrep prm"
    and s: "spans prm lo (lo + left) st" "work_ok (i_map inp) (st_work st)" and b: "in_map (i_map inp) bucket"
  shows "\<exists>st'. choose_indep_with leaf inp prm bucket left lo st = Some st' \<and> settled inp prm bucket lo (lo + left) st st'"
proof -
  let ?hi = "lo + left"
  obtain st1 where 1: "fold_opt indep_clear st [lo..?hi - 1] = Some st1" "indep_inv inp prm bucket lo ?hi st st1"
    using indep_clear_ok [OF s] by blast
  obtain ft st2 where 2: "indep_rounds leaf inp prm bucket lo ?hi 0 left st1 = Some (ft, st2)"
    "indep_inv inp prm bucket lo ?hi st st2"
    using indep_rounds_ok [OF ok s(1) b 1(2)] by blast
  have lo: "0 \<le> lo" using s(1) by (simp add: spans_def)
  have "\<exists>st3. fold_opt indep_finish st2 [lo..?hi - 1] = Some st3 \<and> indep_inv inp prm bucket lo ?hi st st3 \<and>
      outside lo ?hi (st_out st2) (st_out st3) \<and> outside_opt lo ?hi (st_out2 st2) (st_out2 st3) \<and>
      (\<forall>x \<in> set [lo..?hi - 1]. st_out st3 ! nat x \<noteq> CRUSH_ITEM_UNDEF \<and> leaf_at st3 (nat x) \<noteq> CRUSH_ITEM_UNDEF)"
    using indep_finish_step [OF ok(1) _ inv_spans [OF _ s(1)]] 2(2)
    by (intro settle_all [where P = "indep_inv inp prm bucket lo ?hi st", OF _ lo]) auto
  then obtain st3 where 3: "fold_opt indep_finish st2 [lo..?hi - 1] = Some st3" "indep_inv inp prm bucket lo ?hi st st3"
    "\<forall>x \<in> {lo..?hi - 1}. st_out st3 ! nat x \<noteq> CRUSH_ITEM_UNDEF \<and> leaf_at st3 (nat x) \<noteq> CRUSH_ITEM_UNDEF" by auto
  obtain work where w: "count_tries (i_map inp) ft (st_work st3) = Some work" "work_ok (i_map inp) work"
    using count_tries_ok [of "i_map inp" "st_work st3" ft] 3(2) by (auto simp: indep_inv_def)
  have "st_out st3 ! i \<noteq> CRUSH_ITEM_UNDEF \<and> leaf_at st3 i \<noteq> CRUSH_ITEM_UNDEF" if "lo \<le> int i" "int i < ?hi" for i
    using bspec [OF 3(3), of "int i"] that by simp
  then have "settled inp prm bucket lo ?hi st (st3\<lparr>st_work := work\<rparr>)"
    using 3(2) w(2) by (auto simp: settled_def indep_inv_def position_ok_def leaf_at_def)
  then show ?thesis using 1(1) 2(1) 3(1) w(1) by (simp add: choose_indep_with_def Let_def)
qed

lemma indep_leaf_of_ok:
  assumes "input_ok inp" "0 < n_numrep prm"
  shows "ileaf_ok inp (indep_leaf_of inp prm)"
  unfolding ileaf_ok_def
proof (intro allI impI)
  fix b rep r work and out2 :: "int list"
  assume b: "in_map (i_map inp) b" and work: "work_ok (i_map inp) work" and rep: "0 \<le> rep" "rep < int (length out2)"
  let ?prm = "prm\<lparr>n_type := 0, n_tries := n_recurse_tries prm, n_recurse_tries := 0,
      n_recurse_to_leaf := False, n_parent_r := r\<rparr>"
  let ?st = "\<lparr>st_work = work, st_out = out2, st_out2 = None\<rparr>"
  obtain st' where st': "choose_indep_with (\<lambda>_ _ _ _ _. None) inp ?prm b 1 rep ?st = Some st'"
    "settled inp ?prm b rep (rep + 1) ?st st'"
    using choose_indep_with_ok [OF assms(1), of ?prm "\<lambda>_ _ _ _ _. None" rep 1 ?st b] assms(2) b work rep
    by (auto simp: spans_def)
  have "position_ok inp ?prm b st' (nat rep)" "st_out st' ! nat rep \<noteq> CRUSH_ITEM_UNDEF"
    using st'(2) rep by (auto simp: settled_def indep_inv_def)
  then have "st_out st' ! nat rep = CRUSH_ITEM_NONE \<or>
      usable inp (st_out st' ! nat rep) \<and> contains (i_map inp) b (st_out st' ! nat rep)"
    using item_type_zero [of inp] assms(1) by (auto simp: position_ok_def idle_def item_placed_def split: if_splits)
  then show "\<exists>work' out2'. indep_leaf_of inp prm b rep r work out2 = Some (work', out2') \<and>
      work_ok (i_map inp) work' \<and> outside rep (rep + 1) out2 out2' \<and>
      (out2' ! nat rep = CRUSH_ITEM_NONE \<or>
       usable inp (out2' ! nat rep) \<and> contains (i_map inp) b (out2' ! nat rep))"
    using st' by (simp add: indep_leaf_of_def settled_def indep_inv_def)
qed

lemma crush_choose_indep_ok:
  assumes "input_ok inp" "0 < n_numrep prm" "spans prm lo (lo + left) st" "work_ok (i_map inp) (st_work st)"
    "in_map (i_map inp) bucket"
  shows "\<exists>st'. crush_choose_indep inp prm bucket left lo st = Some st' \<and> settled inp prm bucket lo (lo + left) st st'"
  unfolding crush_choose_indep_def
  using choose_indep_with_ok [OF assms(1) _ assms(2-5)] indep_leaf_of_ok [OF assms(1,2)] by blast

end
