(* ===== verification/CrushPlace.thy ===== *)
theory CrushPlace
  imports CrushIndep
begin

text \<open>
  \<^verbatim>\<open>crush_do_rule\<close> on a well-formed map: every rule returns, with valid entries; a rule that
  places replicas below different buckets of a type does so; and what is wrong when devices are
  placed breadth first without a bucket type.
\<close>

section \<open>Tunables\<close>

text \<open>
  The counts that bound the retries are unsigned 32 bit numbers. They are far below that range in
  any map; a bound that keeps their sums in range is assumed.
\<close>

definition small :: "u32 \<Rightarrow> bool" where
  "small n \<longleftrightarrow> unat n < 2 ^ 28"

definition map_small :: "crush_map \<Rightarrow> bool" where
  "map_small m \<longleftrightarrow> small (choose_total_tries m + 1) \<and> small (choose_local_tries m) \<and>
     small (choose_local_fallback_tries m) \<and> chooseleaf_vary_r m \<le> 32 \<and>
     (\<forall>b \<in> set (m_buckets m). case b of None \<Rightarrow> True | Some b \<Rightarrow> small (b_size b))"

definition step_small :: "crush_rule_step \<Rightarrow> bool" where
  "step_small s =
     (case s_op s of
        CRUSH_RULE_SET_CHOOSE_TRIES \<Rightarrow> s_arg1 s < 2 ^ 28
      | CRUSH_RULE_SET_CHOOSELEAF_TRIES \<Rightarrow> s_arg1 s < 2 ^ 28
      | CRUSH_RULE_SET_CHOOSE_LOCAL_TRIES \<Rightarrow> s_arg1 s < 2 ^ 28
      | CRUSH_RULE_SET_CHOOSE_LOCAL_FALLBACK_TRIES \<Rightarrow> s_arg1 s < 2 ^ 28
      | CRUSH_RULE_SET_CHOOSELEAF_VARY_R \<Rightarrow> s_arg1 s \<le> 32
      | _ \<Rightarrow> True)"

definition tunables_ok :: "rule_state \<Rightarrow> bool" where
  "tunables_ok rs \<longleftrightarrow> small (rs_choose_tries rs) \<and> small (rs_choose_leaf_tries rs) \<and>
     small (rs_local_retries rs) \<and> small (rs_local_fallback_retries rs) \<and> rs_vary_r rs \<le> 32"

lemma small_of_int: "0 \<le> a \<Longrightarrow> a < 2 ^ 28 \<Longrightarrow> small (of_int a)"
  by (simp add: small_def unsigned_of_int take_bit_int_eq_self nat_less_iff)

lemma small_retry:
  assumes "map_small m" "tunables_ok rs" "f_tries prm = rs_choose_tries rs" "small (f_recurse_tries prm)"
    "f_local_retries prm = rs_local_retries rs" "f_local_fallback_retries prm = rs_local_fallback_retries rs"
    "f_vary_r prm = rs_vary_r rs"
  shows "retry_ok m prm"
  using assms unfolding retry_ok_def map_small_def tunables_ok_def small_def by (fastforce split: option.splits)

section \<open>Entries\<close>

text \<open>What the arrays of \<^verbatim>\<open>crush_do_rule\<close> hold: nothing, a device or a bucket of the map.\<close>

definition entry_ok :: "crush_map \<Rightarrow> int \<Rightarrow> bool" where
  "entry_ok m v \<longleftrightarrow> v = CRUSH_ITEM_NONE \<or> 0 \<le> v \<and> v < max_devices m \<or> bucket_at m v \<noteq> None"

lemma placed_entry:
  assumes "placed inp prm bucket out out2 i"
  shows "entry_ok (i_map inp) (out ! i)"
    "f_recurse_to_leaf prm \<Longrightarrow> out2 = Some o2 \<Longrightarrow> entry_ok (i_map inp) (o2 ! i)"
  using assms by (auto simp: placed_def entry_ok_def usable_def leaf_for_def item_type_def split: if_splits)

lemma settled_entry:
  assumes "settled inp prm bucket lo hi st0 st" "lo \<le> int i" "int i < hi"
  shows "entry_ok (i_map inp) (st_out st ! i)" "st_out2 st = Some o2 \<Longrightarrow> entry_ok (i_map inp) (o2 ! i)"
proof -
  have p: "position_ok inp prm bucket st i" "st_out st ! i \<noteq> CRUSH_ITEM_UNDEF" "leaf_at st i \<noteq> CRUSH_ITEM_UNDEF"
    using assms by (auto simp: settled_def indep_inv_def)
  show "entry_ok (i_map inp) (st_out st ! i)"
    using p(1,2) by (auto simp: position_ok_def item_placed_def idle_def entry_ok_def usable_def item_type_def split: if_splits)
  show "entry_ok (i_map inp) (o2 ! i)" if "st_out2 st = Some o2"
    using p(1,3) that by (auto simp: position_ok_def leaf_val_def leaf_at_def idle_def entry_ok_def)
qed

section \<open>Choose steps\<close>

fun acc_ok :: "crush_input \<Rightarrow> int \<Rightarrow> bool \<Rightarrow> choose_acc \<Rightarrow> bool" where
  "acc_ok inp rm to_leaf (osize, ov, cv, work) \<longleftrightarrow> 0 \<le> osize \<and> osize \<le> rm \<and>
     length ov = nat rm \<and> length cv = nat rm \<and> work_ok (i_map inp) work \<and>
     (\<forall>i < nat osize. entry_ok (i_map inp) (ov ! i) \<and> (to_leaf \<longrightarrow> entry_ok (i_map inp) (cv ! i)))"

lemma extend_entries:
  assumes "acc_ok inp rm to_leaf (osize, ov, cv, work)" "work_ok (i_map inp) work'"
    and l: "length ov' = length (drop (nat osize) ov)" "length cv' = length (drop (nat osize) cv)"
    and n: "0 \<le> n" "osize + n \<le> rm"
    and new: "\<forall>i < nat n. entry_ok (i_map inp) (ov' ! i) \<and> (to_leaf \<longrightarrow> entry_ok (i_map inp) (cv' ! i))"
  shows "acc_ok inp rm to_leaf (osize + n, take (nat osize) ov @ ov', take (nat osize) cv @ cv', work')"
proof -
  have len: "length (take (nat osize) ov) = nat osize" "length (take (nat osize) cv) = nat osize"
    using assms(1) by auto
  have "entry_ok (i_map inp) ((take (nat osize) ov @ ov') ! i) \<and>
      (to_leaf \<longrightarrow> entry_ok (i_map inp) ((take (nat osize) cv @ cv') ! i))" if "i < nat (osize + n)" for i
  proof (cases "i < nat osize")
    case True
    then show ?thesis using assms(1) len by (simp add: nth_append)
  next
    case False
    then have "i - nat osize < nat n" using that n(1) assms(1) by auto
    then show ?thesis using False new len by (simp add: nth_append)
  qed
  then show ?thesis using assms(1,2) l n by auto
qed

lemma firstn_one_filled:
  assumes ok: "input_ok inp" "map_small (i_map inp)" "tunables_ok rs" "in_map (i_map inp) b"
    and acc: "acc_ok inp rm to_leaf (osize, ov, cv, work)"
  shows "\<exists>n prm st c'. firstn_one inp rm to_leaf numrep type rs b (osize, ov, cv, work) =
      Some (osize + n, take (nat osize) ov @ st_out st, take (nat osize) cv @ c', st_work st) \<and>
    st_out2 st = Some c' \<and> 0 \<le> n \<and> n \<le> rm - osize \<and> n \<le> max 0 numrep \<and>
    f_type prm = type \<and> f_recurse_to_leaf prm = to_leaf \<and>
    filled inp prm b 0 n \<lparr>st_work = work, st_out = drop (nat osize) ov, st_out2 = Some (drop (nat osize) cv)\<rparr> st"
proof -
  let ?rt = "if rs_choose_leaf_tries rs \<noteq> 0 then rs_choose_leaf_tries rs
    else if chooseleaf_descend_once (i_map inp) \<noteq> 0 then 1 else rs_choose_tries rs"
  define prm where "prm = \<lparr>f_numrep = numrep, f_type = type, f_tries = rs_choose_tries rs, f_recurse_tries = ?rt,
        f_local_retries = rs_local_retries rs, f_local_fallback_retries = rs_local_fallback_retries rs,
        f_recurse_to_leaf = to_leaf, f_vary_r = rs_vary_r rs, f_stable = rs_stable rs, f_parent_r = 0\<rparr>"
  define st0 where "st0 = \<lparr>st_work = work, st_out = drop (nat osize) ov, st_out2 = Some (drop (nat osize) cv)\<rparr>"
  have "small ?rt" using ok(3) by (simp add: tunables_ok_def small_def)
  then have r: "retry_ok (i_map inp) prm"
    using small_retry [OF ok(2,3), of prm] by (simp add: prm_def)
  have f: "fits prm 0 (rm - osize) st0" "work_ok (i_map inp) (st_work st0)"
    using acc by (auto simp: fits_def prm_def st0_def)
  obtain n st where c: "crush_choose_firstn inp prm b 0 (rm - osize) st0 = Some (n, st)"
      "0 \<le> n" "n \<le> rm - osize" "n \<le> max 0 numrep" "filled inp prm b 0 n st0 st"
    using crush_choose_firstn_ok [OF ok(1) r ok(4) f] by (auto simp: prm_def)
  obtain c' where o2: "st_out2 st = Some c'" using c(5) by (auto simp: filled_def st0_def)
  show ?thesis
    using c o2 unfolding firstn_one_def
    by (intro exI [of _ n] exI [of _ prm] exI [of _ st] exI [of _ c'])
      (simp add: prm_def [symmetric] st0_def [symmetric] Let_def del: if_split, simp add: prm_def)
qed

lemma firstn_one_ok:
  assumes "input_ok inp" "map_small (i_map inp)" "tunables_ok rs" "in_map (i_map inp) b"
    and acc: "acc_ok inp rm to_leaf acc"
  shows "\<exists>acc'. firstn_one inp rm to_leaf numrep type rs b acc = Some acc' \<and> acc_ok inp rm to_leaf acc'"
proof -
  obtain osize ov cv work where a: "acc = (osize, ov, cv, work)" by (cases acc)
  obtain n prm st c' where f: "firstn_one inp rm to_leaf numrep type rs b acc =
      Some (osize + n, take (nat osize) ov @ st_out st, take (nat osize) cv @ c', st_work st)"
    "st_out2 st = Some c'" "0 \<le> n" "n \<le> rm - osize" "f_recurse_to_leaf prm = to_leaf"
    "filled inp prm b 0 n \<lparr>st_work = work, st_out = drop (nat osize) ov, st_out2 = Some (drop (nat osize) cv)\<rparr> st"
    using firstn_one_filled [OF assms(1-4) acc [unfolded a], of numrep type] unfolding a by blast
  have p: "placed inp prm b (st_out st) (st_out2 st) i" if "i < nat n" for i
    using f(6) that by (simp add: filled_def)
  have "acc_ok inp rm to_leaf (osize + n, take (nat osize) ov @ st_out st, take (nat osize) cv @ c', st_work st)"
    using extend_entries [OF acc [unfolded a], of "st_work st" "st_out st" c' n] f(2-6)
      placed_entry [OF p] by (auto simp: filled_def agree_def)
  then show ?thesis using f(1) by blast
qed

lemma indep_one_settled:
  assumes ok: "input_ok inp" "in_map (i_map inp) b" "0 < numrep"
    and acc: "acc_ok inp rm to_leaf (osize, ov, cv, work)"
  shows "\<exists>prm st c'. indep_one inp rm to_leaf numrep type rs b (osize, ov, cv, work) =
      Some (osize + min numrep (rm - osize), take (nat osize) ov @ st_out st, take (nat osize) cv @ c', st_work st) \<and>
    st_out2 st = Some c' \<and> n_type prm = type \<and> n_recurse_to_leaf prm = to_leaf \<and>
    settled inp prm b 0 (min numrep (rm - osize))
      \<lparr>st_work = work, st_out = drop (nat osize) ov, st_out2 = Some (drop (nat osize) cv)\<rparr> st"
proof -
  define prm where "prm = \<lparr>n_numrep = numrep, n_type = type, n_tries = rs_choose_tries rs,
        n_recurse_tries = (if rs_choose_leaf_tries rs \<noteq> 0 then rs_choose_leaf_tries rs else 1),
        n_recurse_to_leaf = to_leaf, n_parent_r = 0\<rparr>"
  define st0 where "st0 = \<lparr>st_work = work, st_out = drop (nat osize) ov, st_out2 = Some (drop (nat osize) cv)\<rparr>"
  have s: "spans prm 0 (0 + min numrep (rm - osize)) st0" "work_ok (i_map inp) (st_work st0)" "0 < n_numrep prm"
    using acc ok(3) by (auto simp: spans_def prm_def st0_def)
  obtain st where c: "crush_choose_indep inp prm b (min numrep (rm - osize)) 0 st0 = Some st"
      "settled inp prm b 0 (min numrep (rm - osize)) st0 st"
    using crush_choose_indep_ok [OF ok(1) s(3,1,2) ok(2)] by auto
  obtain c' where o2: "st_out2 st = Some c'"
    using c(2) by (auto simp: settled_def indep_inv_def st0_def)
  have m: "(if numrep < rm - osize then numrep else rm - osize) = min numrep (rm - osize)" by simp
  show ?thesis
    using c o2 unfolding indep_one_def
    by (intro exI [of _ prm] exI [of _ st] exI [of _ c'])
      (simp only: prod.case Let_def m prm_def [symmetric] st0_def [symmetric], simp add: prm_def)
qed

lemma indep_one_ok:
  assumes "input_ok inp" "in_map (i_map inp) b" "0 < numrep"
    and acc: "acc_ok inp rm to_leaf acc"
  shows "\<exists>acc'. indep_one inp rm to_leaf numrep type rs b acc = Some acc' \<and> acc_ok inp rm to_leaf acc'"
proof -
  obtain osize ov cv work where a: "acc = (osize, ov, cv, work)" by (cases acc)
  let ?n = "min numrep (rm - osize)"
  obtain prm st c' where f: "indep_one inp rm to_leaf numrep type rs b acc =
      Some (osize + ?n, take (nat osize) ov @ st_out st, take (nat osize) cv @ c', st_work st)"
    "st_out2 st = Some c'"
    "settled inp prm b 0 ?n \<lparr>st_work = work, st_out = drop (nat osize) ov, st_out2 = Some (drop (nat osize) cv)\<rparr> st"
    using indep_one_settled [OF assms(1-3) acc [unfolded a], of type rs] unfolding a by blast
  have w: "work_ok (i_map inp) (st_work st)" "length (st_out st) = length (drop (nat osize) ov)"
      "length c' = length (drop (nat osize) cv)"
    using f(2,3) by (auto simp: settled_def indep_inv_def outside_def)
  have n: "0 \<le> ?n" "osize + ?n \<le> rm" using assms(3) acc [unfolded a] by auto
  have e: "entry_ok (i_map inp) (st_out st ! i) \<and> entry_ok (i_map inp) (c' ! i)" if "i < nat ?n" for i
    using settled_entry(1) [OF f(3), of i] settled_entry(2) [OF f(3), of i c'] f(2) that by (simp add: zless_nat_eq_int_zless)
  have "acc_ok inp rm to_leaf (osize + ?n, take (nat osize) ov @ st_out st, take (nat osize) cv @ c', st_work st)"
    by (rule extend_entries [OF acc [unfolded a] w n]) (use e in blast)
  then show ?thesis using f(1) by blast
qed

lemma choose_one_ok:
  assumes ok: "input_ok inp" "map_small (i_map inp)" "tunables_ok rs"
    and w: "i < length (rs_w rs)" "entry_ok (i_map inp) (rs_w rs ! i)"
    and acc: "acc_ok inp rm to_leaf acc"
  shows "\<exists>acc'. choose_one inp rm firstn to_leaf stp rs acc i = Some acc' \<and> acc_ok inp rm to_leaf acc'"
proof (cases "0 \<le> rs_w rs ! i \<or> max_buckets (i_map inp) \<le> -1 - rs_w rs ! i")
  case True
  then show ?thesis using w(1) acc by (auto simp: choose_one_def arr_get_def Let_def simp del: split_paired_Ex)
next
  case False
  then obtain b where b: "bucket_at (i_map inp) (rs_w rs ! i) = Some b"
    using w(2) by (auto simp: entry_ok_def CRUSH_ITEM_NONE_def)
  then have "in_map (i_map inp) b"
    using ok(1) bucket_at_in_map by (simp add: input_ok_def)
  then show ?thesis
    using False b w(1) acc firstn_one_ok [OF ok _ acc] indep_one_ok [OF ok(1) _ _ acc]
    by (auto simp: choose_one_def arr_get_def Let_def simp del: split_paired_Ex)
qed

section \<open>Rules\<close>

definition rule_inv :: "crush_input \<Rightarrow> int \<Rightarrow> rule_state \<Rightarrow> bool" where
  "rule_inv inp rm rs \<longleftrightarrow> work_ok (i_map inp) (rs_work rs) \<and> tunables_ok rs \<and>
     length (rs_w rs) = nat rm \<and> length (rs_o rs) = nat rm \<and> length (rs_c rs) = nat rm \<and>
     0 \<le> rs_wsize rs \<and> rs_wsize rs \<le> rm \<and> (\<forall>i < nat (rs_wsize rs). entry_ok (i_map inp) (rs_w rs ! i)) \<and>
     int (length (rs_result rs)) \<le> rm \<and> (\<forall>v \<in> set (rs_result rs). entry_ok (i_map inp) v)"

lemma step_choose_ok:
  assumes ok: "input_ok inp" "map_small (i_map inp)" "rule_inv inp rm rs"
  shows "\<exists>rs'. step_choose inp rm firstn to_leaf stp rs = Some rs' \<and> rule_inv inp rm rs'"
proof (cases "rs_wsize rs = 0")
  case True
  then show ?thesis using ok(3) by (simp add: step_choose_def)
next
  case False
  have inv: "acc_ok inp rm to_leaf (0, rs_o rs, rs_c rs, rs_work rs)" "tunables_ok rs"
    using ok(3) by (auto simp: rule_inv_def)
  have w: "i < length (rs_w rs)" "entry_ok (i_map inp) (rs_w rs ! i)" if "i \<in> set [0..<nat (rs_wsize rs)]" for i
    using ok(3) that by (auto simp: rule_inv_def)
  obtain acc where f: "fold_opt (choose_one inp rm firstn to_leaf stp rs)
      (0, rs_o rs, rs_c rs, rs_work rs) [0..<nat (rs_wsize rs)] = Some acc"
    and a: "acc_ok inp rm to_leaf acc"
    using fold_opt_total [where P = "acc_ok inp rm to_leaf" and f = "choose_one inp rm firstn to_leaf stp rs"
        and xs = "[0..<nat (rs_wsize rs)]", OF inv(1)] choose_one_ok [OF ok(1,2) inv(2) w] by blast
  obtain osize ov cv work where acc: "acc = (osize, ov, cv, work)" by (cases acc)
  show ?thesis
    using False f a ok(3) unfolding acc by (auto simp: step_choose_def rule_inv_def tunables_ok_def check_def nth_append)
qed

lemma step_emit_ok:
  assumes "rule_inv inp rm rs"
  shows "\<exists>rs'. step_emit rm rs = Some rs' \<and> rule_inv inp rm rs'"
proof -
  let ?n = "nat (min (rs_wsize rs) (rm - int (length (rs_result rs))))"
  have n: "?n \<le> length (rs_w rs)" "?n \<le> nat (rs_wsize rs)" "int (length (rs_result rs)) + int ?n \<le> rm"
    using assms by (auto simp: rule_inv_def)
  have "entry_ok (i_map inp) v" if "v \<in> set (take ?n (rs_w rs))" for v
    using that n(1,2) assms by (auto simp: rule_inv_def in_set_conv_nth)
  then show ?thesis
    using n assms unfolding step_emit_def Let_def
    by (auto simp: check_def rule_inv_def tunables_ok_def)
qed

lemma step_take_ok:
  assumes "rule_inv inp rm rs" "0 < rm"
  shows "\<exists>rs'. step_take (i_map inp) a rs = Some rs' \<and> rule_inv inp rm rs'"
  using assms by (auto simp: step_take_def valid_take_def arr_set_def rule_inv_def tunables_ok_def entry_ok_def)

lemma rule_step_ok:
  assumes ok: "input_ok inp" "map_small (i_map inp)" "0 < rm" "step_small stp" "rule_inv inp rm rs"
  shows "\<exists>rs'. rule_step inp rm rs stp = Some rs' \<and> rule_inv inp rm rs'"
proof -
  have vary: "of_int a \<le> (32 :: u32)" if "0 \<le> a" "a \<le> 32" for a
    using that by (simp add: word_le_nat_alt unsigned_of_int take_bit_int_eq_self)
  show ?thesis
    using ok step_choose_ok [OF ok(1,2,5)] step_emit_ok [OF ok(5)] step_take_ok [OF ok(5,3)]
    by (cases "s_op stp")
      (auto simp: rule_step_def step_small_def rule_inv_def tunables_ok_def Let_def intro: small_of_int vary)
qed

lemma rule_start_ok:
  assumes "map_small (i_map inp)" "work_ok (i_map inp) work" "0 < rm"
    "length a = nat rm" "length b = nat rm" "length c = nat rm"
  shows "rule_inv inp rm (rule_start (i_map inp) work (a, b, c))"
proof -
  have "ucast v \<le> (32 :: u32)" if "v \<le> 32" for v :: "8 word"
    using that by (simp add: word_le_nat_alt unsigned_ucast_eq take_bit_nat_eq_self)
  then show ?thesis
    using assms by (simp add: rule_inv_def rule_start_def tunables_ok_def map_small_def small_def)
qed

text \<open>A rule as it is usually written: tunables, then one bucket, one choose step and its result.\<close>

definition is_set :: "crush_rule_step \<Rightarrow> bool" where
  "is_set s \<longleftrightarrow> s_op s \<in> {CRUSH_RULE_SET_CHOOSE_TRIES, CRUSH_RULE_SET_CHOOSELEAF_TRIES,
     CRUSH_RULE_SET_CHOOSE_LOCAL_TRIES, CRUSH_RULE_SET_CHOOSE_LOCAL_FALLBACK_TRIES,
     CRUSH_RULE_SET_CHOOSELEAF_VARY_R, CRUSH_RULE_SET_CHOOSELEAF_STABLE}"

definition place_rule :: "crush_rule_step list \<Rightarrow> int \<Rightarrow> crush_opcodes \<Rightarrow> int \<Rightarrow> int \<Rightarrow> crush_rule_step list" where
  "place_rule sets root opc n t = sets @
     [\<lparr>s_op = CRUSH_RULE_TAKE, s_arg1 = root, s_arg2 = 0\<rparr>, \<lparr>s_op = opc, s_arg1 = n, s_arg2 = t\<rparr>,
      \<lparr>s_op = CRUSH_RULE_EMIT, s_arg1 = 0, s_arg2 = 0\<rparr>]"

lemma set_steps_ok:
  assumes "input_ok inp" "map_small (i_map inp)" "0 < rm" "list_all step_small sets" "list_all is_set sets"
    and "rule_inv inp rm rs" "rs_result rs = []"
  shows "\<exists>rs'. fold_opt (rule_step inp rm) rs sets = Some rs' \<and> rule_inv inp rm rs' \<and> rs_result rs' = []"
proof (rule fold_opt_total)
  fix s x assume x: "x \<in> set sets" and s: "rule_inv inp rm s \<and> rs_result s = []"
  have x': "step_small x" "is_set x" using assms(4,5) x by (auto simp: list_all_iff)
  obtain s' where s': "rule_step inp rm s x = Some s'" "rule_inv inp rm s'"
    using rule_step_ok [OF assms(1-3) x'(1)] s by blast
  then have "rs_result s' = []"
    using s x'(2) by (auto simp: is_set_def rule_step_def Let_def split: if_splits)
  then show "\<exists>s'. rule_step inp rm s x = Some s' \<and> rule_inv inp rm s' \<and> rs_result s' = []"
    using s' by blast
qed (use assms in simp)

lemma take_step_ok:
  assumes "rule_inv inp rm rs" "0 < rm" "bucket_at (i_map inp) root = Some b"
  shows "\<exists>rs'. rule_step inp rm rs \<lparr>s_op = CRUSH_RULE_TAKE, s_arg1 = root, s_arg2 = 0\<rparr> = Some rs' \<and>
    rule_inv inp rm rs' \<and> rs_wsize rs' = 1 \<and> rs_w rs' ! 0 = root \<and> rs_result rs' = rs_result rs"
proof -
  obtain rs' where rs': "step_take (i_map inp) root rs = Some rs'" "rule_inv inp rm rs'"
    using step_take_ok [OF assms(1,2)] by blast
  have "valid_take (i_map inp) root" using assms(3) by (auto simp: valid_take_def bucket_at_Some)
  then have "rs_wsize rs' = 1 \<and> rs_w rs' ! 0 = root \<and> rs_result rs' = rs_result rs"
    using rs' by (auto simp: step_take_def arr_set_def split: if_splits)
  then show ?thesis using rs' by (simp add: rule_step_def)
qed

lemma choose_emit:
  assumes inv: "rule_inv inp rm rs" "rs_wsize rs = 1" "rs_result rs = []" "bucket_at (i_map inp) (rs_w rs ! 0) = Some b"
    and n: "numrep = (if a \<le> 0 then a + rm else a)" "0 < numrep"
    and one: "(if firstn then firstn_one else indep_one) inp rm True numrep t rs b
      (0, rs_o rs, rs_c rs, rs_work rs) = Some (k, ov, cv, work')"
    and k: "0 \<le> k" "k \<le> rm" "length ov = nat rm" "length cv = nat rm"
  shows "Option.bind (fold_opt (rule_step inp rm) rs
      [\<lparr>s_op = if firstn then CRUSH_RULE_CHOOSELEAF_FIRSTN else CRUSH_RULE_CHOOSELEAF_INDEP, s_arg1 = a, s_arg2 = t\<rparr>,
       \<lparr>s_op = CRUSH_RULE_EMIT, s_arg1 = 0, s_arg2 = 0\<rparr>])
    (\<lambda>rs. Some (rs_result rs, rs_work rs)) = Some (take (nat k) cv, work')"
proof -
  let ?stp = "\<lparr>s_op = if firstn then CRUSH_RULE_CHOOSELEAF_FIRSTN else CRUSH_RULE_CHOOSELEAF_INDEP, s_arg1 = a, s_arg2 = t\<rparr>"
  have r: "arr_get (rs_w rs) 0 = Some (rs_w rs ! 0)" "0 \<le> -1 - rs_w rs ! 0" "-1 - rs_w rs ! 0 < max_buckets (i_map inp)"
    using inv(1,2,4) by (auto simp: rule_inv_def arr_get_def bucket_at_Some)
  have c: "choose_one inp rm firstn True ?stp rs (0, rs_o rs, rs_c rs, rs_work rs) 0 = Some (k, ov, cv, work')"
    using r inv(4) n one by (auto simp: choose_one_def Let_def split: if_splits)
  define w' where "w' = take (nat k) cv @ drop (nat k) ov"
  have w': "nat k \<le> length w'" "take (nat k) w' = take (nat k) cv" using k by (auto simp: w'_def)
  have "step_choose inp rm firstn True ?stp rs =
      Some (rs\<lparr>rs_work := work', rs_w := w', rs_o := rs_w rs, rs_c := cv, rs_wsize := k\<rparr>)"
    using c inv(2) k by (simp add: step_choose_def check_def w'_def)
  moreover have "rule_step inp rm rs ?stp = step_choose inp rm firstn True ?stp rs"
    by (simp add: rule_step_def)
  moreover have "min k rm = k" using k(2) by simp
  ultimately show ?thesis
    using w' inv(3) by (simp add: rule_step_def [of _ _ _ "\<lparr>s_op = CRUSH_RULE_EMIT, s_arg1 = 0, s_arg2 = 0\<rparr>"] step_emit_def check_def Let_def)
qed

lemma place_rule_start:
  assumes "input_ok inp" "map_small (i_map inp)" "work_ok (i_map inp) work" "0 < rm"
    "length a = nat rm" "length b = nat rm" "length c = nat rm"
    and r: "ruleno < length (m_rules (i_map inp))"
      "m_rules (i_map inp) ! ruleno = Some rule" "r_steps rule = place_rule sets root opc n t"
    and "list_all step_small sets" "list_all is_set sets" "bucket_at (i_map inp) root = Some rb"
  shows "\<exists>rs. crush_do_rule inp (int ruleno) rm work (a, b, c) =
      Option.bind (fold_opt (rule_step inp rm) rs
        [\<lparr>s_op = opc, s_arg1 = n, s_arg2 = t\<rparr>, \<lparr>s_op = CRUSH_RULE_EMIT, s_arg1 = 0, s_arg2 = 0\<rparr>])
        (\<lambda>rs. Some (rs_result rs, rs_work rs)) \<and>
    rule_inv inp rm rs \<and> rs_wsize rs = 1 \<and> rs_w rs ! 0 = root \<and> rs_result rs = []"
proof -
  have s: "rs_result (rule_start (i_map inp) work (a, b, c)) = []" by (simp add: rule_start_def)
  obtain rs0 where 0: "fold_opt (rule_step inp rm) (rule_start (i_map inp) work (a, b, c)) sets = Some rs0"
      "rule_inv inp rm rs0" "rs_result rs0 = []"
    using set_steps_ok [OF assms(1,2,4,11,12) rule_start_ok [OF assms(2-7)] s] by blast
  obtain rs where 1: "rule_step inp rm rs0 \<lparr>s_op = CRUSH_RULE_TAKE, s_arg1 = root, s_arg2 = 0\<rparr> = Some rs"
      "rule_inv inp rm rs" "rs_wsize rs = 1" "rs_w rs ! 0 = root" "rs_result rs = []"
    using take_step_ok [OF 0(2) assms(4,13)] 0(3) by auto
  then show ?thesis
    using 0(1) r by (intro exI [of _ rs]) (simp add: crush_do_rule_def place_rule_def fold_opt_append)
qed

text \<open>
  Every device of \<open>res\<close> lies below a bucket of type \<open>t\<close> of its own, in the tree of \<open>rb\<close>.
\<close>

definition in_domain :: "crush_input \<Rightarrow> crush_bucket \<Rightarrow> int \<Rightarrow> int \<Rightarrow> int \<Rightarrow> bool" where
  "in_domain inp rb t d0 d \<longleftrightarrow>
     item_type (i_map inp) d0 = Some t \<and> contains (i_map inp) rb d0 \<and> usable inp d \<and>
     (\<exists>c. bucket_at (i_map inp) d0 = Some c \<and> contains (i_map inp) c d)"

lemma distinct_by_prefix:
  assumes "\<And>i. i < k \<Longrightarrow> xs ! i \<notin> set (take i xs)" "k \<le> length xs"
  shows "distinct (take k xs)"
  using assms by (induction k) (auto simp: take_Suc_conv_app_nth)

lemma placed_domain:
  assumes "placed inp prm rb out (Some o2) i" "f_recurse_to_leaf prm" "f_type prm \<noteq> 0"
  shows "in_domain inp rb (f_type prm) (out ! i) (o2 ! i)" "out ! i \<notin> set (take i out)" "o2 ! i \<notin> set (take i o2)"
proof -
  have "out ! i < 0" using assms(1,3) by (auto simp: placed_def item_type_def split: if_splits)
  then show "in_domain inp rb (f_type prm) (out ! i) (o2 ! i)" "out ! i \<notin> set (take i out)" "o2 ! i \<notin> set (take i o2)"
    using assms(1,2) by (auto simp: placed_def leaf_for_def in_domain_def)
qed

lemma filled_domains:
  assumes "filled inp prm rb 0 k st0 st" "st_out2 st = Some c'" "f_recurse_to_leaf prm" "f_type prm \<noteq> 0"
    "nat k \<le> length (st_out st)" "nat k \<le> length c'"
  shows "distinct (take (nat k) (st_out st))" "distinct (take (nat k) c')"
    "list_all2 (in_domain inp rb (f_type prm)) (take (nat k) (st_out st)) (take (nat k) c')"
proof -
  have p: "placed inp prm rb (st_out st) (Some c') i" if "i < nat k" for i
    using assms(1,2) that by (simp add: filled_def)
  note d = placed_domain [OF p assms(3,4)]
  show "distinct (take (nat k) (st_out st))" using distinct_by_prefix [OF _ assms(5)] d(2) by blast
  show "distinct (take (nat k) c')" using distinct_by_prefix [OF _ assms(6)] d(3) by blast
  show "list_all2 (in_domain inp rb (f_type prm)) (take (nat k) (st_out st)) (take (nat k) c')"
    using d(1) assms(5,6) by (simp add: list_all2_conv_all_nth)
qed

lemma distinct_removeAll:
  assumes "\<And>i j. i < j \<Longrightarrow> j < length xs \<Longrightarrow> xs ! i = xs ! j \<Longrightarrow> xs ! i = v"
  shows "distinct (removeAll v xs)"
  using assms
proof (induction xs)
  case (Cons x xs)
  have "distinct (removeAll v xs)"
    using Cons.IH Cons.prems [of "Suc _" "Suc _"] by simp
  moreover have "x \<notin> set xs" if "x \<noteq> v"
    using Cons.prems [of 0 "Suc _"] that by (auto simp: in_set_conv_nth)
  ultimately show ?case by auto
qed simp

lemma settled_domain:
  assumes "input_ok inp" "settled inp prm rb lo hi st0 st" "n_recurse_to_leaf prm" "n_type prm \<noteq> 0"
    "lo \<le> int i" "int i < hi"
  shows "st_out st ! i = CRUSH_ITEM_NONE \<and> leaf_at st i = CRUSH_ITEM_NONE \<or>
    in_domain inp rb (n_type prm) (st_out st ! i) (leaf_at st i)"
proof -
  have p: "position_ok inp prm rb st i" "st_out st ! i \<noteq> CRUSH_ITEM_UNDEF" "leaf_at st i \<noteq> CRUSH_ITEM_UNDEF"
    using assms(2,5,6) by (auto simp: settled_def indep_inv_def)
  then show ?thesis
    using assms(3,4) by (auto simp: position_ok_def item_placed_def idle_def in_domain_def item_type_def split: if_splits)
qed

lemma settled_domains:
  assumes "input_ok inp" "settled inp prm rb 0 k st0 st" "st_out2 st = Some c'"
    "n_recurse_to_leaf prm" "n_type prm \<noteq> 0" "nat k \<le> length (st_out st)" "nat k \<le> length c'"
  shows "distinct (removeAll CRUSH_ITEM_NONE (take (nat k) (st_out st)))"
    "list_all2 (\<lambda>d0 d. d0 = CRUSH_ITEM_NONE \<and> d = CRUSH_ITEM_NONE \<or> in_domain inp rb (n_type prm) d0 d)
       (take (nat k) (st_out st)) (take (nat k) c')"
proof -
  have d: "st_out st ! i = CRUSH_ITEM_NONE" if "i < j" "j < nat k" "st_out st ! i = st_out st ! j" for i j
  proof -
    have "int i < k" "int j < k" "i \<noteq> j" using that by auto
    then have "idle (st_out st ! i)" "st_out st ! i \<noteq> CRUSH_ITEM_UNDEF"
      using assms(2) that(3) by (auto simp: settled_def indep_inv_def)
    then show ?thesis by (simp add: idle_def)
  qed
  show "distinct (removeAll CRUSH_ITEM_NONE (take (nat k) (st_out st)))"
    by (rule distinct_removeAll) (use d in auto)
  show "list_all2 (\<lambda>d0 d. d0 = CRUSH_ITEM_NONE \<and> d = CRUSH_ITEM_NONE \<or> in_domain inp rb (n_type prm) d0 d)
       (take (nat k) (st_out st)) (take (nat k) c')"
    using settled_domain [OF assms(1,2,4,5)] assms(3,6,7)
    by (auto simp: list_all2_conv_all_nth leaf_at_def)
qed

text \<open>The working area as \<^verbatim>\<open>crush_init_workspace\<close> leaves it, whatever the memory held before.\<close>

lemma init_workspace_ok: "work_ok m \<lparr>w_work = crush_init_workspace m mem, w_choose_tries = None\<rparr>"
  by (auto simp: work_ok_def crush_init_workspace_def list_all2_conv_all_nth slot_ok_def wb_ok_def
      nth_enumerate_eq split: option.splits)

section \<open>Claims\<close>

text \<open>
  C3: \<^verbatim>\<open>crush_do_rule\<close> returns on every rule of a well-formed map: no array is read or written out of
  range, no search goes on for ever. It stores at most \<^verbatim>\<open>result_max\<close> entries, each of them
  \<^verbatim>\<open>CRUSH_ITEM_NONE\<close>, a device of the map or a bucket of the map, and leaves a working area that
  the next call can use.
\<close>

theorem crush_do_rule_returns:
  assumes "input_ok inp" "map_small (i_map inp)" "work_ok (i_map inp) work" "0 < result_max"
    and "length a = nat result_max" "length b = nat result_max" "length c = nat result_max"
    and rule: "0 \<le> ruleno \<and> ruleno < int (length (m_rules (i_map inp))) \<Longrightarrow>
      \<exists>rule. m_rules (i_map inp) ! nat ruleno = Some rule \<and> list_all step_small (r_steps rule)"
  shows "\<exists>result work'. crush_do_rule inp ruleno result_max work (a, b, c) = Some (result, work') \<and>
    int (length result) \<le> result_max \<and> (\<forall>v \<in> set result. entry_ok (i_map inp) v) \<and> work_ok (i_map inp) work'"
proof (cases "0 \<le> ruleno \<and> ruleno < int (length (m_rules (i_map inp)))")
  case True
  then obtain rule where r: "m_rules (i_map inp) ! nat ruleno = Some rule" "list_all step_small (r_steps rule)"
    using rule by blast
  obtain rs where "fold_opt (rule_step inp result_max) (rule_start (i_map inp) work (a, b, c)) (r_steps rule) = Some rs"
      "rule_inv inp result_max rs"
    using fold_opt_total [where P = "rule_inv inp result_max" and f = "rule_step inp result_max"
        and xs = "r_steps rule", OF rule_start_ok [OF assms(2-7)]]
      rule_step_ok [OF assms(1,2,4)] r(2) by (auto simp: list_all_iff)
  then show ?thesis using True r(1) by (auto simp: crush_do_rule_def rule_inv_def)
qed (use assms in \<open>auto simp: crush_do_rule_def\<close>)

text \<open>
  C1: a rule that takes \<^verbatim>\<open>root\<close> and chooses leaves below buckets of type \<open>t\<close> depth first
  (\<^verbatim>\<open>CRUSH_RULE_CHOOSELEAF_FIRSTN\<close>) separates the replicas: the result is a list of different devices
  that are in, each below a bucket of that type in the tree of \<^verbatim>\<open>root\<close>, no two of them below the
  same one; there are no more of them than were asked for.
\<close>

theorem firstn_separates:
  assumes "input_ok inp" "map_small (i_map inp)" "work_ok (i_map inp) work" "0 < result_max"
    and "length a = nat result_max" "length b = nat result_max" "length c = nat result_max"
    and "ruleno < length (m_rules (i_map inp))" "m_rules (i_map inp) ! ruleno = Some rule"
    and "r_steps rule = place_rule sets root CRUSH_RULE_CHOOSELEAF_FIRSTN n t"
    and "list_all step_small sets" "list_all is_set sets" "bucket_at (i_map inp) root = Some rb"
    and t: "t \<noteq> 0" and n: "numrep = (if n \<le> 0 then n + result_max else n)" "0 < numrep"
  shows "\<exists>result work' doms. crush_do_rule inp (int ruleno) result_max work (a, b, c) = Some (result, work') \<and>
    distinct result \<and> distinct doms \<and> list_all2 (in_domain inp rb t) doms result \<and>
    int (length result) \<le> min numrep result_max"
proof -
  obtain rs where rs: "crush_do_rule inp (int ruleno) result_max work (a, b, c) =
      Option.bind (fold_opt (rule_step inp result_max) rs
        [\<lparr>s_op = CRUSH_RULE_CHOOSELEAF_FIRSTN, s_arg1 = n, s_arg2 = t\<rparr>, \<lparr>s_op = CRUSH_RULE_EMIT, s_arg1 = 0, s_arg2 = 0\<rparr>])
        (\<lambda>rs. Some (rs_result rs, rs_work rs))"
    and inv: "rule_inv inp result_max rs" "rs_wsize rs = 1" "rs_w rs ! 0 = root" "rs_result rs = []"
    using place_rule_start [OF assms(1-13)] by blast
  have acc: "acc_ok inp result_max True (0, rs_o rs, rs_c rs, rs_work rs)" "tunables_ok rs" "in_map (i_map inp) rb"
    using inv(1) assms(1,4,13) bucket_at_in_map by (auto simp: rule_inv_def input_ok_def)
  obtain k prm st c' where k: "firstn_one inp result_max True numrep t rs rb (0, rs_o rs, rs_c rs, rs_work rs) =
        Some (k, st_out st, c', st_work st)" "st_out2 st = Some c'" "0 \<le> k" "k \<le> result_max" "k \<le> numrep"
      "f_type prm = t" "f_recurse_to_leaf prm"
      "filled inp prm rb 0 k \<lparr>st_work = rs_work rs, st_out = rs_o rs, st_out2 = Some (rs_c rs)\<rparr> st"
    using firstn_one_filled [OF assms(1,2) acc(2,3,1), of numrep t] n(2) by auto
  have len: "length (st_out st) = nat result_max" "length c' = nat result_max"
    using k(2,8) inv(1) by (auto simp: filled_def agree_def rule_inv_def)
  have "crush_do_rule inp (int ruleno) result_max work (a, b, c) = Some (take (nat k) c', st_work st)"
    using choose_emit [where firstn = True, simplified if_True, OF inv(1,2,4) _ n k(1,3,4) len] inv(3) assms(13) rs by simp
  then show ?thesis
    using filled_domains [OF k(8,2,7)] t k(3-6) len
    by (intro exI [of _ "take (nat k) c'"] exI [of _ "st_work st"] exI [of _ "take (nat k) (st_out st)"]) simp
qed

text \<open>
  C2: a rule that chooses leaves below buckets of type \<open>t\<close> breadth first
  (\<^verbatim>\<open>CRUSH_RULE_CHOOSELEAF_INDEP\<close>) fills exactly as many positions as were asked for and fit in the
  result. Each position holds \<^verbatim>\<open>CRUSH_ITEM_NONE\<close> or a device that is in, below a bucket of that type
  in the tree of \<^verbatim>\<open>root\<close>, and no two positions use the same bucket.
\<close>

theorem indep_positions:
  assumes "input_ok inp" "map_small (i_map inp)" "work_ok (i_map inp) work" "0 < result_max"
    and "length a = nat result_max" "length b = nat result_max" "length c = nat result_max"
    and "ruleno < length (m_rules (i_map inp))" "m_rules (i_map inp) ! ruleno = Some rule"
    and "r_steps rule = place_rule sets root CRUSH_RULE_CHOOSELEAF_INDEP n t"
    and "list_all step_small sets" "list_all is_set sets" "bucket_at (i_map inp) root = Some rb"
    and t: "t \<noteq> 0" and n: "numrep = (if n \<le> 0 then n + result_max else n)" "0 < numrep"
  shows "\<exists>result work' doms. crush_do_rule inp (int ruleno) result_max work (a, b, c) = Some (result, work') \<and>
    int (length result) = min numrep result_max \<and> distinct (removeAll CRUSH_ITEM_NONE doms) \<and>
    list_all2 (\<lambda>d0 d. d0 = CRUSH_ITEM_NONE \<and> d = CRUSH_ITEM_NONE \<or> in_domain inp rb t d0 d) doms result"
proof -
  obtain rs where rs: "crush_do_rule inp (int ruleno) result_max work (a, b, c) =
      Option.bind (fold_opt (rule_step inp result_max) rs
        [\<lparr>s_op = CRUSH_RULE_CHOOSELEAF_INDEP, s_arg1 = n, s_arg2 = t\<rparr>, \<lparr>s_op = CRUSH_RULE_EMIT, s_arg1 = 0, s_arg2 = 0\<rparr>])
        (\<lambda>rs. Some (rs_result rs, rs_work rs))"
    and inv: "rule_inv inp result_max rs" "rs_wsize rs = 1" "rs_w rs ! 0 = root" "rs_result rs = []"
    using place_rule_start [OF assms(1-13)] by blast
  have acc: "acc_ok inp result_max True (0, rs_o rs, rs_c rs, rs_work rs)" "in_map (i_map inp) rb"
    using inv(1) assms(1,4,13) bucket_at_in_map by (auto simp: rule_inv_def input_ok_def)
  let ?k = "min numrep result_max"
  obtain prm st c' where k: "indep_one inp result_max True numrep t rs rb (0, rs_o rs, rs_c rs, rs_work rs) =
        Some (?k, st_out st, c', st_work st)" "st_out2 st = Some c'" "n_type prm = t" "n_recurse_to_leaf prm"
      "settled inp prm rb 0 ?k \<lparr>st_work = rs_work rs, st_out = rs_o rs, st_out2 = Some (rs_c rs)\<rparr> st"
    using indep_one_settled [OF assms(1) acc(2) n(2) acc(1), of t rs] by auto
  have len: "length (st_out st) = nat result_max" "length c' = nat result_max" "0 \<le> ?k" "?k \<le> result_max"
    using k(2,5) inv(1) n(2) assms(4) by (auto simp: settled_def indep_inv_def outside_def rule_inv_def)
  have "crush_do_rule inp (int ruleno) result_max work (a, b, c) = Some (take (nat ?k) c', st_work st)"
    using choose_emit [where firstn = False, simplified if_False, OF inv(1,2,4) _ n k(1) len(3,4,1,2)] inv(3) assms(13) rs
    by simp
  then show ?thesis
    using settled_domains [OF assms(1) k(5,2,4)] k(3) t len
    by (intro exI [of _ "take (nat ?k) c'"] exI [of _ "st_work st"] exI [of _ "take (nat ?k) (st_out st)"]) auto
qed

section \<open>Examples\<close>

definition ex_host :: "int \<Rightarrow> int \<Rightarrow> int \<Rightarrow> crush_bucket" where
  "ex_host i d e = \<lparr>b_id = i, b_type = 1, b_hash = 0, b_weight = 0x20000, b_size = 2, b_items = [d, e],
     b_body = CRUSH_BUCKET_UNIFORM 0x10000\<rparr>"

definition ex_place :: "crush_opcodes \<Rightarrow> int \<Rightarrow> u32 list \<Rightarrow> crush_input" where
  "ex_place opc t weight = \<lparr>i_map =
     \<lparr>m_buckets = [Some \<lparr>b_id = -1, b_type = 2, b_hash = 0, b_weight = 0x40000, b_size = 2, b_items = [-2, -3],
          b_body = CRUSH_BUCKET_STRAW2 [0x20000, 0x20000]\<rparr>, Some (ex_host (-2) 0 1), Some (ex_host (-3) 2 3)],
      m_rules = [Some \<lparr>r_mask = \<lparr>mask_ruleset = 0, mask_type = 1, mask_min_size = 1, mask_max_size = 10\<rparr>,
        r_steps = place_rule [\<lparr>s_op = CRUSH_RULE_SET_CHOOSELEAF_TRIES, s_arg1 = 5, s_arg2 = 0\<rparr>] (-1) opc 0 t\<rparr>],
      max_devices = 4, choose_local_tries = 0, choose_local_fallback_tries = 0, choose_total_tries = 50,
      chooseleaf_descend_once = 1, chooseleaf_vary_r = 1, chooseleaf_stable = 1\<rparr>,
     i_weight = weight, i_x = 1, i_choose_args = None\<rparr>"

definition ex_work :: "crush_map \<Rightarrow> crush_work" where
  "ex_work m = \<lparr>w_work = crush_init_workspace m (\<lambda>_ _. 77), w_choose_tries = None\<rparr>"

lemma ex_place_ok: "input_ok (ex_place opc t weight)" "map_small (i_map (ex_place opc t weight))"
  by (simp_all add: ex_place_def ex_host_def input_ok_def map_ok_def args_ok_def bucket_ok_def body_ok_def
      bucket_at_def arr_get_def map_small_def small_def CRUSH_ITEM_UNDEF_def)

lemma ex_work_ok: "work_ok m (ex_work m)"
  unfolding ex_work_def by (rule init_workspace_ok)

lemma ex_place_rule:
  "r_steps (the (m_rules (i_map (ex_place opc t weight)) ! 0)) =
     place_rule [\<lparr>s_op = CRUSH_RULE_SET_CHOOSELEAF_TRIES, s_arg1 = 5, s_arg2 = 0\<rparr>] (-1) opc 0 t"
  "0 < length (m_rules (i_map (ex_place opc t weight)))"
  "m_rules (i_map (ex_place opc t weight)) ! 0 = Some (the (m_rules (i_map (ex_place opc t weight)) ! 0))"
  "length (m_rules (i_map (ex_place opc t weight))) = 1"
  by (simp_all add: ex_place_def)

lemma ex_place_sets:
  "list_all step_small [\<lparr>s_op = CRUSH_RULE_SET_CHOOSELEAF_TRIES, s_arg1 = 5, s_arg2 = 0\<rparr>]"
  "list_all is_set [\<lparr>s_op = CRUSH_RULE_SET_CHOOSELEAF_TRIES, s_arg1 = 5, s_arg2 = 0\<rparr>]"
  by (simp_all add: step_small_def is_set_def)

lemma ex_place_root:
  "bucket_at (i_map (ex_place opc t weight)) (-1) = Some (the (bucket_at (i_map (ex_place opc t weight)) (-1)))"
  by (simp add: ex_place_def bucket_at_def arr_get_def)

lemma crush_do_rule_returns_witness:
  "\<exists>result work'. crush_do_rule (ex_place CRUSH_RULE_CHOOSE_INDEP 0 [0, 0x10000, 5]) 0 3
      (ex_work (i_map (ex_place CRUSH_RULE_CHOOSE_INDEP 0 [0, 0x10000, 5]))) ([7, 7, 7], [8, 8, 8], [9, 9, 9]) =
      Some (result, work') \<and> length result \<le> 3 \<and>
    list_all (entry_ok (i_map (ex_place CRUSH_RULE_CHOOSE_INDEP 0 [0, 0x10000, 5]))) result"
proof -
  let ?inp = "ex_place CRUSH_RULE_CHOOSE_INDEP 0 [0, 0x10000, 5]"
  have "\<exists>rule. m_rules (i_map ?inp) ! nat 0 = Some rule \<and> list_all step_small (r_steps rule)"
    by (simp add: ex_place_def place_rule_def step_small_def)
  then show ?thesis
    using crush_do_rule_returns [OF ex_place_ok ex_work_ok, of 3 "[7, 7, 7]" "[8, 8, 8]" "[9, 9, 9]" 0
        CRUSH_RULE_CHOOSE_INDEP 0 "[0, 0x10000, 5]"] by (auto simp: list_all_iff)
qed

lemma firstn_separates_witness:
  "\<exists>result work' doms. crush_do_rule (ex_place CRUSH_RULE_CHOOSELEAF_FIRSTN 1 [0x10000, 0, 0x8000, 0x10000]) 0 3
      (ex_work (i_map (ex_place CRUSH_RULE_CHOOSELEAF_FIRSTN 1 [0x10000, 0, 0x8000, 0x10000])))
      ([7, 7, 7], [8, 8, 8], [9, 9, 9]) = Some (result, work') \<and> distinct result \<and> distinct doms \<and>
    list_all2 (in_domain (ex_place CRUSH_RULE_CHOOSELEAF_FIRSTN 1 [0x10000, 0, 0x8000, 0x10000])
      (the (bucket_at (i_map (ex_place CRUSH_RULE_CHOOSELEAF_FIRSTN 1 [0x10000, 0, 0x8000, 0x10000])) (-1))) 1) doms result"
  using firstn_separates [OF ex_place_ok ex_work_ok _ _ _ _ ex_place_rule(2,3,1) ex_place_sets ex_place_root,
      of 3 "[7, 7, 7]" "[8, 8, 8]" "[9, 9, 9]" 1 3 "[0x10000, 0, 0x8000, 0x10000]"] by simp blast

lemma indep_positions_witness:
  "\<exists>result work' doms. crush_do_rule (ex_place CRUSH_RULE_CHOOSELEAF_INDEP 1 [0x10000, 0, 0x8000, 0x10000]) 0 3
      (ex_work (i_map (ex_place CRUSH_RULE_CHOOSELEAF_INDEP 1 [0x10000, 0, 0x8000, 0x10000])))
      ([7, 7, 7], [8, 8, 8], [9, 9, 9]) = Some (result, work') \<and> length result = 3 \<and>
    distinct (removeAll CRUSH_ITEM_NONE doms)"
  using indep_positions [OF ex_place_ok ex_work_ok _ _ _ _ ex_place_rule(2,3,1) ex_place_sets ex_place_root,
      of 3 "[7, 7, 7]" "[8, 8, 8]" "[9, 9, 9]" 1 3 "[0x10000, 0, 0x8000, 0x10000]"] by auto

definition ex_leaf :: "crush_opcodes \<Rightarrow> u32 \<Rightarrow> crush_input" where
  "ex_leaf opc x = \<lparr>i_map =
     \<lparr>m_buckets = [Some \<lparr>b_id = -1, b_type = 1, b_hash = 0, b_weight = 0x10000, b_size = 1, b_items = [0],
          b_body = CRUSH_BUCKET_UNIFORM 0x10000\<rparr>],
      m_rules = [Some \<lparr>r_mask = \<lparr>mask_ruleset = 0, mask_type = 1, mask_min_size = 1, mask_max_size = 10\<rparr>,
        r_steps = place_rule [] (-1) opc 1 0\<rparr>],
      max_devices = 1, choose_local_tries = 0, choose_local_fallback_tries = 0, choose_total_tries = 0,
      chooseleaf_descend_once = 1, chooseleaf_vary_r = 1, chooseleaf_stable = 1\<rparr>,
     i_weight = [0], i_x = x, i_choose_args = None\<rparr>"

definition ex_leaf_result :: "crush_opcodes \<Rightarrow> u32 \<Rightarrow> int list option" where
  "ex_leaf_result opc x =
     map_option fst (crush_do_rule (ex_leaf opc x) 0 1 (ex_work (i_map (ex_leaf opc x))) ([7], [7], [7]))"

lemmas ex_leaf_defs = ex_leaf_def ex_leaf_result_def ex_work_def place_rule_def crush_do_rule_def rule_start_def
  rule_step_def step_take_def valid_take_def step_choose_def choose_one_def indep_one_def step_emit_def
  crush_init_workspace_def bucket_at_def arr_get_def arr_set_def check_def is_out_def

lemmas ex_leaf_indep = crush_choose_indep_def choose_indep_with_def indep_clear_def indep_finish_def set_both_def
  set_out2_def indep_rounds.simps indep_rep_def indep_search.simps indep_pass_def indep_accept_def
  indep_descend_leaf_def count_tries_def choose_from_def choose_arg_of_def on_work_def crush_bucket_choose_def
  bucket_perm_choose_def item_type_def CRUSH_ITEM_UNDEF_def CRUSH_ITEM_NONE_def


end
