(* ===== verification/Spec2Isabelle.thy ===== *)
theory Spec2Isabelle
  imports InoTable PaxosCatchUp StriperRead ClsLockOthers FlockRequests FlockDeadlock CrushPlace
begin

text \<open>
  A verification development of Ceph, a distributed object store with a file system, a block
  device and an object gateway on top. The sources are under \<^verbatim>\<open>src/src\<close>; file names below
  are relative to that directory.

  \<^bold>\<open>The parts and how they interact.\<close> Monitors (\<^verbatim>\<open>mon\<close>) agree on the cluster maps with
  Paxos and keep them in a key-value store. OSDs (\<^verbatim>\<open>osd\<close>, \<^verbatim>\<open>os\<close>) store objects; object
  classes (\<^verbatim>\<open>cls\<close>) run methods inside them, among them the lock class. Metadata servers
  (\<^verbatim>\<open>mds\<close>) hold the file system tree, hand out inode numbers and grant advisory file locks.
  Clients (\<^verbatim>\<open>client\<close>, \<^verbatim>\<open>osdc\<close>) cut a file into objects by its layout. The library
  models one deterministic core of each of these groups; the daemons call them under a lock, one
  call at a time, which is the step of the models.

  \<^bold>\<open>Conventions.\<close> An assertion that fails or an access that is not valid is \<open>None\<close>
  (\<open>check\<close>, \<open>fold_opt\<close> of \<open>Prelude\<close>). An error code is an integer result or a value of the
  outcome type. A \<^verbatim>\<open>std::map\<close> is a list sorted by key (\<open>omap\<close>). Words have the width of
  the C++ type wherever a wrap-around can be seen, and are unbounded numbers elsewhere. The clock,
  the network, the configuration and the disk are arguments: a handler returns the messages it
  sends and the transactions it queues as effects.

  \<^bold>\<open>Sets of intervals\<close> (\<open>IntervalSet\<close>, \<^verbatim>\<open>include/interval_set.h\<close>). The representation is
  the sorted list of \<open>(start, length)\<close> with the cached size. \<open>iv_wf\<close> says that the intervals are
  positive, apart from each other and that the size is their sum, and \<open>iv_set\<close> is the set they
  stand for. The locale \<open>extent_set\<close> is the contract that a client relies on, interpreted by the
  model's own operations. Insertion, removal, the algebra and \<open>span_of\<close> refine the operations on
  sets; removal aborts exactly when something is missing.

  \<^bold>\<open>Inode numbers\<close> (\<open>InoTable\<close>, \<^verbatim>\<open>mds/InoTable.cc\<close>). The table keeps the free numbers as
  they are on disk and as they will be once the journaled changes are applied. Every operation is a
  definition, and \<open>ino_step\<close> interleaves projections and their application. The invariant relates
  both sets through the queue of changes, so that applying one never aborts.

  \<^bold>\<open>Monitor store and Paxos\<close> (\<open>MonStore\<close>, \<open>Paxos\<close>, \<open>PaxosProps\<close>, \<open>PaxosCatchUp\<close>;
  \<^verbatim>\<open>mon/MonitorDBStore.h\<close>, \<^verbatim>\<open>mon/Paxos.cc\<close>). The state of one monitor is a record with its
  durable store; each handler maps a message to the new state and its effects, and \<open>px_step\<close> is any
  of them. Shown: what a promise and an acceptance make durable before they are sent, that a commit
  needs the whole quorum, that proposal numbers and versions never decrease in any execution and
  are unique to a rank, that a lagging peer replays exactly the missing versions, that recovery
  adopts the value with the highest number, the bounds of trimming, and that \<open>Paxos::read\<close> reports
  the opposite of what is documented. Agreement among all monitors is not claimed.

  \<^bold>\<open>File striping\<close> (\<open>Striper\<close>, \<open>StriperProps\<close>, \<open>StriperExtents\<close>, \<open>StriperRead\<close>;
  \<^verbatim>\<open>osdc/Striper.cc\<close>). \<open>file_pos\<close> is the reference layout, a bijection between file offsets
  and object bytes. The extents of a range cover it exactly once, the map back is the inverse,
  truncation and object counts agree with the reference, and assembling the replies of a striped
  read gives back the bytes of the range.

  \<^bold>\<open>The lock class\<close> (\<open>ClsLock\<close>, \<open>ClsLockProps\<close>, \<open>ClsLockTime\<close>, \<open>ClsLockOthers\<close>;
  \<^verbatim>\<open>cls/lock/cls_lock.cc\<close>). An object is its attributes; each method reads the clock as often
  as the code does. Shown: when a lock is granted, mutual exclusion after any sequence of calls,
  that no call takes the lock of another client, that unlocking undoes locking, and that a lock
  ends exactly at its expiration, which wraps in 32 bit seconds.

  \<^bold>\<open>Advisory file locks\<close> (\<open>Flock\<close> and the theories \<open>FlockInv\<close> to \<open>FlockDeadlock\<close>;
  \<^verbatim>\<open>mds/flock.cc\<close> and the handlers in \<^verbatim>\<open>mds/Server.cc\<close>). \<open>flock_wf\<close> is the invariant of
  the held locks, their counters and node identities, \<open>cover\<close> the bytes of a lock and \<open>holds\<close> what
  an owner has. Setting and removing a lock refine the sets of bytes per owner, the search for
  overlapping locks is exact, and the search for circles of waiting owners finds exactly those up
  to its depth. Offsets are below \<open>2 ^ 63\<close> (\<open>range_ok\<close>), the range of \<^verbatim>\<open>off_t\<close>. Locks are only
  united when their end fits an \<^verbatim>\<open>int\<close> (\<open>small_merge\<close>); what happens beyond is shown too.

  \<^bold>\<open>Bounds and fuel.\<close> No definition uses fuel except the search for deadlocks, whose depth is
  the \<^verbatim>\<open>MAX_DEADLK_DEPTH\<close> of the code. Loops are structural recursions or have a termination
  proof.

  \<^bold>\<open>Not modelled.\<close> Encoding and decoding of structures to buffers, dumps and logging,
  performance counters, threads and their locks. Of the daemons: the OSD with peering and
  recovery, the object stores, the cache and journal of the metadata server, the services of the
  monitor, the client library, the gateway, the block device, the messenger, authentication,
  erasure codes and compression. They are asynchronous state machines over sockets, disks or
  external libraries, whose behaviour the sources do not fix.
\<close>

end
